(* ===== verification/Prelude.thy ===== *)
theory Prelude
  imports Main "HOL-Library.Word" "HOL-Library.Sublist"
begin

text \<open>
  What every other theory of the development shares: C strings and the few functions of the
  C library the daemon applies to them, the decimal and hexadecimal conversions of
  \<open>printf\<close>, 32 and 64 bit integers, GLib's hash tables as association lists, and the two
  interfaces the components are programmed against: the string table and the invariant of a
  state machine.

  A C string is its list of bytes without the terminating zero byte. A pointer that can be
  \<open>NULL\<close> is an \<open>option\<close>.
\<close>

unbundle bit_operations_syntax

type_synonym u32 = "32 word"
type_synonym u64 = "64 word"

named_theorems splits_defs \<open>definitions that unfold to case distinctions of the source\<close>

section \<open>Strings\<close>

text \<open>\<open>g_str_has_prefix\<close>, \<open>g_str_has_suffix\<close> and \<open>strstr\<close> (used as a truth value).\<close>

fun has_prefix :: "string \<Rightarrow> string \<Rightarrow> bool" where
  "has_prefix s [] = True"
| "has_prefix [] (p # ps) = False"
| "has_prefix (c # cs) (p # ps) = (c = p \<and> has_prefix cs ps)"

fun strstr :: "string \<Rightarrow> string \<Rightarrow> bool" where
  "strstr [] needle = (needle = [])"
| "strstr (c # cs) needle = (has_prefix (c # cs) needle \<or> strstr cs needle)"

definition has_suffix :: "string \<Rightarrow> string \<Rightarrow> bool" where
  "has_suffix s p = has_prefix (rev s) (rev p)"

lemma has_prefix_iff: "has_prefix s p \<longleftrightarrow> prefix p s"
  by (induction s p rule: has_prefix.induct) auto

lemma has_suffix_iff: "has_suffix s p \<longleftrightarrow> suffix p s"
  by (simp add: has_suffix_def has_prefix_iff suffix_to_prefix)

lemma strstr_iff: "strstr s needle \<longleftrightarrow> sublist needle s"
  by (induction s) (auto simp: has_prefix_iff sublist_Cons_right)

lemmas string_tests = has_prefix_iff has_suffix_iff strstr_iff

text \<open>\<open>g_strcmp0 (a, b) == 0\<close>: two \<open>NULL\<close> pointers compare equal.\<close>

definition strcmp0_eq :: "string option \<Rightarrow> string option \<Rightarrow> bool" where
  "strcmp0_eq a b \<longleftrightarrow> a = b"

lemma strcmp0_eq_simps [simp]:
  "strcmp0_eq None None" "strcmp0_eq (Some s) (Some t) \<longleftrightarrow> s = t"
  "\<not> strcmp0_eq None (Some s)" "\<not> strcmp0_eq (Some s) None"
  by (auto simp: strcmp0_eq_def)

text \<open>\<open>g_strjoinv\<close>\<close>

fun strjoinv :: "string \<Rightarrow> string list \<Rightarrow> string" where
  "strjoinv sep [] = []"
| "strjoinv sep [s] = s"
| "strjoinv sep (s # t # ss) = s @ sep @ strjoinv sep (t # ss)"

lemma find_SomeD: "find P xs = Some x \<Longrightarrow> x \<in> set xs \<and> P x"
  by (induction xs) (auto split: if_splits)

section \<open>Number formats\<close>

definition digit :: "nat \<Rightarrow> char" where
  "digit n = char_of (if n < 10 then 48 + n else 87 + n)"

definition digit_val :: "char \<Rightarrow> nat" where
  "digit_val c = (let n = of_char c :: nat in if n < 58 then n - 48 else n - 87)"

lemma digit_val_digit: "n < 16 \<Longrightarrow> digit_val (digit n) = n"
  by (simp add: digit_def digit_val_def Let_def)

text \<open>\<open>%u\<close> and \<open>%x\<close> for the values the code prints, most significant digit first.\<close>

fun radix :: "nat \<Rightarrow> nat \<Rightarrow> string" where
  "radix b n = (if n < b \<or> b < 2 then [digit n] else radix b (n div b) @ [digit (n mod b)])"

declare radix.simps [simp del]

abbreviation dec :: "nat \<Rightarrow> string" where
  "dec n \<equiv> radix 10 n"

definition dec_int :: "int \<Rightarrow> string" where
  "dec_int i = (if i < 0 then ''-'' @ dec (nat (- i)) else dec (nat i))"

definition radix_val :: "nat \<Rightarrow> string \<Rightarrow> nat" where
  "radix_val b s = foldl (\<lambda>acc c. acc * b + digit_val c) 0 s"

lemma radix_val_snoc: "radix_val b (s @ [c]) = radix_val b s * b + digit_val c"
  by (simp add: radix_val_def)

lemma radix_val_radix: "2 \<le> b \<Longrightarrow> b \<le> 16 \<Longrightarrow> radix_val b (radix b n) = n"
proof (induction b n rule: radix.induct)
  case (1 b n)
  show ?case
  proof (cases "n < b")
    case True
    with "1.prems" show ?thesis
      by (simp add: radix.simps [of b n] radix_val_def digit_val_digit)
  next
    case False
    have "n mod b < 16"
      using "1.prems" by (meson less_le_trans mod_less_divisor zero_less_numeral order_less_le_trans)
    with False "1.IH" "1.prems" show ?thesis
      by (simp add: radix.simps [of b n] radix_val_snoc digit_val_digit)
  qed
qed

lemma dec_inj [simp]: "dec m = dec n \<longleftrightarrow> m = n"
proof
  assume "dec m = dec n"
  then have "radix_val 10 (dec m) = radix_val 10 (dec n)" by simp
  then show "m = n" by (simp add: radix_val_radix)
qed simp

lemma radix_nonempty [simp]: "radix b n \<noteq> []"
  by (subst radix.simps) simp

lemma digit_code: "n < 16 \<Longrightarrow> of_char (digit n) = (if n < 10 then 48 + n else 87 + n)"
  by (simp add: digit_def)

lemma set_radix: "2 \<le> b \<Longrightarrow> b \<le> 16 \<Longrightarrow> set (radix b n) \<subseteq> digit ` {..<b}"
proof (induction b n rule: radix.induct)
  case (1 b n)
  then show ?case
    by (cases "n < b") (auto simp: radix.simps [of b n])
qed

lemma dec_no_minus: "CHR ''-'' \<notin> set (dec n)"
proof
  assume "CHR ''-'' \<in> set (dec n)"
  then obtain k where "k < 10" and k: "CHR ''-'' = digit k"
    using set_radix [of 10 n] by auto
  then have "of_char (CHR ''-'') = 48 + k" using digit_code [of k] by simp
  then show False by simp
qed

lemma dec_int_inj [simp]: "dec_int i = dec_int j \<longleftrightarrow> i = j"
proof
  assume eq: "dec_int i = dec_int j"
  have "\<not> (i < 0 \<and> 0 \<le> j)" and "\<not> (j < 0 \<and> 0 \<le> i)"
    using eq dec_no_minus [of "nat i"] dec_no_minus [of "nat j"]
    by (auto simp: dec_int_def) (metis list.set_intros(1))+
  with eq show "i = j" by (auto simp: dec_int_def split: if_splits)
qed simp

lemma radix_step: "b \<le> n \<Longrightarrow> 2 \<le> b \<Longrightarrow> radix b n = radix b (n div b) @ [digit (n mod b)]"
  by (simp add: radix.simps [of b n])

lemma radix_small: "n < 16 \<Longrightarrow> radix 16 n = [digit n]"
  by (simp add: radix.simps [of 16 n])

lemma digit15: "digit 15 = CHR ''f''" by code_simp

lemma radix_ffffff: "radix 16 16777215 = ''ffffff''"
  by (simp add: radix_step radix_small digit15)

lemma radix_byte:
  assumes "n < 256" and "16 \<le> n"
  shows "radix 16 n = [digit (n div 16), digit (n mod 16)]"
proof -
  have "n div 16 < 16" using assms by simp
  then show ?thesis using assms by (simp add: radix_step [of 16 n] radix_small)
qed

lemma radix_shift:
  assumes "0 < m" and "d < 16"
  shows "radix 16 (m * 16 + d) = radix 16 m @ [digit d]"
  using assms by (simp add: radix_step [of 16 "m * 16 + d"])

section \<open>GLib hash tables\<close>

text \<open>
  A \<open>GHashTable\<close> keyed by strings is an association list without duplicate keys. Its
  order is the order an iterator visits the entries in; GLib leaves that order open, and so
  does every theorem here, since it speaks of any list.
\<close>

type_synonym 'v htab = "(string \<times> 'v) list"

definition ht_lookup :: "'v htab \<Rightarrow> string \<Rightarrow> 'v option" where
  "ht_lookup t = map_of t"

fun ht_insert :: "'v htab \<Rightarrow> string \<Rightarrow> 'v \<Rightarrow> 'v htab" where
  "ht_insert [] k v = [(k, v)]"
| "ht_insert ((k', v') # t) k v = (if k' = k then (k, v) # t else (k', v') # ht_insert t k v)"

definition ht_remove :: "'v htab \<Rightarrow> string \<Rightarrow> 'v htab" where
  "ht_remove t k = filter (\<lambda>(k', _). k' \<noteq> k) t"

definition ht_keys :: "'v htab \<Rightarrow> string set" where
  "ht_keys t = fst ` set t"

definition ht_wf :: "'v htab \<Rightarrow> bool" where
  "ht_wf t = distinct (map fst t)"

lemma map_of_ht_insert [simp]: "map_of (ht_insert t k v) = (map_of t)(k \<mapsto> v)"
  by (induction t k v rule: ht_insert.induct) auto

lemma keys_ht_insert [simp]: "fst ` set (ht_insert t k v) = insert k (fst ` set t)"
  by (induction t k v rule: ht_insert.induct) auto

lemma distinct_ht_insert: "distinct (map fst t) \<Longrightarrow> distinct (map fst (ht_insert t k v))"
proof (induction t k v rule: ht_insert.induct)
  case (2 k' v' t k v)
  have "k' \<notin> fst ` set (ht_insert t k v)" if "k' \<noteq> k"
    using that 2 by simp
  with 2 show ?case by auto
qed simp

lemma map_of_ht_remove [simp]: "map_of (ht_remove t k) = (map_of t)(k := None)"
  by (induction t) (auto simp: ht_remove_def)

lemma distinct_ht_remove: "distinct (map fst t) \<Longrightarrow> distinct (map fst (ht_remove t k))"
  by (induction t) (auto simp: ht_remove_def)

text \<open>
  What the components rely on when they keep a hash table. The facts of the locale are proved
  once from the laws; \<open>ht\<close> below supplies them for the association lists.
\<close>

locale string_table =
  fixes lookup :: "'t \<Rightarrow> string \<Rightarrow> 'v option"
    and ins :: "'t \<Rightarrow> string \<Rightarrow> 'v \<Rightarrow> 't"
    and rem :: "'t \<Rightarrow> string \<Rightarrow> 't"
    and keys :: "'t \<Rightarrow> string set"
    and invar :: "'t \<Rightarrow> bool"
  assumes lookup_ins: "lookup (ins t k v) = (lookup t)(k \<mapsto> v)"
    and lookup_rem: "lookup (rem t k) = (lookup t)(k := None)"
    and keys_dom: "keys t = dom (lookup t)"
    and invar_ins: "invar t \<Longrightarrow> invar (ins t k v)"
    and invar_rem: "invar t \<Longrightarrow> invar (rem t k)"
begin

lemma keys_ins: "keys (ins t k v) = insert k (keys t)"
  by (simp add: keys_dom lookup_ins)

lemma keys_rem: "keys (rem t k) = keys t - {k}"
  by (auto simp: keys_dom lookup_rem)

lemma lookup_fold_ins:
  "lookup (fold (\<lambda>(k, v) t. ins t k v) kvs t) = lookup t ++ map_of (rev kvs)"
proof (induction kvs arbitrary: t)
  case (Cons kv kvs)
  then show ?case
    by (cases kv) (auto simp: lookup_ins map_add_def fun_eq_iff split: option.splits)
qed simp

lemma invar_fold_ins: "invar t \<Longrightarrow> invar (fold (\<lambda>(k, v) t. ins t k v) kvs t)"
  by (induction kvs arbitrary: t) (auto simp: invar_ins)

lemma lookup_fold_rem:
  "lookup (fold (\<lambda>k t. rem t k) ks t) = (lookup t) |` (- set ks)"
proof (induction ks arbitrary: t)
  case Nil
  show ?case by (simp add: restrict_map_def)
next
  case (Cons k ks)
  then show ?case
    by (auto simp: lookup_rem restrict_map_def fun_eq_iff)
qed

lemma keys_fold_rem: "keys (fold (\<lambda>k t. rem t k) ks t) = keys t - set ks"
  by (auto simp: keys_dom lookup_fold_rem restrict_map_def split: if_splits)

lemma invar_fold_rem: "invar t \<Longrightarrow> invar (fold (\<lambda>k t. rem t k) ks t)"
  by (induction ks arbitrary: t) (auto simp: invar_rem)

end

interpretation ht: string_table ht_lookup ht_insert ht_remove ht_keys ht_wf
proof
  show "ht_keys t = dom (ht_lookup t)" for t :: "'v htab"
    by (simp add: ht_keys_def ht_lookup_def dom_map_of_conv_image_fst)
qed (auto simp: ht_lookup_def ht_wf_def distinct_ht_insert distinct_ht_remove fun_eq_iff)

section \<open>State machines\<close>

text \<open>
  A component that reacts to events is a step function into \<open>'err + 's\<close>: \<open>Inl\<close> is a
  run that ends there (a failed assertion, a crash). \<open>run_steps\<close> is the run over a sequence
  of events, in the order the main loop delivers them.
\<close>

definition ebind :: "'err + 'a \<Rightarrow> ('a \<Rightarrow> 'err + 'b) \<Rightarrow> 'err + 'b" where
  "ebind x f = (case x of Inl e \<Rightarrow> Inl e | Inr a \<Rightarrow> f a)"

lemma ebind_simps [simp]: "ebind (Inl e) f = Inl e" "ebind (Inr a) f = f a"
  by (simp_all add: ebind_def)

lemma ebind_Inr: "ebind x f = Inr b \<longleftrightarrow> (\<exists>a. x = Inr a \<and> f a = Inr b)"
  by (cases x) simp_all

fun run_steps :: "('s \<Rightarrow> 'e \<Rightarrow> 'err + 's) \<Rightarrow> 's \<Rightarrow> 'e list \<Rightarrow> 'err + 's" where
  "run_steps step s [] = Inr s"
| "run_steps step s (e # es) =
     (case step s e of Inl x \<Rightarrow> Inl x | Inr s' \<Rightarrow> run_steps step s' es)"

lemma run_steps_append:
  "run_steps step s (es @ fs) =
     (case run_steps step s es of Inl x \<Rightarrow> Inl x | Inr s' \<Rightarrow> run_steps step s' fs)"
  by (induction es arbitrary: s) (auto split: sum.splits)

locale guarded_machine =
  fixes step :: "'s \<Rightarrow> 'e \<Rightarrow> 'err + 's"
    and inv :: "'s \<Rightarrow> bool"
  assumes step_inv: "inv s \<Longrightarrow> step s e = Inr s' \<Longrightarrow> inv s'"
begin

lemma run_inv: "inv s \<Longrightarrow> run_steps step s es = Inr s' \<Longrightarrow> inv s'"
  by (induction es arbitrary: s) (auto split: sum.splits dest: step_inv)

lemma prefix_inv:
  assumes "inv s" and "run_steps step s (es @ fs) = Inr s'"
  obtains t where "run_steps step s es = Inr t" and "inv t" and "run_steps step t fs = Inr s'"
  using assms by (auto simp: run_steps_append split: sum.splits intro: run_inv)

end

text \<open>A machine that keeps its invariant as long as the events keep to a contract.\<close>

locale contract_machine =
  fixes step :: "'s \<Rightarrow> 'e \<Rightarrow> 'err + 's"
    and inv :: "'s \<Rightarrow> bool"
    and good :: "'e \<Rightarrow> bool"
  assumes step_keeps: "inv s \<Longrightarrow> good e \<Longrightarrow> step s e = Inr s' \<Longrightarrow> inv s'"
begin

lemma run_keeps: "inv s \<Longrightarrow> list_all good es \<Longrightarrow> run_steps step s es = Inr s' \<Longrightarrow> inv s'"
  by (induction es arbitrary: s) (auto split: sum.splits dest: step_keeps)

end

sublocale guarded_machine \<subseteq> free: contract_machine step inv "\<lambda>_. True"
  by unfold_locales (rule step_inv)

text \<open>A machine whose steps cannot fail from a state of the invariant.\<close>

locale safe_machine = guarded_machine +
  assumes step_total: "inv s \<Longrightarrow> \<exists>s'. step s e = Inr s'"
begin

lemma run_total: "inv s \<Longrightarrow> \<exists>s'. run_steps step s es = Inr s' \<and> inv s'"
proof (induction es arbitrary: s)
  case (Cons e es)
  obtain t where t: "step s e = Inr t" using step_total [OF Cons.prems] by blast
  with Cons.prems have "inv t" by (blast intro: step_inv)
  with t Cons.IH show ?case by simp
qed simp

end

end
