(* ===== verification/GLib_Types.thy ===== *)
theory GLib_Types
  imports Complex_Main Prelude
begin

text \<open>
  The data the daemon gets from the libraries it is written in: \<open>GVariant\<close> dictionaries,
  \<open>GError\<close>, \<open>gdouble\<close>, the wait status of a child, and the system calls with the
  trace of the calls made so far. What a system call answers is a parameter: a record of
  functions of the trace, so that a theorem about a routine holds whatever the kernel and the
  spawned programs do.
\<close>

section \<open>GVariant\<close>

datatype gvariant =
    VString string
  | VUint64 u64
  | VBoolean bool
  | VDictArray "(string \<times> gvariant) list list"

type_synonym vardict = "(string \<times> gvariant) list"

text \<open>
  \<open>g_variant_lookup\<close> finds the first entry with the key and succeeds when its value has
  the type of the format string, here \<open>&s\<close>, \<open>t\<close>, \<open>b\<close> and \<open>aa{sv}\<close>.
\<close>

definition lookup_s :: "vardict \<Rightarrow> string \<Rightarrow> string option" where
  "lookup_s d k = (case map_of d k of Some (VString s) \<Rightarrow> Some s | _ \<Rightarrow> None)"

definition lookup_t :: "vardict \<Rightarrow> string \<Rightarrow> u64 option" where
  "lookup_t d k = (case map_of d k of Some (VUint64 n) \<Rightarrow> Some n | _ \<Rightarrow> None)"

definition lookup_b :: "vardict \<Rightarrow> string \<Rightarrow> bool option" where
  "lookup_b d k = (case map_of d k of Some (VBoolean b) \<Rightarrow> Some b | _ \<Rightarrow> None)"

definition lookup_dicts :: "vardict \<Rightarrow> string \<Rightarrow> vardict list option" where
  "lookup_dicts d k = (case map_of d k of Some (VDictArray a) \<Rightarrow> Some a | _ \<Rightarrow> None)"

lemmas lookup_defs = lookup_s_def lookup_t_def lookup_b_def lookup_dicts_def

section \<open>GError\<close>

text \<open>The domain is the string of the error's quark, which some messages print.\<close>

record gerror =
  err_domain :: string
  err_code :: int
  err_message :: string

definition udisks_error :: "int \<Rightarrow> string \<Rightarrow> gerror" where
  "udisks_error code msg =
     \<lparr>err_domain = ''udisks-error-quark'', err_code = code, err_message = msg\<rparr>"

text \<open>The codes of \<open>UDisksError\<close> that the daemon uses.\<close>

abbreviation (input) UDISKS_ERROR_FAILED :: int where "UDISKS_ERROR_FAILED \<equiv> 0"
abbreviation (input) UDISKS_ERROR_ALREADY_CANCELLED :: int where "UDISKS_ERROR_ALREADY_CANCELLED \<equiv> 2"
abbreviation (input) UDISKS_ERROR_NOT_AUTHORIZED :: int where "UDISKS_ERROR_NOT_AUTHORIZED \<equiv> 3"
abbreviation (input) UDISKS_ERROR_NOT_AUTHORIZED_CAN_OBTAIN :: int where
  "UDISKS_ERROR_NOT_AUTHORIZED_CAN_OBTAIN \<equiv> 4"
abbreviation (input) UDISKS_ERROR_NOT_AUTHORIZED_DISMISSED :: int where
  "UDISKS_ERROR_NOT_AUTHORIZED_DISMISSED \<equiv> 5"

text \<open>
  A run of the program that ends: a failed \<open>g_assert\<close> or \<open>g_error\<close>, and the use of a
  pointer that is \<open>NULL\<close>, was never set or has been freed, with the C expression at fault; or a
  message of a level that GLib was told to end the program at.
\<close>

datatype abort = AssertFailed string | NullDereference string | UninitialisedRead string | UseAfterFree string
  | FatalMessage string

text \<open>The answer to a method call: the strings (and object paths) it returns, or an error.\<close>

datatype reply = Return "string list" | ReturnError gerror

section \<open>gdouble\<close>

text \<open>
  A double is an exact rational or one of the special values of IEEE 754. Rounding, overflow
  to infinity and the sign of zero are not modelled; division by zero is.
\<close>

datatype gdouble = Fin rat | PInf | NInf | NaN

fun d_div :: "gdouble \<Rightarrow> gdouble \<Rightarrow> gdouble" where
  "d_div (Fin a) (Fin b) =
     (if b \<noteq> 0 then Fin (a / b) else if 0 < a then PInf else if a < 0 then NInf else NaN)"
| "d_div (Fin a) NaN = NaN"
| "d_div (Fin a) _ = Fin 0"
| "d_div PInf (Fin b) = (if b < 0 then NInf else PInf)"
| "d_div NInf (Fin b) = (if b < 0 then PInf else NInf)"
| "d_div _ _ = NaN"

fun d_neg :: "gdouble \<Rightarrow> gdouble" where
  "d_neg (Fin a) = Fin (- a)"
| "d_neg PInf = NInf"
| "d_neg NInf = PInf"
| "d_neg NaN = NaN"

fun d_add :: "gdouble \<Rightarrow> gdouble \<Rightarrow> gdouble" where
  "d_add (Fin a) (Fin b) = Fin (a + b)"
| "d_add NaN _ = NaN"
| "d_add _ NaN = NaN"
| "d_add PInf NInf = NaN"
| "d_add NInf PInf = NaN"
| "d_add PInf _ = PInf"
| "d_add _ PInf = PInf"
| "d_add NInf _ = NInf"
| "d_add _ NInf = NInf"

definition d_sub :: "gdouble \<Rightarrow> gdouble \<Rightarrow> gdouble" where
  "d_sub a b = d_add a (d_neg b)"

fun d_mul :: "gdouble \<Rightarrow> gdouble \<Rightarrow> gdouble" where
  "d_mul (Fin a) (Fin b) = Fin (a * b)"
| "d_mul NaN _ = NaN"
| "d_mul _ NaN = NaN"
| "d_mul (Fin a) PInf = (if a = 0 then NaN else if 0 < a then PInf else NInf)"
| "d_mul (Fin a) NInf = (if a = 0 then NaN else if 0 < a then NInf else PInf)"
| "d_mul PInf (Fin a) = (if a = 0 then NaN else if 0 < a then PInf else NInf)"
| "d_mul NInf (Fin a) = (if a = 0 then NaN else if 0 < a then NInf else PInf)"
| "d_mul PInf PInf = PInf"
| "d_mul PInf NInf = NInf"
| "d_mul NInf PInf = NInf"
| "d_mul NInf NInf = PInf"

text \<open>
  Conversion to a 64 bit integer truncates towards zero; outside the range (and for the special
  values) C leaves the result undefined, which is \<open>None\<close>.
\<close>

definition trunc_rat :: "rat \<Rightarrow> int" where
  "trunc_rat q = (if 0 \<le> q then \<lfloor>q\<rfloor> else \<lceil>q\<rceil>)"

fun d_to_int64 :: "gdouble \<Rightarrow> int option" where
  "d_to_int64 (Fin q) =
     (let i = trunc_rat q in if - (2 ^ 63) \<le> i \<and> i < 2 ^ 63 then Some i else None)"
| "d_to_int64 _ = None"

fun d_to_uint64 :: "gdouble \<Rightarrow> u64 option" where
  "d_to_uint64 (Fin q) =
     (let i = trunc_rat q in if 0 \<le> i \<and> i < 2 ^ 64 then Some (word_of_int i) else None)"
| "d_to_uint64 _ = None"

text \<open>\<open>num/100000000.0\<close> for the fixed-point percentages of LVM.\<close>

definition lvm_ratio :: "u64 \<Rightarrow> gdouble" where
  "lvm_ratio num = d_div (Fin (of_nat (unat num))) (Fin 100000000)"

lemma lvm_ratio_Fin: "lvm_ratio num = Fin (of_nat (unat num) / 100000000)"
  by (simp add: lvm_ratio_def)

section \<open>The status of a child process\<close>

text \<open>The macros of \<open>sys/wait.h\<close> on Linux.\<close>

definition WTERMSIG :: "u32 \<Rightarrow> nat" where
  "WTERMSIG s = unat (s AND 127)"

definition WIFEXITED :: "u32 \<Rightarrow> bool" where
  "WIFEXITED s \<longleftrightarrow> WTERMSIG s = 0"

definition WEXITSTATUS :: "u32 \<Rightarrow> nat" where
  "WEXITSTATUS s = unat (drop_bit 8 (s AND 65280))"

text \<open>\<open>((signed char) ((s & 0x7f) + 1) >> 1) > 0\<close>: neither exited nor stopped.\<close>

definition WIFSIGNALED :: "u32 \<Rightarrow> bool" where
  "WIFSIGNALED s \<longleftrightarrow> WTERMSIG s \<noteq> 0 \<and> WTERMSIG s \<noteq> 127"

definition exited_ok :: "u32 \<Rightarrow> bool" where
  "exited_ok s \<longleftrightarrow> WIFEXITED s \<and> WEXITSTATUS s = 0"

section \<open>System calls\<close>

type_synonym fd = int

datatype oflag = O_RDONLY | O_RDWR | O_WRONLY | O_EXCL

datatype sysevent =
    EvOpen string "oflag list"
  | EvWriteZeroes fd nat
  | EvWrite fd string
  | EvIoctlRrpart fd
  | EvClose fd
  | EvSpawn "string list"

type_synonym systrace = "sysevent list"

text \<open>
  The answers of the kernel: the return value and \<open>errno\<close> of a call, given the calls made
  before it; \<open>g_spawn_sync\<close> answers with an error or with what the program wrote and its
  status. \<open>spawn_exit_error\<close> is the error of \<open>g_spawn_check_exit_status\<close>.
\<close>

record os =
  sys_open :: "systrace \<Rightarrow> string \<Rightarrow> oflag list \<Rightarrow> int \<times> int"
  sys_write :: "systrace \<Rightarrow> fd \<Rightarrow> nat \<Rightarrow> int \<times> int"
  sys_rrpart :: "systrace \<Rightarrow> fd \<Rightarrow> int \<times> int"
  sys_spawn :: "systrace \<Rightarrow> string list \<Rightarrow> gerror + (string \<times> string \<times> u32)"
  strerror :: "int \<Rightarrow> string"
  spawn_exit_error :: "u32 \<Rightarrow> gerror"

text \<open>A kernel where every call succeeds, for concrete runs.\<close>

definition agreeing_os :: os where
  "agreeing_os = \<lparr>sys_open = (\<lambda>_ _ _. (3, 0)), sys_write = (\<lambda>_ _ n. (int n, 0)),
     sys_rrpart = (\<lambda>_ _. (0, 0)), sys_spawn = (\<lambda>_ _. Inr ([], [], 0)), strerror = dec_int,
     spawn_exit_error = (\<lambda>st. \<lparr>err_domain = ''g-spawn-exit-error-quark'',
       err_code = int (WEXITSTATUS st),
       err_message = ''Child process exited with code '' @ dec (WEXITSTATUS st)\<rparr>)\<rparr>"

abbreviation (input) EINVAL :: int where "EINVAL \<equiv> 22"

end
