(* ===== verification/Helper_Program.thy ===== *)
theory Helper_Program
  imports GLib_Types
begin

text \<open>
  \<open>src/helper.c\<close>: the program \<open>storaged-lvm-helper\<close>, which the daemon spawns to ask
  LVM for the list of volume groups or for one volume group, and whose answer is the
  \<open>GVariant\<close> that \<open>Volume_Group\<close> and \<open>Manager\<close> read.
\<close>

section \<open>What lvm2app answers\<close>

record lvm_property =
  is_valid :: bool
  is_string :: bool
  string_value :: "string option"
  is_integer :: bool
  integer_value :: u64

record lvm_lv =
  lv_name :: string
  lv_uuid :: string
  lv_size :: u64
  lv_property :: "string \<Rightarrow> lvm_property"

record lvm_pv =
  pv_name :: string
  pv_uuid :: string
  pv_size :: u64
  pv_free :: u64

record lvm_vg =
  vg_name :: string
  vg_uuid :: string
  vg_size :: u64
  vg_free_size :: u64
  vg_extent_size :: u64
  vg_list_lvs :: "lvm_lv list option"
  vg_list_pvs :: "lvm_pv list option"

text \<open>The library, opened with or without locking (\<open>init_lvm\<close>, option \<open>-f\<close>).\<close>

record lvm_library =
  list_vg_names :: "bool \<Rightarrow> string list"
  vg_open :: "bool \<Rightarrow> string \<Rightarrow> lvm_vg option"

section \<open>Building the answers\<close>

definition list_volume_groups :: "lvm_library \<Rightarrow> bool \<Rightarrow> string list" where
  "list_volume_groups lvm no_lock = list_vg_names lvm no_lock"

definition add_string :: "vardict \<Rightarrow> string \<Rightarrow> string \<Rightarrow> vardict" where
  "add_string bob key val = bob @ [(key, VString val)]"

definition add_uint64 :: "vardict \<Rightarrow> string \<Rightarrow> u64 \<Rightarrow> vardict" where
  "add_uint64 bob key val = bob @ [(key, VUint64 val)]"

definition add_lvprop :: "vardict \<Rightarrow> string \<Rightarrow> lvm_lv \<Rightarrow> vardict" where
  "add_lvprop bob key lv =
     (let p = lv_property lv key in
      if is_valid p then
        (case (is_string p, string_value p) of
           (True, Some s) \<Rightarrow> add_string bob key s
         | _ \<Rightarrow> if is_integer p then add_uint64 bob key (integer_value p) else bob)
      else bob)"

definition show_logical_volume :: "lvm_lv \<Rightarrow> vardict" where
  "show_logical_volume lv =
     (let result = [];
          result = add_string result ''name'' (lv_name lv);
          result = add_string result ''uuid'' (lv_uuid lv);
          result = add_uint64 result ''size'' (lv_size lv);
          result = add_lvprop result ''lv_attr'' lv;
          result = add_lvprop result ''lv_path'' lv;
          result = add_lvprop result ''move_pv'' lv;
          result = add_lvprop result ''pool_lv'' lv;
          result = add_lvprop result ''origin'' lv;
          result = add_lvprop result ''data_percent'' lv;
          result = add_lvprop result ''metadata_percent'' lv;
          result = add_lvprop result ''copy_percent'' lv
      in result)"

definition show_physical_volume :: "lvm_pv \<Rightarrow> vardict" where
  "show_physical_volume pv =
     (let result = [];
          result = add_string result ''device'' (pv_name pv);
          result = add_string result ''uuid'' (pv_uuid pv);
          result = add_uint64 result ''size'' (pv_size pv);
          result = add_uint64 result ''free-size'' (pv_free pv)
      in result)"

text \<open>\<open>None\<close>: the group cannot be opened and the program exits with status 2.\<close>

definition show_volume_group :: "lvm_library \<Rightarrow> bool \<Rightarrow> string \<Rightarrow> vardict option" where
  "show_volume_group lvm no_lock name =
     (case vg_open lvm no_lock name of
        None \<Rightarrow> None
      | Some vg \<Rightarrow>
          let result = [];
              result = add_string result ''name'' (vg_name vg);
              result = add_string result ''uuid'' (vg_uuid vg);
              result = add_uint64 result ''size'' (vg_size vg);
              result = add_uint64 result ''free-size'' (vg_free_size vg);
              result = add_uint64 result ''extent-size'' (vg_extent_size vg);
              lvs = (case vg_list_lvs vg of None \<Rightarrow> [] | Some l \<Rightarrow> map show_logical_volume l);
              result = result @ [(''lvs'', VDictArray lvs)];
              pvs = (case vg_list_pvs vg of None \<Rightarrow> [] | Some l \<Rightarrow> map show_physical_volume l);
              result = result @ [(''pvs'', VDictArray pvs)]
          in Some result)"

section \<open>The command line\<close>

datatype helper_answer = VgNames "string list" | VgInfo vardict

text \<open>
  How the program ends: \<open>usage\<close> and a group that cannot be opened with their exit status,
  otherwise status 0 and the answer, serialized (\<open>-b\<close>) or as text.
\<close>

datatype helper_end = HelperExit nat | HelperAnswer bool helper_answer

definition usage :: helper_end where
  "usage = HelperExit 1"

text \<open>The option loop: \<open>(opt_binary, opt_no_lock)\<close> and the arguments left, \<open>None\<close> for usage.\<close>

fun parse_options :: "bool \<Rightarrow> bool \<Rightarrow> string list \<Rightarrow> (bool \<times> bool \<times> string list) option" where
  "parse_options bin nolock [] = Some (bin, nolock, [])"
| "parse_options bin nolock (arg # args) =
     (if has_prefix arg ''-'' then
        if arg = ''-b'' then parse_options True nolock args
        else if arg = ''-f'' then parse_options bin True args
        else None
      else Some (bin, nolock, arg # args))"

definition helper_main :: "lvm_library \<Rightarrow> string list \<Rightarrow> helper_end" where
  "helper_main lvm args =
     (case parse_options False False args of
        None \<Rightarrow> usage
      | Some (bin, nolock, args) \<Rightarrow>
          (case args of
             [] \<Rightarrow> usage
           | cmd # rest \<Rightarrow>
               if cmd = ''list'' then HelperAnswer bin (VgNames (list_volume_groups lvm nolock))
               else if cmd = ''show'' then
                 (case rest of
                    [] \<Rightarrow> usage
                  | name # _ \<Rightarrow>
                      (case show_volume_group lvm nolock name of
                         None \<Rightarrow> HelperExit 2
                       | Some info \<Rightarrow> HelperAnswer bin (VgInfo info)))
               else usage))"

section \<open>Writing the answer\<close>


section \<open>What the answers hold\<close>

lemma map_of_snoc: "map_of (d @ [(k, v)]) k' = (case map_of d k' of None \<Rightarrow> if k' = k then Some v else None | Some w \<Rightarrow> Some w)"
  by (auto simp: map_add_def split: option.splits)

lemma map_of_add_lvprop:
  "k' \<noteq> k \<Longrightarrow> map_of (add_lvprop d k lv) k' = map_of d k'"
  by (auto simp: add_lvprop_def add_string_def add_uint64_def Let_def map_add_def split: option.splits bool.splits)

definition lvprop_value :: "lvm_property \<Rightarrow> gvariant option" where
  "lvprop_value p =
     (if is_valid p then
        (case (is_string p, string_value p) of
           (True, Some s) \<Rightarrow> Some (VString s)
         | _ \<Rightarrow> if is_integer p then Some (VUint64 (integer_value p)) else None)
      else None)"

lemma map_of_add_lvprop_same:
  "map_of d k = None \<Longrightarrow> map_of (add_lvprop d k lv) k = lvprop_value (lv_property lv k)"
  by (auto simp: add_lvprop_def lvprop_value_def add_string_def add_uint64_def Let_def map_add_def
      split: option.splits bool.splits)

definition lvprop_keys :: "string list" where
  "lvprop_keys = [''lv_attr'', ''lv_path'', ''move_pv'', ''pool_lv'', ''origin'',
     ''data_percent'', ''metadata_percent'', ''copy_percent'']"

lemma map_of_lvprops:
  assumes "distinct ks" and "\<forall>k \<in> set ks. map_of d k = None"
  shows "map_of (fold (\<lambda>k d. add_lvprop d k lv) ks d) k =
    (if k \<in> set ks then lvprop_value (lv_property lv k) else map_of d k)"
  using assms
proof (induction ks arbitrary: d)
  case (Cons x ks)
  then have "\<forall>k \<in> set ks. map_of (add_lvprop d x lv) k = None"
    by (metis distinct.simps(2) list.set_intros(2) map_of_add_lvprop)
  with Cons show ?case
    by (auto simp: map_of_add_lvprop map_of_add_lvprop_same)
qed simp

lemma show_lv_fold:
  "show_logical_volume lv =
     fold (\<lambda>k d. add_lvprop d k lv) lvprop_keys
       [(''name'', VString (lv_name lv)), (''uuid'', VString (lv_uuid lv)), (''size'', VUint64 (lv_size lv))]"
  by (simp add: show_logical_volume_def lvprop_keys_def add_string_def add_uint64_def)

lemma map_of_show_lv:
  "map_of (show_logical_volume lv) k =
     (if k \<in> set lvprop_keys then lvprop_value (lv_property lv k)
      else map_of [(''name'', VString (lv_name lv)), (''uuid'', VString (lv_uuid lv)),
        (''size'', VUint64 (lv_size lv))] k)"
  unfolding show_lv_fold by (rule map_of_lvprops) (simp_all add: lvprop_keys_def)

lemma show_lv_name [simp]: "lookup_s (show_logical_volume lv) ''name'' = Some (lv_name lv)"
  and show_lv_uuid [simp]: "lookup_s (show_logical_volume lv) ''uuid'' = Some (lv_uuid lv)"
  and show_lv_size [simp]: "lookup_t (show_logical_volume lv) ''size'' = Some (lv_size lv)"
  by (simp_all add: lookup_defs map_of_show_lv lvprop_keys_def)

lemma show_pv_fields [simp]:
  "lookup_s (show_physical_volume pv) ''device'' = Some (pv_name pv)"
  "lookup_s (show_physical_volume pv) ''uuid'' = Some (pv_uuid pv)"
  "lookup_t (show_physical_volume pv) ''size'' = Some (pv_size pv)"
  "lookup_t (show_physical_volume pv) ''free-size'' = Some (pv_free pv)"
  by (simp_all add: lookup_defs show_physical_volume_def add_string_def add_uint64_def)

lemma lookup_lvprop:
  assumes "k \<in> set lvprop_keys"
  shows "lookup_s (show_logical_volume lv) k = Some s \<longleftrightarrow>
      is_valid (lv_property lv k) \<and> is_string (lv_property lv k) \<and> string_value (lv_property lv k) = Some s"
    and "lookup_t (show_logical_volume lv) k = Some n \<longleftrightarrow>
      is_valid (lv_property lv k) \<and> \<not> (is_string (lv_property lv k) \<and> string_value (lv_property lv k) \<noteq> None) \<and>
      is_integer (lv_property lv k) \<and> integer_value (lv_property lv k) = n"
  using assms
  by (auto simp: lookup_defs map_of_show_lv lvprop_value_def split: option.splits bool.splits gvariant.splits if_splits)

text \<open>
  C32: The lookups of the daemon read back from the helper's answer all that LVM said about the
  group: its name, UUID and sizes; one dictionary per logical volume in LVM's order, with its name, UUID
  and size, and each of the eight optional properties exactly when it is valid, a string that is not
  \<open>NULL\<close> as this string and an integer as this number; and one per physical volume in LVM's order,
  with its device, UUID, size and free size.
\<close>

theorem helper_answer_read_back:
  assumes "vg_open lvm nolock name = Some vg"
  shows "\<exists>info lvs pvs. show_volume_group lvm nolock name = Some info \<and>
    lookup_s info ''name'' = Some (vg_name vg) \<and> lookup_s info ''uuid'' = Some (vg_uuid vg) \<and>
    lookup_t info ''size'' = Some (vg_size vg) \<and> lookup_t info ''free-size'' = Some (vg_free_size vg) \<and>
    lookup_t info ''extent-size'' = Some (vg_extent_size vg) \<and>
    lookup_dicts info ''lvs'' = Some lvs \<and> lookup_dicts info ''pvs'' = Some pvs \<and>
    list_all2 (\<lambda>d lv. lookup_s d ''name'' = Some (lv_name lv) \<and> lookup_s d ''uuid'' = Some (lv_uuid lv) \<and>
        lookup_t d ''size'' = Some (lv_size lv) \<and>
        (\<forall>k \<in> {''lv_attr'', ''lv_path'', ''move_pv'', ''pool_lv'', ''origin'', ''data_percent'', ''metadata_percent'',
            ''copy_percent''}. let p = lv_property lv k in
          (\<forall>s. lookup_s d k = Some s \<longleftrightarrow> is_valid p \<and> is_string p \<and> string_value p = Some s) \<and>
          (\<forall>n. lookup_t d k = Some n \<longleftrightarrow> is_valid p \<and> \<not> (is_string p \<and> string_value p \<noteq> None) \<and>
             is_integer p \<and> integer_value p = n)))
      lvs (case vg_list_lvs vg of None \<Rightarrow> [] | Some l \<Rightarrow> l) \<and>
    list_all2 (\<lambda>d pv. lookup_s d ''device'' = Some (pv_name pv) \<and> lookup_s d ''uuid'' = Some (pv_uuid pv) \<and>
        lookup_t d ''size'' = Some (pv_size pv) \<and> lookup_t d ''free-size'' = Some (pv_free pv))
      pvs (case vg_list_pvs vg of None \<Rightarrow> [] | Some l \<Rightarrow> l)"
proof -
  let ?lvs = "map show_logical_volume (case vg_list_lvs vg of None \<Rightarrow> [] | Some l \<Rightarrow> l)"
  let ?pvs = "map show_physical_volume (case vg_list_pvs vg of None \<Rightarrow> [] | Some l \<Rightarrow> l)"
  obtain info where info: "show_volume_group lvm nolock name = Some info"
    using assms by (simp add: show_volume_group_def)
  have "lookup_s info ''name'' = Some (vg_name vg)" "lookup_s info ''uuid'' = Some (vg_uuid vg)"
    "lookup_t info ''size'' = Some (vg_size vg)" "lookup_t info ''free-size'' = Some (vg_free_size vg)"
    "lookup_t info ''extent-size'' = Some (vg_extent_size vg)"
    "lookup_dicts info ''lvs'' = Some ?lvs" "lookup_dicts info ''pvs'' = Some ?pvs"
    using assms info
    by (auto simp: show_volume_group_def lookup_defs add_string_def add_uint64_def split: option.splits)
  moreover have "{''lv_attr'', ''lv_path'', ''move_pv'', ''pool_lv'', ''origin'', ''data_percent'', ''metadata_percent'',
      ''copy_percent''} = set lvprop_keys"
    by (simp add: lvprop_keys_def)
  ultimately show ?thesis
    using info lookup_lvprop by (intro exI [of _ info] exI [of _ ?lvs] exI [of _ ?pvs]) (simp add: list_all2_map1 list.rel_refl Let_def)
qed

definition demo_lv :: lvm_lv where
  "demo_lv = \<lparr>lv_name = ''root'', lv_uuid = ''u1'', lv_size = 4194304,
     lv_property = (\<lambda>k. if k = ''lv_attr''
       then \<lparr>is_valid = True, is_string = True, string_value = Some ''-wi-a-----'',
         is_integer = False, integer_value = 0\<rparr>
       else \<lparr>is_valid = False, is_string = False, string_value = None,
         is_integer = False, integer_value = 0\<rparr>)\<rparr>"

definition demo_vg :: lvm_vg where
  "demo_vg = \<lparr>vg_name = ''vg0'', vg_uuid = ''u0'', vg_size = 8388608, vg_free_size = 4194304,
     vg_extent_size = 4194304, vg_list_lvs = Some [demo_lv],
     vg_list_pvs = Some [\<lparr>pv_name = ''/dev/sda1'', pv_uuid = ''p0'', pv_size = 8388608, pv_free = 4194304\<rparr>]\<rparr>"

definition demo_lvm :: lvm_library where
  "demo_lvm = \<lparr>list_vg_names = (\<lambda>_. [''vg0'']),
     vg_open = (\<lambda>_ name. if name = ''vg0'' then Some demo_vg else None)\<rparr>"

theorem helper_answer_read_back_witness:
  "\<exists>info. show_volume_group demo_lvm False ''vg0'' = Some info \<and>
     lookup_t info ''size'' = Some 8388608"
  using helper_answer_read_back [of demo_lvm False "''vg0''" demo_vg]
  by (fastforce simp: demo_lvm_def demo_vg_def)



end
