(* ===== verification/Util.thy ===== *)
theory Util
  imports GLib_Types
begin

text \<open>
  \<open>src/util.c\<close>: D-Bus object paths from LVM names, reserved LVM names, wiping a block
  device, and the verdict on a finished command.
\<close>

section \<open>Object paths\<close>

text \<open>
  \<open>gint c = s[n]\<close>: \<open>gchar\<close> is the \<open>char\<close> of the C compiler, which is signed on
  the platforms the daemon is built for, so a byte above 127 becomes a negative \<open>gint\<close>, and
  \<open>%02x\<close> prints that as an unsigned 32 bit number.
\<close>

definition gint_of_gchar :: "char \<Rightarrow> u32" where
  "gint_of_gchar c = scast (of_char c :: 8 word)"

definition path_safe :: "u32 \<Rightarrow> bool" where
  "path_safe c \<longleftrightarrow>
     (65 \<le> sint c \<and> sint c \<le> 90) \<or> (97 \<le> sint c \<and> sint c \<le> 122) \<or>
     (48 \<le> sint c \<and> sint c \<le> 57) \<or> sint c = 95"

definition hex02 :: "u32 \<Rightarrow> string" where
  "hex02 c = (let h = radix 16 (unat c) in if length h < 2 then CHR ''0'' # h else h)"

fun safe_append_to_object_path :: "string \<Rightarrow> string \<Rightarrow> string" where
  "safe_append_to_object_path str [] = str"
| "safe_append_to_object_path str (b # bs) =
     (let c = gint_of_gchar b in
      if path_safe c then safe_append_to_object_path (str @ [b]) bs
      else safe_append_to_object_path (str @ ''_'' @ hex02 c) bs)"

fun append_parts :: "string \<Rightarrow> string list \<Rightarrow> string" where
  "append_parts path [] = path"
| "append_parts path (part # parts) =
     append_parts (safe_append_to_object_path (path @ ''/'') part) parts"

definition build_object_path :: "string option \<Rightarrow> string list \<Rightarrow> string option" where
  "build_object_path base parts =
     (case base of
        None \<Rightarrow> None
      | Some b \<Rightarrow> if has_suffix b ''/'' then None else Some (append_parts b parts))"

text \<open>The same text byte by byte, which the proofs use.\<close>

definition escape_byte :: "char \<Rightarrow> string" where
  "escape_byte b =
     (let c = gint_of_gchar b in if path_safe c then [b] else ''_'' @ hex02 c)"

definition escape :: "string \<Rightarrow> string" where
  "escape s = concat (map escape_byte s)"

lemma safe_append_escape: "safe_append_to_object_path str s = str @ escape s"
  by (induction str s rule: safe_append_to_object_path.induct)
    (auto simp: escape_def escape_byte_def Let_def)

lemma append_parts_escape:
  "append_parts path parts = path @ concat (map (\<lambda>p. ''/'' @ escape p) parts)"
  by (induction path parts rule: append_parts.induct) (auto simp: safe_append_escape)

lemma build_object_path_Some:
  "build_object_path (Some b) parts =
     (if suffix ''/'' b then None else Some (b @ concat (map (\<lambda>p. ''/'' @ escape p) parts)))"
  by (simp add: build_object_path_def append_parts_escape string_tests)

lemma gint_of_int:
  "gint_of_gchar b = word_of_int (if of_char b < (128::nat) then int (of_char b) else int (of_char b) - 256)"
proof -
  define n where "n = (of_char b :: nat)"
  have n: "n < 256" by (simp add: n_def)
  have "(of_char b :: 8 word) = of_nat n" by (simp add: of_nat_of_char n_def)
  then have "gint_of_gchar b = word_of_int (signed_take_bit 7 (int n))"
    by (simp add: gint_of_gchar_def signed_of_nat)
  also have "signed_take_bit 7 (int n) = (int n + 128) mod 256 - 128"
    by (simp add: signed_take_bit_eq_take_bit_shift take_bit_eq_mod)
  also have "\<dots> = (if n < 128 then int n else int n - 256)"
  proof (cases "n < 128")
    case False
    with n have "(int n - 128 + 256) mod 256 = int n - 128" by (simp only: mod_add_self2) simp
    with False show ?thesis by (simp add: add.commute)
  qed simp
  finally show ?thesis by (simp add: n_def)
qed

lemma sint_gint: "sint (gint_of_gchar b) = (if of_char b < (128::nat) then int (of_char b) else int (of_char b) - 256)"
proof -
  define n where "n = (of_char b :: nat)"
  have n: "n < 256" by (simp add: n_def)
  then show ?thesis
   by (auto simp: gint_of_int sint_sbintrunc' signed_take_bit_int_eq_self_iff simp flip: n_def)
qed

lemma mod_neg: "n < 256 \<Longrightarrow> nat ((int n - 256) mod 4294967296) = 4294967040 + n"
proof -
  assume "n < 256"
  then have "(int n - 256 + 4294967296) mod 4294967296 = 4294967040 + int n" by simp
  then have "(int n - 256) mod 4294967296 = 4294967040 + int n" by (simp only: mod_add_self2)
  then show ?thesis by simp
qed

lemma unat_gint: "unat (gint_of_gchar b) = (if of_char b < (128::nat) then of_char b else 4294967040 + of_char b)"
proof -
  define n where "n = (of_char b :: nat)"
  have n: "n < 256" by (simp add: n_def)
  then show ?thesis
   by (auto simp: gint_of_int unat_eq_nat_uint uint_word_of_int take_bit_eq_mod mod_neg simp flip: n_def) 
qed

lemma radix_negative:
  assumes n: "n < 256"
  shows "radix 16 (4294967040 + n) = ''ffffff'' @ [digit (n div 16), digit (n mod 16)]"
proof -
  have big: "4294967040 + n = (16777215 * 16 + n div 16) * 16 + n mod 16" by simp
  have "radix 16 (16777215 * 16 + n div 16) = ''ffffff'' @ [digit (n div 16)]"
    using n by (subst radix_shift) (simp_all add: radix_ffffff)
  then show ?thesis
    unfolding big by (subst radix_shift) simp_all
qed

definition path_char :: "char \<Rightarrow> bool" where
  "path_char c = (let n = of_char c :: nat in
     (65 \<le> n \<and> n \<le> 90) \<or> (97 \<le> n \<and> n \<le> 122) \<or> (48 \<le> n \<and> n \<le> 57) \<or> n = 95)"

lemma path_safe_iff: "path_safe (gint_of_gchar b) \<longleftrightarrow> path_char b"
proof -
  define n where "n = (of_char b :: nat)"
  have "n < 256" by (simp add: n_def)
  then show ?thesis
    by (auto simp: path_safe_def path_char_def sint_gint Let_def simp flip: n_def)
qed

lemma digit_path_char: "n < 16 \<Longrightarrow> path_char (digit n)"
  by (auto simp: path_char_def Let_def digit_code)

definition hex2 :: "char \<Rightarrow> string" where
  "hex2 b = [digit (of_char b div 16), digit (of_char b mod 16)]"

lemma escape_byte_eq:
  "escape_byte b =
     (if path_char b then [b]
      else if of_char b < (128::nat) then ''_'' @ hex2 b else ''_ffffff'' @ hex2 b)"
proof -
  define n where "n = (of_char b :: nat)"
  have n: "n < 256" by (simp add: n_def)
  have low: "hex02 (gint_of_gchar b) = hex2 b" if "n < 128"
  proof (cases "n < 16")
    case True
    have "digit 0 = CHR ''0''" by code_simp
    with True that show ?thesis
      by (simp add: hex02_def unat_gint radix_small hex2_def flip: n_def)
  next
    case False
    with n that show ?thesis
      by (simp add: hex02_def unat_gint radix_byte hex2_def flip: n_def)
  qed
  have high: "hex02 (gint_of_gchar b) = ''ffffff'' @ hex2 b" if "\<not> n < 128"
    using n that by (simp add: hex02_def unat_gint radix_negative hex2_def flip: n_def)
  show ?thesis
    by (simp add: escape_byte_def Let_def path_safe_iff low high flip: n_def)
qed

lemma hex2_digits: "list_all path_char (hex2 b)"
proof -
  define n where "n = (of_char b :: nat)"
  have "n < 256" by (simp add: n_def)
  then have "n div 16 < 16" by simp
  then show ?thesis by (simp add: hex2_def digit_path_char flip: n_def)
qed

lemma escape_byte_chars: "escape_byte b \<noteq> [] \<and> list_all path_char (escape_byte b)"
proof -
  have "path_char (CHR ''_'')" and "path_char (CHR ''f'')" by (simp_all add: path_char_def)
  then show ?thesis using hex2_digits [of b] by (simp add: escape_byte_eq)
qed

lemma escape_chars: "list_all path_char (escape s)"
  using escape_byte_chars by (auto simp: escape_def list_all_iff)

lemma escape_Nil_iff [simp]: "escape s = [] \<longleftrightarrow> s = []"
  using escape_byte_chars by (cases s) (auto simp: escape_def)

subsection \<open>Every path built is a D-Bus object path\<close>

text \<open>
  The grammar of the D-Bus specification: \<open>/\<close> alone, or elements of
  \<open>[A-Z][a-z][0-9]_\<close>, none empty, each after a slash.
\<close>

fun path_elements :: "bool \<Rightarrow> string \<Rightarrow> bool" where
  "path_elements nonempty [] = nonempty"
| "path_elements nonempty (c # cs) =
     (if c = CHR ''/'' then nonempty \<and> path_elements False cs
      else path_char c \<and> path_elements True cs)"

definition valid_object_path :: "string \<Rightarrow> bool" where
  "valid_object_path p =
     (case p of [] \<Rightarrow> False
      | c # cs \<Rightarrow> c = CHR ''/'' \<and> (cs = [] \<or> path_elements False cs))"

lemma path_elements_append:
  "path_elements b xs \<Longrightarrow> path_elements True ys \<Longrightarrow> path_elements b (xs @ ys)"
  by (induction b xs rule: path_elements.induct) auto

lemma path_elements_chars: "xs \<noteq> [] \<Longrightarrow> list_all path_char xs \<Longrightarrow> path_elements b xs"
proof (induction xs arbitrary: b)
  case (Cons x xs)
  then have "x \<noteq> CHR ''/''" by (auto simp: path_char_def)
  with Cons show ?case by (cases xs) auto
qed simp

lemma path_elements_parts:
  "[] \<notin> set parts \<Longrightarrow> path_elements True (concat (map (\<lambda>p. ''/'' @ escape p) parts))"
proof (induction parts)
  case (Cons p parts)
  then have "path_elements False (escape p)"
    by (auto intro: path_elements_chars escape_chars)
  with Cons show ?case by (auto intro: path_elements_append)
qed simp

lemma path_elements_suffix: "path_elements b xs \<Longrightarrow> xs \<noteq> [] \<Longrightarrow> \<not> suffix ''/'' xs"
proof (induction b xs rule: path_elements.induct)
  case (2 b c cs)
  then show ?case by (cases cs) (auto simp: suffix_Cons split: if_splits)
qed simp

text \<open>
  C10: From a valid object path other than the root, and parts that are not empty, the
  path built is defined and is a valid object path, whatever bytes the parts hold.
\<close>

theorem build_object_path_valid:
  assumes "valid_object_path base" and "base \<noteq> ''/''" and "[] \<notin> set parts"
  shows "\<exists>p. build_object_path (Some base) parts = Some p \<and> valid_object_path p"
proof -
  from assms(1,2) obtain cs where base: "base = CHR ''/'' # cs" "cs \<noteq> []" "path_elements False cs"
    by (auto simp: valid_object_path_def split: list.splits)
  then have "\<not> suffix ''/'' base"
    using path_elements_suffix [of False cs] by (auto simp: suffix_Cons)
  moreover have "valid_object_path (base @ concat (map (\<lambda>p. ''/'' @ escape p) parts))"
    using base path_elements_append [OF base(3) path_elements_parts [OF assms(3)]]
    by (simp add: valid_object_path_def)
  ultimately show ?thesis by (simp add: build_object_path_Some)
qed

theorem build_object_path_valid_witness:
  "\<exists>p. build_object_path (Some ''/org/freedesktop/UDisks2/lvm'') [''vg-0'', ''root.1''] = Some p
     \<and> valid_object_path p"
  by (rule build_object_path_valid) (simp_all add: valid_object_path_def path_char_def)

subsection \<open>Different names, different paths\<close>

text \<open>
  Reading the escapes back. The underscore itself is not escaped, so this recovers a name only
  when it holds none.
\<close>

fun unescape :: "string \<Rightarrow> string" where
  "unescape [] = []"
| "unescape (c # cs) =
     (if c \<noteq> CHR ''_'' then c # unescape cs
      else if take 6 cs = ''ffffff''
      then char_of (radix_val 16 (take 2 (drop 6 cs))) # unescape (drop 8 cs)
      else char_of (radix_val 16 (take 2 cs)) # unescape (drop 2 cs))"

declare unescape.simps(2) [simp del]

lemma radix_val_hex2: "char_of (radix_val 16 (hex2 b)) = b"
proof -
  define n where "n = (of_char b :: nat)"
  have "n < 256" by (simp add: n_def)
  then have "radix_val 16 (hex2 b) = n"
    by (simp add: hex2_def radix_val_def digit_val_digit flip: n_def)
  then show ?thesis by (simp add: n_def)
qed

lemma hex2_ascii_head:
  assumes "of_char b < (128::nat)"
  shows "take 6 (hex2 b @ rest) \<noteq> ''ffffff''"
proof
  define n where "n = (of_char b :: nat)"
  assume "take 6 (hex2 b @ rest) = ''ffffff''"
  then have "digit (n div 16) = digit 15" by (simp add: hex2_def digit15 flip: n_def)
  moreover have "n div 16 < 16" "n div 16 < 8" using assms by (simp_all add: n_def)
  ultimately show False
    using digit_val_digit [of "n div 16"] digit_val_digit [of 15] by simp
qed

lemma length_hex2 [simp]: "length (hex2 b) = 2"
  by (simp add: hex2_def)

lemma unescape_low:
  assumes "of_char b < (128::nat)"
  shows "unescape (CHR ''_'' # hex2 b @ rest) = b # unescape rest"
  using hex2_ascii_head [OF assms, of rest]
  by (simp add: unescape.simps(2) radix_val_hex2)

lemma unescape_high: "unescape (''_ffffff'' @ hex2 b @ rest) = b # unescape rest"
proof -
  have "take 6 (''ffffff'' @ hex2 b @ rest) = ''ffffff''"
    and "drop 6 (''ffffff'' @ hex2 b @ rest) = hex2 b @ rest"
    and "drop 8 (''ffffff'' @ hex2 b @ rest) = rest"
    by (simp_all add: hex2_def)
  then show ?thesis by (simp add: unescape.simps(2) radix_val_hex2)
qed

lemma unescape_byte:
  "b \<noteq> CHR ''_'' \<Longrightarrow> unescape (escape_byte b @ rest) = b # unescape rest"
  using unescape_low [of b rest] unescape_high [of b rest]
  by (simp add: escape_byte_eq unescape.simps(2))

lemma unescape_escape: "CHR ''_'' \<notin> set s \<Longrightarrow> unescape (escape s) = s"
  by (induction s) (auto simp: escape_def unescape_byte)

text \<open>
  C34: Different names without underscores get different object paths below the same object:
  on those names the escaping loses nothing.
\<close>

theorem build_object_path_injective:
  assumes "\<not> has_suffix base ''/''" and "s \<noteq> t"
    and "CHR ''_'' \<notin> set s" and "CHR ''_'' \<notin> set t"
  shows "build_object_path (Some base) [s] \<noteq> build_object_path (Some base) [t]"
proof
  assume "build_object_path (Some base) [s] = build_object_path (Some base) [t]"
  with assms(1) have "escape s = escape t"
    by (simp add: build_object_path_Some string_tests)
  then have "unescape (escape s) = unescape (escape t)" by simp
  with assms(2-4) show False by (simp add: unescape_escape)
qed

theorem build_object_path_injective_witness:
  "build_object_path (Some ''/o'') [''vg-a''] \<noteq> build_object_path (Some ''/o'') [''vg.a'']"
  by (rule build_object_path_injective) (simp_all add: has_suffix_def)

text \<open>
  With an underscore the mapping does collide: LVM accepts both names, and the daemon
  would publish both volume groups at one path. A byte above 127 is not escaped as two
  hexadecimal digits, as the comment of \<open>safe_append_to_object_path\<close> says, but as the
  eight digits of its sign extension.
\<close>

theorem build_object_path_collides:
  "build_object_path (Some ''/org/freedesktop/UDisks2/lvm'') [''a-b''] =
   build_object_path (Some ''/org/freedesktop/UDisks2/lvm'') [''a_2db''] \<and>
   (\<forall>b. 128 \<le> (of_char b :: nat) \<longrightarrow>
     safe_append_to_object_path str [b] = str @ ''_ffffff'' @ hex2 b)"
proof -
  have "escape ''a-b'' = escape ''a_2db''" by code_simp
  then show ?thesis
    by (auto simp: build_object_path_Some safe_append_escape escape_def escape_byte_eq path_char_def)
qed

theorem build_object_path_collides_witness:
  "safe_append_to_object_path [] [char_of (233::nat)] = ''_ffffffe9''"
proof -
  have "digit 14 = CHR ''e''" and "digit 9 = CHR ''9''" by code_simp+
  then have "hex2 (char_of (233::nat)) = ''e9''" by (simp add: hex2_def)
  then show ?thesis
    using build_object_path_collides [of "[]"] by simp
qed

section \<open>Reserved names\<close>

definition lvm_name_is_reserved :: "string \<Rightarrow> bool" where
  "lvm_name_is_reserved name \<longleftrightarrow>
     strstr name ''_mlog'' \<or> strstr name ''_mimage'' \<or> strstr name ''_rimage'' \<or>
     strstr name ''_rmeta'' \<or> strstr name ''_tdata'' \<or> strstr name ''_tmeta'' \<or>
     strstr name ''_pmspare'' \<or> has_prefix name ''pvmove'' \<or> has_prefix name ''snapshot''"

lemma lvm_name_is_reserved_iff:
  "lvm_name_is_reserved name \<longleftrightarrow>
     (\<exists>part \<in> {''_mlog'', ''_mimage'', ''_rimage'', ''_rmeta'', ''_tdata'', ''_tmeta'', ''_pmspare''}.
        sublist part name) \<or> prefix ''pvmove'' name \<or> prefix ''snapshot'' name"
  by (simp add: lvm_name_is_reserved_def string_tests)

section \<open>The verdict on a command\<close>

text \<open>The signal numbers of Linux, in the order of the \<open>switch\<close>.\<close>

definition get_signal_name :: "nat \<Rightarrow> string" where
  "get_signal_name n =
     (case map_of
        [(1, ''SIGHUP''), (2, ''SIGINT''), (3, ''SIGQUIT''), (4, ''SIGILL''), (6, ''SIGABRT''),
         (8, ''SIGFPE''), (9, ''SIGKILL''), (11, ''SIGSEGV''), (13, ''SIGPIPE''),
         (14, ''SIGALRM''), (15, ''SIGTERM''), (10, ''SIGUSR1''), (12, ''SIGUSR2''),
         (17, ''SIGCHLD''), (18, ''SIGCONT''), (19, ''SIGSTOP''), (20, ''SIGTSTP''),
         (21, ''SIGTTIN''), (22, ''SIGTTOU''), (7, ''SIGBUS''), (29, ''SIGPOLL''),
         (27, ''SIGPROF''), (31, ''SIGSYS''), (5, ''SIGTRAP''), (23, ''SIGURG''),
         (26, ''SIGVTALRM''), (24, ''SIGXCPU''), (25, ''SIGXFSZ'')] n of
        Some s \<Rightarrow> s | None \<Rightarrow> ''UNKNOWN_SIGNAL'')"

text \<open>\<open>s && s[0]\<close>\<close>

definition nonempty :: "string option \<Rightarrow> bool" where
  "nonempty s \<longleftrightarrow> (\<exists>c cs. s = Some (c # cs))"

lemma nonempty_simps [simp, code]:
  "nonempty None = False" "nonempty (Some []) = False" "nonempty (Some (c # cs)) = True"
  by (simp_all add: nonempty_def)

definition status_prefix :: "string \<Rightarrow> u32 \<Rightarrow> string" where
  "status_prefix cmd status =
     (if WIFEXITED status
      then cmd @ '' exited with non-zero exit status '' @ dec (WEXITSTATUS status)
      else if WIFSIGNALED status
      then cmd @ '' was signaled with signal '' @ get_signal_name (WTERMSIG status) @
           '' ('' @ dec (WTERMSIG status) @ '')''
      else [])"

definition status_suffix :: "string option \<Rightarrow> string option \<Rightarrow> string" where
  "status_suffix out err =
     (if nonempty out \<and> nonempty err
      then CHR 0x0A # ''stdout: '' @ [CHR 0x27] @ the out @ [CHR 0x27] @
           [CHR 0x0A] @ ''stderr: '' @ [CHR 0x27] @ the err @ [CHR 0x27]
      else if nonempty out then '': '' @ the out
      else if nonempty err then '': '' @ the err
      else [])"

text \<open>\<open>None\<close> is \<open>TRUE\<close>; \<open>Some e\<close> is \<open>FALSE\<close> with the error set.\<close>

definition check_status_and_output ::
  "string \<Rightarrow> u32 \<Rightarrow> string option \<Rightarrow> string option \<Rightarrow> gerror option" where
  "check_status_and_output cmd status standard_out standard_error =
     (if WIFEXITED status \<and> WEXITSTATUS status = 0 then None
      else Some (udisks_error UDISKS_ERROR_FAILED
        (status_prefix cmd status @ status_suffix standard_out standard_error)))"

lemma check_status_None_iff: "check_status_and_output cmd st out err = None \<longleftrightarrow> exited_ok st"
  by (simp add: check_status_and_output_def exited_ok_def)

lemma check_status_SomeD:
  "check_status_and_output cmd st out err = Some e \<Longrightarrow>
     \<not> exited_ok st \<and> err_domain e = ''udisks-error-quark'' \<and> err_code e = UDISKS_ERROR_FAILED"
  by (auto simp: check_status_and_output_def exited_ok_def udisks_error_def split: if_splits)

lemma nonempty_Some [simp]: "nonempty (Some s) \<longleftrightarrow> s \<noteq> []"
  by (cases s) simp_all

lemma sublist_middle: "sublist xs (ps @ xs @ ss)"
  by (auto simp: sublist_def)

lemma status_suffix_complete:
  "sublist out (status_suffix (Some out) (Some err))" (is "sublist out ?s")
  "sublist err (status_suffix (Some out) (Some err))"
proof -
  let ?a = "CHR 0x0A # ''stdout: '' @ [CHR 0x27]"
  let ?b = "[CHR 0x27] @ [CHR 0x0A] @ ''stderr: '' @ [CHR 0x27]"
  have both: "?s = ?a @ out @ (?b @ err @ [CHR 0x27])" "?s = (?a @ out @ ?b) @ err @ [CHR 0x27]"
    if "out \<noteq> []" "err \<noteq> []"
    using that by (simp_all add: status_suffix_def)
  have one: "sublist s ('': '' @ s)" for s
    using sublist_middle [of s "'': ''" "[]"] by simp
  show "sublist out ?s"
  proof (cases "out = [] \<or> err = []")
    case True
    then show ?thesis using one [of out] by (auto simp: status_suffix_def)
  next
    case False
    then show ?thesis using both(1) sublist_middle by metis
  qed
  show "sublist err ?s"
  proof (cases "out = [] \<or> err = []")
    case True
    then show ?thesis using one [of err] by (auto simp: status_suffix_def)
  next
    case False
    then show ?thesis using both(2) sublist_middle by metis
  qed
qed

text \<open>
  A command is judged successful exactly when it exited by itself with status 0. Otherwise the
  error is \<open>UDISKS_ERROR_FAILED\<close>, its message begins with how the command ended (for
  an exit its number) and holds everything the command wrote.
\<close>

theorem check_status_verdict:
  "case check_status_and_output cmd st (Some out) (Some err) of
     None \<Rightarrow> WIFEXITED st \<and> WEXITSTATUS st = 0
   | Some e \<Rightarrow> \<not> (WIFEXITED st \<and> WEXITSTATUS st = 0) \<and>
       e = udisks_error UDISKS_ERROR_FAILED (err_message e) \<and>
       prefix (status_prefix cmd st) (err_message e) \<and>
       sublist out (err_message e) \<and> sublist err (err_message e)"
  using status_suffix_complete(1) [of out err] status_suffix_complete(2) [where out = out and err = err]
  by (auto simp: check_status_and_output_def udisks_error_def intro: sublist_order.order_trans)

section \<open>Wiping a block device\<close>

definition check_exit_status :: "os \<Rightarrow> u32 \<Rightarrow> gerror option" where
  "check_exit_status os status = (if exited_ok status then None else Some (spawn_exit_error os status))"

definition prefix_error :: "string \<Rightarrow> gerror \<Rightarrow> gerror" where
  "prefix_error s e = e\<lparr>err_message := s @ err_message e\<rparr>"

definition device_error :: "os \<Rightarrow> string \<Rightarrow> string \<Rightarrow> int \<Rightarrow> gerror" where
  "device_error os what device_file errno =
     udisks_error UDISKS_ERROR_FAILED (what @ device_file @ '': '' @ strerror os errno)"

definition wipe_argv :: "string \<Rightarrow> string list" where
  "wipe_argv device_file = [''wipefs'', ''-a'', device_file]"

definition pvscan_argv :: "string \<Rightarrow> string list" where
  "pvscan_argv device_file = [''pvscan'', ''--cache'', device_file]"

text \<open>
  The error (\<open>None\<close> for \<open>TRUE\<close>) and the trace with the calls made. What \<open>pvscan\<close>
  answers is only logged.
\<close>

definition wipe_block :: "os \<Rightarrow> string \<Rightarrow> systrace \<Rightarrow> gerror option \<times> systrace" where
  "wipe_block os device_file tr =
     (let (fd, errno) = sys_open os tr device_file [O_RDWR, O_EXCL];
          tr = tr @ [EvOpen device_file [O_RDWR, O_EXCL]] in
      if fd < 0 then (Some (device_error os ''Error opening device '' device_file errno), tr)
      else
        let (written, errno) = sys_write os tr fd 512; tr = tr @ [EvWriteZeroes fd 512] in
        if written \<noteq> 512
        then (Some (device_error os ''Error erasing device '' device_file errno), tr @ [EvClose fd])
        else
          let (r, errno) = sys_rrpart os tr fd; tr = tr @ [EvIoctlRrpart fd] in
          if r < 0 \<and> errno \<noteq> EINVAL
          then (Some (device_error os ''Error removing partition devices of '' device_file errno),
                tr @ [EvClose fd])
          else
            let tr = tr @ [EvClose fd] in
            case sys_spawn os tr (wipe_argv device_file) of
              Inl e \<Rightarrow> (Some e, tr @ [EvSpawn (wipe_argv device_file)])
            | Inr (out, err, status) \<Rightarrow>
                let tr = tr @ [EvSpawn (wipe_argv device_file)] in
                (case check_exit_status os status of
                   Some e \<Rightarrow>
                     (Some (prefix_error (''stdout: '' @ [CHR 0x27] @ out @ [CHR 0x27] @
                        '', stderr: '' @ [CHR 0x27] @ err @ [CHR 0x27] @ '', '') e), tr)
                 | None \<Rightarrow> (None, tr @ [EvSpawn (pvscan_argv device_file)])))"

text \<open>\<open>storage_util_trigger_udev\<close>: opening a device for writing and closing it makes udev look.\<close>

definition trigger_udev :: "os \<Rightarrow> string \<Rightarrow> systrace \<Rightarrow> systrace" where
  "trigger_udev os device_file tr =
     (let (fd, errno) = sys_open os tr device_file [O_RDWR];
          tr = tr @ [EvOpen device_file [O_RDWR]] in
      if 0 \<le> fd then tr @ [EvClose fd] else tr)"

text \<open>The calls of a wipe that succeeds.\<close>

definition wipe_script :: "string \<Rightarrow> fd \<Rightarrow> systrace" where
  "wipe_script device_file fd =
     [EvOpen device_file [O_RDWR, O_EXCL], EvWriteZeroes fd 512, EvIoctlRrpart fd, EvClose fd,
      EvSpawn (wipe_argv device_file), EvSpawn (pvscan_argv device_file)]"

fun closes :: "sysevent \<Rightarrow> bool" where
  "closes (EvClose fd) = True"
| "closes _ = False"

text \<open>The calls before the first program, the programs, and whether an error is returned.\<close>

definition wipe_runs :: "string \<Rightarrow> fd \<Rightarrow> (systrace \<times> string list list \<times> bool) list" where
  "wipe_runs dev fd =
     (let opened = EvOpen dev [O_RDWR, O_EXCL]; written = EvWriteZeroes fd 512;
          prepared = [opened, written, EvIoctlRrpart fd, EvClose fd] in
      if fd < 0 then [([opened], [], True)]
      else [([opened, written, EvClose fd], [], True), (prepared, [], True),
            (prepared, [wipe_argv dev], True), (prepared, [wipe_argv dev, pvscan_argv dev], False)])"

lemma wipe_block_runs:
  assumes "wipe_block os dev tr = (res, tr')" and "fd = fst (sys_open os tr dev [O_RDWR, O_EXCL])"
  obtains calls spawns where "tr' = tr @ calls @ map EvSpawn spawns"
    and "(calls, spawns, res \<noteq> None) \<in> set (wipe_runs dev fd)"
proof (cases "fd < 0")
  case True
  with assms that [of "[EvOpen dev [O_RDWR, O_EXCL]]" "[]"] show ?thesis
    by (auto simp: wipe_block_def wipe_runs_def split: prod.splits)
next
  case False
  let ?o = "EvOpen dev [O_RDWR, O_EXCL]" and ?w = "EvWriteZeroes fd 512"
  let ?d = "[?o, ?w, EvIoctlRrpart fd, EvClose fd]"
  from False assms that [of "[?o, ?w, EvClose fd]" "[]"] that [of ?d "[]"]
    that [of ?d "[wipe_argv dev]"] that [of ?d "[wipe_argv dev, pvscan_argv dev]"]
  show ?thesis
    by (auto simp: wipe_block_def wipe_runs_def Let_def split: prod.splits sum.splits option.splits if_splits)
qed

section \<open>What the kernel answered\<close>

text \<open>
  Whether a call went well, by what the kernel answers to it after the calls of the trace: the manual
  pages of the calls, and the status of a program that ran. This is the measure of success of the
  theorems; it does not mention the code.
\<close>

fun went_well :: "os \<Rightarrow> systrace \<Rightarrow> sysevent \<Rightarrow> bool" where
  "went_well os tr (EvOpen dev flags) \<longleftrightarrow> 0 \<le> fst (sys_open os tr dev flags)"
| "went_well os tr (EvWriteZeroes fd n) \<longleftrightarrow> fst (sys_write os tr fd n) = int n"
| "went_well os tr (EvIoctlRrpart fd) \<longleftrightarrow> 0 \<le> fst (sys_rrpart os tr fd) \<or> snd (sys_rrpart os tr fd) = EINVAL"
| "went_well os tr (EvSpawn argv) \<longleftrightarrow>
     (case sys_spawn os tr argv of Inl _ \<Rightarrow> False | Inr (_, _, status) \<Rightarrow> WIFEXITED status \<and> WEXITSTATUS status = 0)"
| "went_well os tr _ \<longleftrightarrow> True"

fun all_well :: "os \<Rightarrow> systrace \<Rightarrow> systrace \<Rightarrow> bool" where
  "all_well os tr [] \<longleftrightarrow> True"
| "all_well os tr (e # c) \<longleftrightarrow> went_well os tr e \<and> all_well os (tr @ [e]) c"

lemma all_well_append [simp]: "all_well os tr (c @ c') \<longleftrightarrow> all_well os tr c \<and> all_well os (tr @ c) c'"
  by (induction c arbitrary: tr) simp_all

text \<open>The calls that a wipe needs. What \<open>pvscan\<close> answers does not count.\<close>

definition wipe_calls :: "string \<Rightarrow> fd \<Rightarrow> systrace" where
  "wipe_calls dev fd =
     [EvOpen dev [O_RDWR, O_EXCL], EvWriteZeroes fd 512, EvIoctlRrpart fd, EvClose fd, EvSpawn [''wipefs'', ''-a'', dev]]"

lemma went_well_spawn:
  "went_well os tr (EvSpawn argv) \<longleftrightarrow>
     (\<exists>out err status. sys_spawn os tr argv = Inr (out, err, status) \<and> exited_ok status)"
  by (auto simp: exited_ok_def split: sum.split)

lemma wipe_block_answers:
  assumes "wipe_block os dev tr = (res, tr')"
    and c: "c = wipe_calls dev (fst (sys_open os tr dev [O_RDWR, O_EXCL]))"
  shows "res = None \<longleftrightarrow> all_well os tr c" and "res = None \<Longrightarrow> tr' = tr @ c @ [EvSpawn (pvscan_argv dev)]"
  using assms(1)
  by (auto simp: c wipe_block_def wipe_calls_def Let_def went_well_spawn check_exit_status_def wipe_argv_def
      simp del: went_well.simps(4) split: prod.splits sum.splits option.splits if_splits)

text \<open>
  C23: Wiping reports success exactly when the kernel lets every call of it go well: the exclusive open,
  the write of all 512 zeroes, the removal of the partition devices (or that there are none), and
  \<open>wipefs\<close>, which exits with status 0. Then the calls are these, in this order, and \<open>pvscan\<close>.
  Otherwise the calls are those up to the first that failed, and the descriptor is closed if it was open.
\<close>

theorem wipe_block_outcome:
  "case wipe_block os dev tr of (res, tr') \<Rightarrow>
     let fd = fst (sys_open os tr dev [O_RDWR, O_EXCL]); calls = wipe_calls dev fd in
     case res of
       None \<Rightarrow> all_well os tr calls \<and> tr' = tr @ calls @ [EvSpawn [''pvscan'', ''--cache'', dev]]
     | Some e \<Rightarrow>
         \<exists>good bad rest. calls = good @ bad # rest \<and> all_well os tr good \<and> \<not> went_well os (tr @ good) bad \<and>
           tr' = tr @ good @ bad # (if bad \<in> {EvWriteZeroes fd 512, EvIoctlRrpart fd} then [EvClose fd] else [])"
proof -
  obtain res tr' where w: "wipe_block os dev tr = (res, tr')" by fastforce
  define fd where "fd = fst (sys_open os tr dev [O_RDWR, O_EXCL])"
  let ?c = "wipe_calls dev fd"
  have stops: "\<exists>good bad rest. ?c = good @ bad # rest \<and> all_well os tr good \<and> \<not> went_well os (tr @ good) bad \<and>
      tr' = tr @ good @ bad # (if bad \<in> {EvWriteZeroes fd 512, EvIoctlRrpart fd} then [EvClose fd] else [])"
    if n: "n < length ?c" "all_well os tr (take n ?c)" "\<not> went_well os (tr @ take n ?c) (?c ! n)"
      "tr' = tr @ take n ?c @ ?c ! n # (if n \<in> {1, 2} then [EvClose fd] else [])" for n
  proof (intro exI conjI)
    show "?c = take n ?c @ ?c ! n # drop (Suc n) ?c" using n(1) by (rule id_take_nth_drop)
    have "?c ! n \<in> {EvWriteZeroes fd 512, EvIoctlRrpart fd} \<longleftrightarrow> n \<in> {1, 2}"
      using n(1) by (auto simp: wipe_calls_def nth_Cons split: nat.splits)
    then show "tr' = tr @ take n ?c @ ?c ! n # (if ?c ! n \<in> {EvWriteZeroes fd 512, EvIoctlRrpart fd} then [EvClose fd] else [])"
      using n(4) by simp
  qed (use n in blast)+
  show ?thesis
  proof (cases res)
    case None
    with w wipe_block_answers [OF w refl] show ?thesis by (simp add: fd_def pvscan_argv_def Let_def)
  next
    case (Some e)
    consider "fd < 0" | "0 \<le> fd" "fst (sys_write os (tr @ take 1 ?c) fd 512) \<noteq> 512"
      | "0 \<le> fd" "fst (sys_write os (tr @ take 1 ?c) fd 512) = 512" "\<not> went_well os (tr @ take 2 ?c) (EvIoctlRrpart fd)"
      | "0 \<le> fd" "fst (sys_write os (tr @ take 1 ?c) fd 512) = 512" "went_well os (tr @ take 2 ?c) (EvIoctlRrpart fd)"
      by linarith
    then have "\<exists>n < length ?c. all_well os tr (take n ?c) \<and> \<not> went_well os (tr @ take n ?c) (?c ! n) \<and>
        tr' = tr @ take n ?c @ ?c ! n # (if n \<in> {1, 2} then [EvClose fd] else [])"
    proof cases
      case 1
      then show ?thesis using w by (intro exI [of _ 0]) (auto simp: wipe_block_def wipe_calls_def fd_def split: prod.splits)
    next
      case 2
      then show ?thesis using w
        by (intro exI [of _ 1]) (auto simp: wipe_block_def wipe_calls_def fd_def Let_def split: prod.splits)
    next
      case 3
      then show ?thesis using w
        by (intro exI [of _ 2]) (auto simp: wipe_block_def wipe_calls_def fd_def Let_def split: prod.splits)
    next
      case 4
      then show ?thesis using w Some
        by (intro exI [of _ 4])
          (auto simp: wipe_block_def wipe_calls_def wipe_argv_def check_exit_status_def exited_ok_def fd_def Let_def
            split: prod.splits sum.splits if_splits)
    qed
    then show ?thesis unfolding w prod.case Let_def fd_def [symmetric] Some option.case using stops by blast
  qed
qed

end
