(* ===== verification/Object_Server.thy ===== *)
theory Object_Server
  imports GLib_Types
begin

text \<open>
  The objects the daemon exports on the bus: \<open>storage_daemon_publish\<close>,
  \<open>storage_daemon_unpublish\<close>, \<open>storage_daemon_find_thing\<close> and
  \<open>storage_daemon_get_jobs\<close> of \<open>src/daemon.c\<close> over GLib's
  \<open>GDBusObjectManagerServer\<close>, which is a table from object paths to the interfaces
  exported there.
\<close>

section \<open>Things\<close>

text \<open>
  The types of the GObjects that are published or passed as a \<open>gpointer thing\<close>. A
  \<open>StorageBlock\<close> is not a D-Bus interface. A thing is an instance: its number stands for
  its address, so that equality of things is identity of objects.
\<close>

datatype gtype =
    StorageManager | StorageVolumeGroup | StorageLogicalVolume
  | LvmLogicalVolumeBlockSkeleton | StoragePhysicalVolume
  | StorageSpawnedJob | StorageThreadedJob | StorageBlock

datatype thing = Thing (thing_id: nat) (thing_type: gtype)

text \<open>\<open>G_IS_DBUS_INTERFACE\<close> and the name in the interface's info.\<close>

definition is_dbus_interface :: "thing \<Rightarrow> bool" where
  "is_dbus_interface t \<longleftrightarrow> thing_type t \<noteq> StorageBlock"

fun type_iface_name :: "gtype \<Rightarrow> string" where
  "type_iface_name StorageManager = ''com.redhat.lvm2.Manager''"
| "type_iface_name StorageVolumeGroup = ''com.redhat.lvm2.VolumeGroup''"
| "type_iface_name StorageLogicalVolume = ''com.redhat.lvm2.LogicalVolume''"
| "type_iface_name LvmLogicalVolumeBlockSkeleton = ''com.redhat.lvm2.LogicalVolumeBlock''"
| "type_iface_name StoragePhysicalVolume = ''com.redhat.lvm2.PhysicalVolumeBlock''"
| "type_iface_name StorageSpawnedJob = ''org.freedesktop.UDisks2.Job''"
| "type_iface_name StorageThreadedJob = ''org.freedesktop.UDisks2.Job''"
| "type_iface_name StorageBlock = []"

abbreviation iface_name :: "thing \<Rightarrow> string" where
  "iface_name t \<equiv> type_iface_name (thing_type t)"

section \<open>The object manager\<close>

text \<open>The signals of the daemon object, with the path a thing was published at.\<close>

datatype daemon_signal = Published thing string | Finished

record server =
  objects :: "thing list htab"
  emitted :: "daemon_signal list"

text \<open>
  \<open>g_dbus_object_skeleton_add_interface\<close>: an interface of the same name is removed first.
\<close>

definition add_interface :: "thing list \<Rightarrow> thing \<Rightarrow> thing list" where
  "add_interface ifs t = filter (\<lambda>i. iface_name i \<noteq> iface_name t) ifs @ [t]"

text \<open>
  \<open>g_dbus_object_manager_server_export_uniquely\<close> appends the first of \<open>_1\<close>,
  \<open>_2\<close>, \<open>\<dots>\<close> that makes the path free.
\<close>

definition unique_path :: "thing list htab \<Rightarrow> string \<Rightarrow> string" where
  "unique_path om p =
     (if ht_lookup om p = None then p
      else case find (\<lambda>q. ht_lookup om q = None) (map (\<lambda>n. p @ ''_'' @ dec n) [1..<Suc (Suc (length om))]) of
             Some q \<Rightarrow> q | None \<Rightarrow> p)"

definition interfaces_at :: "'a server_scheme \<Rightarrow> string \<Rightarrow> thing set" where
  "interfaces_at self p = (case ht_lookup (objects self) p of None \<Rightarrow> {} | Some ifs \<Rightarrow> set ifs)"

text \<open>The object path of an interface: where it is exported, \<open>NULL\<close> when nowhere.\<close>

definition path_of :: "'a server_scheme \<Rightarrow> thing \<Rightarrow> string option" where
  "path_of self t = map_option fst (find (\<lambda>(p, ifs). t \<in> set ifs) (objects self))"

definition publish :: "'a server_scheme \<Rightarrow> string option \<Rightarrow> bool \<Rightarrow> thing \<Rightarrow> 'a server_scheme" where
  "publish self path uniquely t =
     (case path of
        None \<Rightarrow> self
      | Some p \<Rightarrow>
          if is_dbus_interface t then
            let obj = ht_lookup (objects self) p;
                obj = (case obj of
                         None \<Rightarrow> None
                       | Some ifs \<Rightarrow>
                           if uniquely \<and> (\<exists>i \<in> set ifs. iface_name i = iface_name t) then None
                           else Some ifs);
                ifs = add_interface (case obj of None \<Rightarrow> [] | Some ifs \<Rightarrow> ifs) t;
                om = (case obj of None \<Rightarrow> objects self | Some _ \<Rightarrow> ht_insert (objects self) p ifs);
                q = (if uniquely then unique_path om p else p)
            in self\<lparr>objects := ht_insert om q ifs, emitted := emitted self @ [Published t q]\<rparr>
          else self)"

definition unpublish :: "'a server_scheme \<Rightarrow> string option \<Rightarrow> thing option \<Rightarrow> 'a server_scheme" where
  "unpublish self path thing =
     (case path of
        None \<Rightarrow> self
      | Some p \<Rightarrow>
          (case ht_lookup (objects self) p of
             None \<Rightarrow> self
           | Some ifs \<Rightarrow>
               (case thing of
                  None \<Rightarrow> self\<lparr>objects := ht_remove (objects self) p\<rparr>
                | Some t \<Rightarrow>
                    if is_dbus_interface t then
                      if \<forall>i \<in> set ifs. i = t
                      then self\<lparr>objects := ht_remove (objects self) p\<rparr>
                      else self\<lparr>objects := ht_insert (objects self) p (filter (\<lambda>i. i \<noteq> t) ifs)\<rparr>
                    else self)))"

text \<open>
  \<open>storage_daemon_find_thing\<close>: the object itself when no type is asked for (no type of
  \<open>gtype\<close> is a type of objects), otherwise the first interface of the type.
\<close>

datatype found = FoundNothing | FoundObject string | FoundThing thing

definition find_thing :: "'a server_scheme \<Rightarrow> string \<Rightarrow> gtype option \<Rightarrow> found" where
  "find_thing self path type_of_thing =
     (case ht_lookup (objects self) path of
        None \<Rightarrow> FoundNothing
      | Some ifs \<Rightarrow>
          (case type_of_thing of
             None \<Rightarrow> FoundObject path
           | Some ty \<Rightarrow>
               (case find (\<lambda>i. thing_type i = ty) ifs of
                  None \<Rightarrow> FoundNothing | Some t \<Rightarrow> FoundThing t)))"

text \<open>\<open>storage_daemon_get_jobs\<close>: the list is built by prepending.\<close>

fun get_jobs_from :: "thing list htab \<Rightarrow> thing list \<Rightarrow> thing list" where
  "get_jobs_from [] jobs = jobs"
| "get_jobs_from ((p, ifs) # om) jobs =
     get_jobs_from om
       (case find (\<lambda>i. iface_name i = ''org.freedesktop.UDisks2.Job'') ifs of
          None \<Rightarrow> jobs | Some job \<Rightarrow> job # jobs)"

definition get_jobs :: "'a server_scheme \<Rightarrow> thing list" where
  "get_jobs self = get_jobs_from (objects self) []"

section \<open>What publishing and unpublishing do\<close>

lemma interfaces_at_publish:
  "is_dbus_interface t \<Longrightarrow>
   interfaces_at (publish self (Some p) False t) q =
     (if q = p then insert t {i \<in> interfaces_at self p. iface_name i \<noteq> iface_name t}
      else interfaces_at self q)"
  by (auto simp: publish_def interfaces_at_def add_interface_def Let_def ht.lookup_ins split: option.splits)

lemma interfaces_at_unpublish:
  "is_dbus_interface t \<Longrightarrow>
   interfaces_at (unpublish self (Some p) (Some t)) q =
     (if q = p then interfaces_at self p - {t} else interfaces_at self q)"
  by (auto simp: unpublish_def interfaces_at_def ht.lookup_ins ht.lookup_rem split: option.splits)

lemma lookup_publish_other:
  "is_dbus_interface t \<Longrightarrow> q \<noteq> p \<Longrightarrow>
   ht_lookup (objects (publish self (Some p) False t)) q = ht_lookup (objects self) q"
  by (cases "ht_lookup (objects self) p") (simp_all add: publish_def Let_def ht.lookup_ins)

lemma ht_wf_publish:
  "is_dbus_interface t \<Longrightarrow> ht_wf (objects self) \<Longrightarrow> ht_wf (objects (publish self (Some p) False t))"
  by (cases "ht_lookup (objects self) p") (simp_all add: publish_def Let_def ht.invar_ins)

lemma ht_wf_unpublish: "ht_wf (objects self) \<Longrightarrow> ht_wf (objects (unpublish self path x))"
  by (auto simp: unpublish_def intro: ht.invar_ins ht.invar_rem split: option.splits)

lemma publish_None [simp]: "publish self None u t = self"
  and unpublish_None [simp]: "unpublish self None x = self"
  by (simp_all add: publish_def unpublish_def)

lemma emitted_unpublish [simp]: "emitted (unpublish self path x) = emitted self"
  by (auto simp: unpublish_def split: option.splits)

lemma emitted_publish:
  "is_dbus_interface t \<Longrightarrow>
   emitted (publish self (Some p) False t) = emitted self @ [Published t p]"
  by (simp add: publish_def Let_def)

lemma server_frame [simp]:
  "server.more (publish self path u t) = server.more self"
  "server.more (unpublish self path x) = server.more self"
  by (auto simp: publish_def unpublish_def Let_def split: option.splits)

text \<open>
  The contract the components use: what is exported at each path after publishing and
  unpublishing, with nothing said about how.
\<close>

locale publisher =
  fixes pub :: "'s \<Rightarrow> string \<Rightarrow> thing \<Rightarrow> 's"
    and unpub :: "'s \<Rightarrow> string \<Rightarrow> thing \<Rightarrow> 's"
    and ifs_at :: "'s \<Rightarrow> string \<Rightarrow> thing set"
  assumes at_pub: "is_dbus_interface t \<Longrightarrow>
      ifs_at (pub s p t) q =
        (if q = p then insert t {i \<in> ifs_at s p. iface_name i \<noteq> iface_name t} else ifs_at s q)"
    and at_unpub: "is_dbus_interface t \<Longrightarrow>
      ifs_at (unpub s p t) q = (if q = p then ifs_at s p - {t} else ifs_at s q)"
begin

lemma pub_unpub:
  assumes "is_dbus_interface t" and "\<forall>i \<in> ifs_at s p. iface_name i \<noteq> iface_name t"
  shows "ifs_at (unpub (pub s p t) p t) q = ifs_at s q"
  using assms by (auto simp: at_pub at_unpub)

lemma at_fold_unpub:
  assumes "\<forall>(p, t) \<in> set l. is_dbus_interface t"
  shows "ifs_at (fold (\<lambda>(p, t) s. unpub s p t) l s) q = ifs_at s q - {t. (q, t) \<in> set l}"
  using assms by (induction l arbitrary: s) (auto simp: at_unpub split: prod.splits if_splits)

lemma at_fold_pub:
  assumes "\<forall>(p, t) \<in> set l. is_dbus_interface t" and "distinct (map fst l)"
  shows "ifs_at (fold (\<lambda>(p, t) s. pub s p t) l s) q =
    (case map_of l q of
       None \<Rightarrow> ifs_at s q
     | Some t \<Rightarrow> insert t {i \<in> ifs_at s q. iface_name i \<noteq> iface_name t})"
  using assms
proof (induction l arbitrary: s)
  case (Cons x l)
  obtain p t where x: "x = (p, t)" by (cases x)
  with Cons.prems have "map_of l p = None" by (auto simp: map_of_eq_None_iff)
  with Cons x show ?case by (auto simp: at_pub split: option.splits)
qed simp

end

interpretation om: publisher
  "\<lambda>s p t. publish s (Some p) False t" "\<lambda>s p t. unpublish s (Some p) (Some t)" interfaces_at
  by unfold_locales (simp_all add: interfaces_at_publish interfaces_at_unpublish)

section \<open>The invariant of the object manager\<close>

text \<open>
  No object is exported without an interface, no two interfaces of an object have the same
  name, and only D-Bus interfaces are exported.
\<close>

definition object_ok :: "thing list \<Rightarrow> bool" where
  "object_ok ifs \<longleftrightarrow>
     ifs \<noteq> [] \<and> distinct (map iface_name ifs) \<and> (\<forall>i \<in> set ifs. is_dbus_interface i)"

definition server_ok :: "'a server_scheme \<Rightarrow> bool" where
  "server_ok self \<longleftrightarrow>
     ht_wf (objects self) \<and>
     (\<forall>p ifs. ht_lookup (objects self) p = Some ifs \<longrightarrow> object_ok ifs)"

lemma server_okD: "server_ok self \<Longrightarrow> ht_lookup (objects self) p = Some ifs \<Longrightarrow> object_ok ifs"
  by (simp add: server_ok_def)

lemma object_ok_add:
  assumes "is_dbus_interface t" and "ifs = [] \<or> object_ok ifs"
  shows "object_ok (add_interface ifs t)"
proof -
  have "distinct (map iface_name (filter P ifs))" for P
    using assms(2) by (auto simp: object_ok_def distinct_map_filter)
  then show ?thesis
    using assms by (auto simp: object_ok_def add_interface_def)
qed

lemma object_ok_filter:
  "object_ok ifs \<Longrightarrow> \<not> (\<forall>i \<in> set ifs. i = t) \<Longrightarrow> object_ok (filter (\<lambda>i. i \<noteq> t) ifs)"
  by (auto simp: object_ok_def distinct_map_filter filter_empty_conv)

lemma server_ok_insert:
  "ht_wf om \<Longrightarrow> \<forall>p ifs. ht_lookup om p = Some ifs \<longrightarrow> object_ok ifs \<Longrightarrow> object_ok ifs \<Longrightarrow>
   ht_wf (ht_insert om p ifs) \<and>
   (\<forall>q js. ht_lookup (ht_insert om p ifs) q = Some js \<longrightarrow> object_ok js)"
  by (auto simp: ht.lookup_ins intro: ht.invar_ins split: if_splits)

lemma server_ok_publish:
  assumes "server_ok self"
  shows "server_ok (publish self path u t)"
proof (cases "path = None \<or> \<not> is_dbus_interface t")
  case True
  then have "publish self path u t = self" by (cases path) (simp_all add: publish_def)
  with assms show ?thesis by simp
next
  case False
  then obtain p where p: "path = Some p" and t: "is_dbus_interface t" by auto
  define obj where "obj =
    (case ht_lookup (objects self) p of
       None \<Rightarrow> None
     | Some ifs \<Rightarrow> if u \<and> (\<exists>i \<in> set ifs. iface_name i = iface_name t) then None else Some ifs)"
  define ifs where "ifs = add_interface (case obj of None \<Rightarrow> [] | Some ifs \<Rightarrow> ifs) t"
  define om where "om = (case obj of None \<Rightarrow> objects self | Some _ \<Rightarrow> ht_insert (objects self) p ifs)"
  have "\<And>js. obj = Some js \<Longrightarrow> object_ok js"
    using server_okD [OF assms] by (auto simp: obj_def split: option.splits if_splits)
  then have ok: "object_ok ifs"
    unfolding ifs_def by (intro object_ok_add t) (auto split: option.splits)
  then have "ht_wf om \<and> (\<forall>q js. ht_lookup om q = Some js \<longrightarrow> object_ok js)"
    using assms server_ok_insert [of "objects self" ifs p]
    by (auto simp: om_def server_ok_def split: option.splits)
  with ok have "ht_wf (ht_insert om q ifs) \<and>
      (\<forall>r js. ht_lookup (ht_insert om q ifs) r = Some js \<longrightarrow> object_ok js)" for q
    using server_ok_insert [of om ifs q] by blast
  moreover have "publish self path u t =
      self\<lparr>objects := ht_insert om (if u then unique_path om p else p) ifs,
           emitted := emitted self @ [Published t (if u then unique_path om p else p)]\<rparr>"
    by (simp only: publish_def p t Let_def obj_def ifs_def om_def option.case if_True)
  ultimately show ?thesis by (simp add: server_ok_def)
qed

lemma server_ok_unpublish:
  assumes "server_ok self"
  shows "server_ok (unpublish self path x)"
  using assms
  by (auto simp: unpublish_def server_ok_def ht.lookup_ins ht.lookup_rem
      intro: ht.invar_ins ht.invar_rem object_ok_filter split: option.splits if_splits)

text \<open>The operations as events of a machine, and the interpretation of its contract.\<close>

datatype server_op =
    Publish "string option" bool thing
  | Unpublish "string option" "thing option"

fun server_step :: "server \<Rightarrow> server_op \<Rightarrow> unit + server" where
  "server_step self (Publish path u t) = Inr (publish self path u t)"
| "server_step self (Unpublish path x) = Inr (unpublish self path x)"

interpretation sv: safe_machine server_step server_ok
proof
  show "server_ok s'" if "server_ok s" and "server_step s e = Inr s'" for s e s'
    using that by (cases e) (auto intro: server_ok_publish server_ok_unpublish)
  show "\<exists>s'. server_step s e = Inr s'" for s e
    by (cases e) auto
qed

section \<open>Unique paths\<close>

lemma unique_path_fresh: "ht_lookup om (unique_path om p) = None"
proof (cases "ht_lookup om p")
  case None
  then show ?thesis by (simp add: unique_path_def)
next
  case (Some ifs)
  let ?cand = "map (\<lambda>n. p @ ''_'' @ dec n) [1..<Suc (Suc (length om))]"
  have "distinct ?cand" by (auto simp: distinct_map inj_on_def simp del: upt_Suc)
  then have "card (set ?cand) = Suc (length om)"
    using distinct_card [of ?cand] by (simp only: length_map length_upt)
  moreover have "card (fst ` set om) \<le> length om"
    by (metis card_length length_map list.set_map)
  ultimately have "card (fst ` set om) < card (set ?cand)" by linarith
  then have "\<not> set ?cand \<subseteq> fst ` set om"
    using card_mono [of "fst ` set om" "set ?cand"] by (meson List.finite_set finite_imageI not_le)
  then obtain q where q: "q \<in> set ?cand" "q \<notin> fst ` set om" by blast
  then have none: "ht_lookup om q = None" by (simp add: ht_lookup_def map_of_eq_None_iff)
  have "\<not> (\<nexists>x. x \<in> set ?cand \<and> ht_lookup om x = None)"
    using q(1) none by blast
  then have "find (\<lambda>q. ht_lookup om q = None) ?cand \<noteq> None"
    unfolding find_None_iff .
  then obtain r where r: "find (\<lambda>q. ht_lookup om q = None) ?cand = Some r" by blast
  then have "ht_lookup om r = None" by (auto simp: find_Some_iff)
  with Some r show ?thesis by (simp add: unique_path_def del: upt_Suc)
qed

text \<open>Publishing uniquely displaces nothing that was exported.\<close>

lemma interfaces_at_fresh:
  "ht_lookup om r = None \<Longrightarrow>
   interfaces_at (self\<lparr>objects := om\<rparr>) q \<subseteq>
   interfaces_at (self\<lparr>objects := ht_insert om r ifs, emitted := l\<rparr>) q"
  by (auto simp: interfaces_at_def ht.lookup_ins split: option.splits)

lemma publish_uniquely_keeps:
  assumes t: "is_dbus_interface t"
  shows "interfaces_at self q \<subseteq> interfaces_at (publish self (Some p) True t) q"
proof (cases "ht_lookup (objects self) p")
  case None
  then show ?thesis
    using t interfaces_at_fresh [of "objects self" p self q]
    by (simp add: publish_def Let_def unique_path_def)
next
  case (Some js)
  show ?thesis
  proof (cases "\<exists>i \<in> set js. iface_name i = iface_name t")
    case True
    with Some t show ?thesis
      using interfaces_at_fresh [OF unique_path_fresh, where om = "objects self" and self = self]
      by (simp add: publish_def Let_def)
  next
    case False
    define om where "om = ht_insert (objects self) p (add_interface js t)"
    have "interfaces_at self q \<subseteq> interfaces_at (self\<lparr>objects := om\<rparr>) q"
      using Some False
      by (auto simp: om_def interfaces_at_def ht.lookup_ins add_interface_def)
    moreover have "publish self (Some p) True t =
        self\<lparr>objects := ht_insert om (unique_path om p) (add_interface js t),
             emitted := emitted self @ [Published t (unique_path om p)]\<rparr>"
      using Some False t by (simp add: publish_def Let_def om_def)
    ultimately show ?thesis
      using interfaces_at_fresh [OF unique_path_fresh, where om = om and self = self]
      by (simp only:) (erule order_trans, simp)
  qed
qed

section \<open>Properties\<close>

text \<open>
  Whatever sequence of publish and unpublish calls the components make, from an empty
  object manager, with or without a path, uniquely or not, every exported object has at least
  one interface, at most one interface of a name, and only interfaces that can be on the bus.
\<close>

theorem object_manager_stays_ok:
  "\<exists>s. run_steps server_step \<lparr>objects = [], emitted = []\<rparr> ops = Inr s \<and> server_ok s"
  by (rule sv.run_total) (simp add: server_ok_def ht_wf_def ht_lookup_def)

text \<open>
  Publishing a thing at a path where no interface of its name is exported and unpublishing
  it again leaves what is exported at every path as it was.
\<close>

theorem publish_then_unpublish:
  assumes "is_dbus_interface t" and "\<forall>i \<in> interfaces_at self p. iface_name i \<noteq> iface_name t"
  shows "interfaces_at (unpublish (publish self (Some p) False t) (Some p) (Some t)) q =
    interfaces_at self q"
  using assms by (rule om.pub_unpub)

lemma publish_then_unpublish_witness:
  "interfaces_at
     (unpublish
       (publish \<lparr>objects = [(''/b'', [Thing 1 StoragePhysicalVolume])], emitted = []\<rparr>
          (Some ''/b'') False (Thing 2 LvmLogicalVolumeBlockSkeleton))
       (Some ''/b'') (Some (Thing 2 LvmLogicalVolumeBlockSkeleton))) ''/b'' =
   {Thing 1 StoragePhysicalVolume}"
  by (subst publish_then_unpublish)
    (auto simp: is_dbus_interface_def interfaces_at_def ht_lookup_def)

end
