(* ===== verification/Jobs.thy ===== *)
theory Jobs
  imports Object_Server
begin

text \<open>
  The base class of the jobs, \<open>src/job.c\<close>: the objects a job is about, cancellation, and
  the estimate of the end time from the last hundred progress reports. The properties of the
  generated \<open>UDisksJob\<close> skeleton that the code writes are fields of the record.
\<close>

section \<open>State\<close>

text \<open>\<open>Sample\<close>: the time of a report in microseconds and the progress then.\<close>

record sample =
  time_usec :: int
  sample_value :: gdouble

definition MAX_SAMPLES :: nat where
  "MAX_SAMPLES = 100"

text \<open>
  \<open>samples\<close> is \<open>None\<close> before it is allocated, and its length is \<open>num_samples\<close>. The rate
  and the end time come from conversions of a double, which C leaves undefined out of range:
  \<open>None\<close>. \<open>handler_connected\<close> is \<open>notify_progress_signal_handler_id != 0\<close>.
\<close>

record job =
  job_objects :: "string list"
  cancelable :: bool
  operation :: string
  started_by_uid :: u32
  cancelled :: bool
  progress :: gdouble
  progress_valid :: bool
  job_bytes :: u64
  rate :: "u64 option"
  expected_end_time :: "int option"
  auto_estimate :: bool
  handler_connected :: bool
  samples :: "sample list option"

text \<open>A job as \<open>storage_job_init\<close> and the skeleton's defaults leave it.\<close>

definition job_new :: job where
  "job_new = \<lparr>job_objects = [], cancelable = False, operation = [], started_by_uid = 0,
     cancelled = False, progress = Fin 0, progress_valid = False, job_bytes = 0, rate = Some 0,
     expected_end_time = Some 0, auto_estimate = False, handler_connected = False,
     samples = None\<rparr>"

section \<open>The objects of a job\<close>

text \<open>
  The string array that the property is set to: a new array with zero pointers up to the
  index where the search ended and the path there, read up to its first \<open>NULL\<close>.
\<close>

fun strv :: "string option list \<Rightarrow> string list" where
  "strv [] = []"
| "strv (None # _) = []"
| "strv (Some s # ss) = s # strv ss"

text \<open>
  \<open>get_path\<close> is the object path of an interface (\<open>path_of\<close>) or of a block, which may be
  \<open>NULL\<close> for an interface that is not exported.
\<close>

definition storage_job_add_thing ::
  "(thing \<Rightarrow> string option) \<Rightarrow> 'a job_scheme \<Rightarrow> thing option \<Rightarrow> 'a job_scheme" where
  "storage_job_add_thing get_path self thing =
     (case thing of
        None \<Rightarrow> self
      | Some t \<Rightarrow>
          let object_path = get_path t; paths = job_objects self
          in if \<exists>p \<in> set paths. strcmp0_eq (Some p) object_path then self
             else self\<lparr>job_objects := strv (replicate (length paths) None @ [object_path])\<rparr>)"

section \<open>Cancellation\<close>

definition handle_cancel :: "'a job_scheme \<Rightarrow> 'a job_scheme \<times> reply" where
  "handle_cancel self =
     (if \<not> cancelable self then
        (self, ReturnError (udisks_error UDISKS_ERROR_FAILED ''The job cannot be canceled''))
      else if cancelled self then
        (self, ReturnError (udisks_error UDISKS_ERROR_ALREADY_CANCELLED
           ''The job has already been cancelled''))
      else (self\<lparr>cancelled := True\<rparr>, Return []))"

section \<open>The estimate of the end time\<close>

fun speeds :: "sample list \<Rightarrow> gdouble list" where
  "speeds (a # b # s) =
     d_div (d_sub (sample_value b) (sample_value a)) (Fin (of_int (time_usec b - time_usec a)))
     # speeds (b # s)"
| "speeds _ = []"

definition avg_speed :: "sample list \<Rightarrow> gdouble" where
  "avg_speed s =
     (let sp = speeds s in d_div (fold (\<lambda>x sum. d_add sum x) sp (Fin 0)) (Fin (of_nat (length sp))))"

definition add_sample :: "sample list \<Rightarrow> sample \<Rightarrow> sample list" where
  "add_sample s x = (if length s = MAX_SAMPLES then tl s else s) @ [x]"

text \<open>Signed overflow is undefined.\<close>

definition add_int64 :: "int \<Rightarrow> int \<Rightarrow> int option" where
  "add_int64 a b = (if - (2 ^ 63) \<le> a + b \<and> a + b < 2 ^ 63 then Some (a + b) else None)"

definition on_notify_progress :: "'a job_scheme \<Rightarrow> int \<Rightarrow> abort + 'a job_scheme" where
  "on_notify_progress self now =
     (case samples self of
        None \<Rightarrow> Inl (NullDereference ''self->priv->samples'')
      | Some s \<Rightarrow>
          let s = add_sample s \<lparr>time_usec = now, sample_value = progress self\<rparr>;
              self = self\<lparr>samples := Some s\<rparr>
          in if length s < 5 then Inr self
             else
               let v = avg_speed s;
                   r = (if 0 < job_bytes self
                        then d_to_uint64 (d_mul (d_mul (Fin (of_nat (unat (job_bytes self)))) v)
                               (Fin 1000000))
                        else Some 0);
                   usec_remaining = d_to_int64 (d_div (d_sub (Fin 1) (progress self)) v)
               in Inr (self\<lparr>rate := r,
                            expected_end_time := Option.bind usec_remaining (add_int64 now)\<rparr>))"

definition storage_job_set_auto_estimate :: "'a job_scheme \<Rightarrow> bool \<Rightarrow> abort + 'a job_scheme" where
  "storage_job_set_auto_estimate self value =
     (if value = auto_estimate self then Inr self
      else if value then
        let self = (if samples self = None then self\<lparr>samples := Some []\<rparr> else self)
        in if handler_connected self
           then Inl (AssertFailed ''notify_progress_signal_handler_id == 0'')
           else Inr (self\<lparr>handler_connected := True, auto_estimate := True\<rparr>)
      else if \<not> handler_connected self
        then Inl (AssertFailed ''notify_progress_signal_handler_id != 0'')
        else Inr (self\<lparr>handler_connected := False, auto_estimate := False\<rparr>))"

section \<open>A job as a machine\<close>

text \<open>
  What happens to a job: its progress property is set at a time (the handler runs if it is
  connected), the estimate is switched, it is cancelled, a thing is added.
\<close>

datatype job_event =
    Progress int gdouble | AutoEstimate bool | Cancel | AddThing "thing option"

fun job_step :: "(thing \<Rightarrow> string option) \<Rightarrow> job \<Rightarrow> job_event \<Rightarrow> abort + job" where
  "job_step get_path self (Progress now p) =
     (let self = self\<lparr>progress := p\<rparr>
      in if handler_connected self then on_notify_progress self now else Inr self)"
| "job_step get_path self (AutoEstimate b) = storage_job_set_auto_estimate self b"
| "job_step get_path self Cancel = Inr (fst (handle_cancel self))"
| "job_step get_path self (AddThing t) = Inr (storage_job_add_thing get_path self t)"

fun_cases job_step_cases: "job_step get_path self e = Inr self'"

text \<open>
  The handler is connected exactly while estimates are asked for, the samples are allocated
  then and never more than a hundred, and a job never lists two objects.
\<close>

definition job_ok :: "job \<Rightarrow> bool" where
  "job_ok self \<longleftrightarrow>
     (handler_connected self \<longleftrightarrow> auto_estimate self) \<and>
     (auto_estimate self \<longrightarrow> samples self \<noteq> None) \<and>
     (case samples self of None \<Rightarrow> True | Some s \<Rightarrow> length s \<le> MAX_SAMPLES) \<and>
     length (job_objects self) \<le> 1"

lemma length_add_sample: "length s \<le> MAX_SAMPLES \<Longrightarrow> length (add_sample s x) \<le> MAX_SAMPLES"
  by (auto simp: add_sample_def MAX_SAMPLES_def)

lemma strv_replicate: "strv (replicate n None @ xs) = (if n = 0 then strv xs else [])"
  by (cases n) auto

lemma length_add_thing:
  "length (job_objects self) \<le> 1 \<Longrightarrow>
   length (job_objects (storage_job_add_thing get_path self t)) \<le> 1"
  by (auto simp: storage_job_add_thing_def Let_def strv_replicate split: option.splits)
    (metis One_nat_def le_SucI length_Cons list.size(3) nat_le_linear not_None_eq strv.simps)

lemma add_thing_frame [simp]:
  "samples (storage_job_add_thing g self t) = samples self"
  "handler_connected (storage_job_add_thing g self t) = handler_connected self"
  "auto_estimate (storage_job_add_thing g self t) = auto_estimate self"
  by (auto simp: storage_job_add_thing_def Let_def split: option.splits)

lemma notify_progress_samples:
  assumes "samples self = Some s"
  obtains r e where "on_notify_progress self now =
    Inr (self\<lparr>samples := Some (add_sample s \<lparr>time_usec = now, sample_value = progress self\<rparr>),
              rate := r, expected_end_time := e\<rparr>)"
proof (cases "length (add_sample s \<lparr>time_usec = now, sample_value = progress self\<rparr>) < 5")
  case True
  with assms that [of "expected_end_time self" "rate self"] show ?thesis
    by (simp add: on_notify_progress_def Let_def)
next
  case False
  with assms that show ?thesis
    by (simp add: on_notify_progress_def Let_def)
qed

lemma job_step_ok:
  assumes "job_ok self"
  shows "\<exists>self'. job_step get_path self e = Inr self' \<and> job_ok self'"
proof (cases e)
  case (Progress now p)
  show ?thesis
  proof (cases "handler_connected self")
    case True
    with assms obtain s where s: "samples self = Some s" by (auto simp: job_ok_def)
    then have "samples (self\<lparr>progress := p\<rparr>) = Some s" by simp
    then obtain r x where "on_notify_progress (self\<lparr>progress := p\<rparr>) now =
        Inr (self\<lparr>progress := p, samples := Some (add_sample s
              \<lparr>time_usec = now, sample_value = progress (self\<lparr>progress := p\<rparr>)\<rparr>),
              rate := r, expected_end_time := x\<rparr>)"
      by (rule notify_progress_samples)
    with True s assms Progress show ?thesis
      by (simp add: job_ok_def Let_def length_add_sample)
  qed (use assms Progress in \<open>auto simp: job_ok_def Let_def\<close>)
next
  case (AutoEstimate b)
  with assms show ?thesis
    by (cases b) (auto simp: storage_job_set_auto_estimate_def job_ok_def Let_def)
next
  case Cancel
  with assms show ?thesis by (auto simp: handle_cancel_def job_ok_def)
next
  case (AddThing t)
  with assms show ?thesis by (auto simp: job_ok_def intro: length_add_thing [unfolded One_nat_def])
qed

interpretation jm: safe_machine "job_step get_path" job_ok for get_path
proof
  show "job_ok s'" if "job_ok s" and "job_step get_path s e = Inr s'" for s e s'
    using job_step_ok [of s get_path e] that by auto
  show "\<exists>s'. job_step get_path s e = Inr s'" if "job_ok s" for s e
    using job_step_ok [OF that] by blast
qed

section \<open>The window of samples\<close>

definition last_n :: "nat \<Rightarrow> 'a list \<Rightarrow> 'a list" where
  "last_n n xs = drop (length xs - n) xs"

lemma last_n_all: "length xs \<le> n \<Longrightarrow> last_n n xs = xs"
  by (simp add: last_n_def)

lemma length_last_n [simp]: "length (last_n n xs) = min n (length xs)"
  by (simp add: last_n_def)

lemma add_sample_last_n: "add_sample (last_n MAX_SAMPLES xs) x = last_n MAX_SAMPLES (xs @ [x])"
proof (cases "MAX_SAMPLES \<le> length xs")
  case True
  then have "tl (drop (length xs - MAX_SAMPLES) xs) = drop (Suc (length xs) - MAX_SAMPLES) xs"
    by (simp add: Suc_diff_le drop_Suc tl_drop)
  moreover have "drop (Suc 0 - MAX_SAMPLES) [x] = [x]" by (simp add: MAX_SAMPLES_def)
  ultimately show ?thesis
    using True by (simp add: add_sample_def last_n_def)
next
  case False
  then have "length xs < MAX_SAMPLES" by simp
  then show ?thesis
    by (simp add: add_sample_def last_n_all min_def)
qed

definition reported :: "int \<times> gdouble \<Rightarrow> sample" where
  "reported r = \<lparr>time_usec = fst r, sample_value = snd r\<rparr>"

abbreviation reports :: "(int \<times> gdouble) list \<Rightarrow> job_event list" where
  "reports rs \<equiv> map (\<lambda>(now, p). Progress now p) rs"

lemma run_reports:
  assumes "handler_connected self" and "samples self = Some (last_n MAX_SAMPLES hist)"
  shows "\<exists>s. run_steps (job_step g) self (reports rs) = Inr s \<and> handler_connected s \<and>
    samples s = Some (last_n MAX_SAMPLES (hist @ map reported rs)) \<and>
    job_bytes s = job_bytes self"
  using assms
proof (induction rs arbitrary: self hist)
  case (Cons r rs)
  obtain now p where r: "r = (now, p)" by (cases r)
  from Cons.prems have "samples (self\<lparr>progress := p\<rparr>) = Some (last_n MAX_SAMPLES hist)" by simp
  then obtain q x where step: "on_notify_progress (self\<lparr>progress := p\<rparr>) now =
        Inr (self\<lparr>progress := p, samples := Some (add_sample (last_n MAX_SAMPLES hist)
              \<lparr>time_usec = now, sample_value = progress (self\<lparr>progress := p\<rparr>)\<rparr>),
              rate := q, expected_end_time := x\<rparr>)" (is "_ = Inr ?s")
    by (rule notify_progress_samples)
  have "samples ?s = Some (last_n MAX_SAMPLES (hist @ [reported r]))"
    by (simp add: add_sample_last_n r reported_def)
  moreover have "handler_connected ?s" using Cons.prems by simp
  ultimately show ?case
    using Cons.IH [of ?s "hist @ [reported r]"] step Cons.prems by (simp add: r)
qed simp

lemma run_reports_new:
  "\<exists>s. run_steps (job_step g) job_new (AutoEstimate True # reports rs) = Inr s \<and>
    handler_connected s \<and> samples s = Some (last_n MAX_SAMPLES (map reported rs)) \<and>
    job_bytes s = 0"
  using run_reports [of "job_new\<lparr>samples := Some [], handler_connected := True, auto_estimate := True\<rparr>"
      "[]" g rs]
  by (simp add: storage_job_set_auto_estimate_def job_new_def last_n_def)

section \<open>The speed of a steady job\<close>

text \<open>\<open>steady t0 d s\<close>: the progress is the share of \<open>d\<close> microseconds passed since \<open>t0\<close>.\<close>

definition steady :: "int \<Rightarrow> int \<Rightarrow> sample list \<Rightarrow> bool" where
  "steady t0 d s \<longleftrightarrow>
     sorted_wrt (<) (map time_usec s) \<and>
     (\<forall>x \<in> set s. sample_value x = Fin (of_int (time_usec x - t0) / of_int d))"

lemma speeds_steady: "0 < d \<Longrightarrow> steady t0 d s \<Longrightarrow> speeds s = replicate (length s - 1) (Fin (1 / of_int d))"
proof (induction s rule: speeds.induct)
  case (1 a b s)
  then have IH: "speeds (b # s) = replicate (length s) (Fin (1 / of_int d))"
    by (simp add: steady_def)
  have lt: "time_usec a < time_usec b" using "1.prems" by (simp add: steady_def)
  have "of_int (time_usec b - time_usec a) \<noteq> (0::rat)" using lt by (subst of_int_eq_0_iff) simp
  moreover have "of_int (time_usec b - t0) / of_int d + - (of_int (time_usec a - t0) / of_int d) =
      of_int (time_usec b - time_usec a) / (of_int d :: rat)"
    by (simp add: diff_divide_distrib)
  moreover have "sample_value a = Fin (of_int (time_usec a - t0) / of_int d)"
    "sample_value b = Fin (of_int (time_usec b - t0) / of_int d)"
    using "1.prems" by (simp_all add: steady_def)
  ultimately have "d_div (d_sub (sample_value b) (sample_value a))
      (Fin (of_int (time_usec b - time_usec a))) = Fin (1 / of_int d)"
    by (simp only: d_sub_def d_neg.simps d_add.simps d_div.simps) simp
  with IH show ?case by simp
qed auto

lemma sum_replicate: "fold (\<lambda>x sum. d_add sum x) (replicate n (Fin v)) (Fin a) = Fin (a + of_nat n * v)"
  by (induction n arbitrary: a) (simp_all add: algebra_simps)

lemma avg_speed_steady:
  assumes "0 < d" and "steady t0 d s" and "2 \<le> length s"
  shows "avg_speed s = Fin (1 / of_int d)"
proof -
  have "of_nat (length s - 1) \<noteq> (0::rat)" using assms(3) by simp
  with assms(1) show ?thesis
    unfolding avg_speed_def Let_def speeds_steady [OF assms(1,2)] sum_replicate length_replicate
      d_div.simps
    by simp
qed

lemma steady_last_n: "steady t0 d s \<Longrightarrow> steady t0 d (last_n n s)"
  by (auto simp: steady_def last_n_def drop_map [symmetric] dest: in_set_dropD)

lemma trunc_of_int [simp]: "trunc_rat (of_int i) = i"
  by (simp add: trunc_rat_def)

lemma estimate_steady:
  assumes s: "samples self = Some s"
    and w: "w = add_sample s \<lparr>time_usec = now, sample_value = progress self\<rparr>"
    and st: "steady t0 d w" and d: "0 < d" and len: "5 \<le> length w"
    and r: "- (2 ^ 63) \<le> t0 + d - now" "t0 + d - now < 2 ^ 63"
    and e: "- (2 ^ 63) \<le> t0 + d" "t0 + d < 2 ^ 63"
  shows "map_sum id expected_end_time (on_notify_progress self now) = Inr (Some (t0 + d))"
proof -
  have v: "avg_speed w = Fin (1 / of_int d)"
    using st d len by (intro avg_speed_steady) auto
  have "progress self = Fin (of_int (now - t0) / of_int d)"
    using st by (simp add: w steady_def add_sample_def)
  then have "d_div (d_sub (Fin 1) (progress self)) (avg_speed w) = Fin (of_int (t0 + d - now))"
    using d by (simp add: v d_sub_def field_simps)
  then have "d_to_int64 (d_div (d_sub (Fin 1) (progress self)) (avg_speed w)) = Some (t0 + d - now)"
    using r by (simp only: d_to_int64.simps Let_def trunc_of_int) simp
  with s e len show ?thesis
    by (simp add: on_notify_progress_def Let_def add_int64_def flip: w)
qed

section \<open>Properties\<close>

text \<open>
  Whatever the sequence of progress reports, estimate switches, cancellations and added
  things, a job runs without a failed assertion and without touching unallocated samples, keeps
  at most a hundred samples, and has the progress handler connected exactly when estimates
  are on.
\<close>

theorem job_never_aborts:
  "\<exists>s. run_steps (job_step get_path) job_new es = Inr s \<and> job_ok s"
  by (rule jm.run_total) (simp add: job_ok_def job_new_def)

text \<open>
  The samples a job estimates from are the last hundred progress reports, in the order
  they came (the array is shifted with \<open>memmove\<close> when it is full).
\<close>

theorem samples_are_last_reports:
  "\<exists>s. run_steps (job_step get_path) job_new (AutoEstimate True # reports rs) = Inr s \<and>
    samples s = Some (last_n 100 (map reported rs))"
  using run_reports_new [of get_path rs] by (auto simp: MAX_SAMPLES_def)

text \<open>
  A job that progresses at a constant speed, starting at \<open>t0\<close> and taking \<open>d\<close>
  microseconds, and that has reported its progress five times or more, shows the time \<open>t0 + d\<close>
  as its expected end.
\<close>

theorem steady_job_estimate_exact:
  assumes d: "0 < d" and n: "5 \<le> length rs"
    and incr: "sorted_wrt (<) (map fst rs)"
    and lin: "\<forall>r \<in> set rs. snd r = Fin (of_int (fst r - t0) / of_int d)"
    and range: "t0 \<le> fst (hd rs)" "0 \<le> t0" "t0 + d < 2 ^ 63" "fst (last rs) < 2 ^ 63"
  shows "\<exists>s. run_steps (job_step get_path) job_new (AutoEstimate True # reports rs) = Inr s \<and>
    expected_end_time s = Some (t0 + d)"
proof -
  obtain qs now p where rs: "rs = qs @ [(now, p)]"
    using n by (cases rs rule: rev_cases) auto
  obtain s where run: "run_steps (job_step get_path) job_new (AutoEstimate True # reports qs) = Inr s"
    and conn: "handler_connected s" and sm: "samples s = Some (last_n MAX_SAMPLES (map reported qs))"
    using run_reports_new [of get_path qs] by blast
  let ?s = "s\<lparr>progress := p\<rparr>"
  let ?w = "last_n MAX_SAMPLES (map reported rs)"
  have "?w = add_sample (last_n MAX_SAMPLES (map reported qs))
      \<lparr>time_usec = now, sample_value = progress ?s\<rparr>"
    by (simp add: add_sample_last_n rs reported_def)
  moreover have "map (\<lambda>x. time_usec (reported x)) rs = map fst rs"
    by (simp add: reported_def)
  then have "steady t0 d (map reported rs)"
    using incr lin by (simp add: steady_def reported_def comp_def)
  then have "steady t0 d ?w" by (rule steady_last_n)
  moreover have "hd rs = (now, p) \<or> fst (hd rs) < now"
    using incr rs by (cases qs) (auto simp: sorted_wrt_append)
  then have "t0 \<le> now" and "now < 2 ^ 63" using range rs by auto
  moreover have "5 \<le> length ?w" using n by (simp add: MAX_SAMPLES_def)
  ultimately have "map_sum id expected_end_time (on_notify_progress ?s now) = Inr (Some (t0 + d))"
    using sm d range by (intro estimate_steady [of ?s]) auto
  then obtain s' where "on_notify_progress ?s now = Inr s'" and "expected_end_time s' = Some (t0 + d)"
    by (cases "on_notify_progress ?s now") auto
  moreover have "AutoEstimate True # reports rs = (AutoEstimate True # reports qs) @ [Progress now p]"
    by (simp add: rs)
  ultimately show ?thesis
    using run conn by (simp only: run_steps_append sum.case) simp
qed

lemma steady_job_estimate_exact_witness:
  "\<exists>s. run_steps (job_step (\<lambda>_. None)) job_new
     (AutoEstimate True # reports (map (\<lambda>i. (1000 + i, Fin (of_int i / 20))) [0, 3, 5, 6, 10])) = Inr s \<and>
   expected_end_time s = Some 1020"
  using steady_job_estimate_exact [of 20 "map (\<lambda>i. (1000 + i, Fin (of_int i / 20))) [0, 3, 5, 6, 10]"
      1000 "\<lambda>_. None"]
  by simp

text \<open>
  \<open>storage_job_add_thing\<close> never lists two objects: adding a second object, one with
  another path, leaves the job with no object at all (the new array is not filled with the
  earlier paths).
\<close>

theorem second_object_erases_first:
  assumes "job_objects (storage_job_add_thing get_path job_new (Some t)) = [p]"
    and "get_path u \<noteq> Some p"
  shows "job_objects (storage_job_add_thing get_path
    (storage_job_add_thing get_path job_new (Some t)) (Some u)) = []"
  using assms by (auto simp: storage_job_add_thing_def Let_def job_new_def strcmp0_eq_def)

lemma second_object_erases_first_witness:
  "job_objects (storage_job_add_thing (\<lambda>t. Some (dec (thing_id t)))
     (storage_job_add_thing (\<lambda>t. Some (dec (thing_id t))) job_new (Some (Thing 1 StorageVolumeGroup)))
     (Some (Thing 2 StorageBlock))) = []"
  by (rule second_object_erases_first [of _ _ "dec 1"])
    (simp_all add: storage_job_add_thing_def job_new_def)

end
