(* ===== verification/Threaded_Job.thy ===== *)
theory Threaded_Job
  imports Jobs
begin

text \<open>
  Jobs that run a function in another thread, \<open>src/threadedjob.c\<close>: the scheduler runs the
  function once, an idle source of the main loop then emits \<open>threaded-job-completed\<close>, and
  the default handler emits \<open>completed\<close>.
\<close>

section \<open>State\<close>

text \<open>
  A job function gets the cancellable and its user data and returns a truth value, with an
  error set or not. The user data is part of the function here.
\<close>

type_synonym job_func = "bool \<Rightarrow> bool \<times> gerror option"

datatype thread_phase = Scheduled | IdleQueued | Emitted

record threaded_job = job +
  job_func :: job_func
  job_result :: bool
  job_error :: "gerror option"
  phase :: thread_phase
  completions :: "(bool \<times> string) list"

text \<open>The error of \<open>g_cancellable_set_error_if_cancelled\<close>.\<close>

definition cancelled_error :: gerror where
  "cancelled_error = \<lparr>err_domain = ''g-io-error-quark'', err_code = 19,
     err_message = ''Operation was cancelled''\<rparr>"

section \<open>Operations\<close>

definition storage_threaded_job_new :: "job_func \<Rightarrow> bool \<Rightarrow> threaded_job" where
  "storage_threaded_job_new f is_cancelled =
     job.extend (job_new\<lparr>cancelled := is_cancelled\<rparr>)
       \<lparr>job_func = f, job_result = False, job_error = None, phase = Scheduled, completions = []\<rparr>"

definition run_io_scheduler_job :: "threaded_job \<Rightarrow> abort + threaded_job" where
  "run_io_scheduler_job job =
     (if job_result job then Inl (AssertFailed ''!job->job_result'')
      else if job_error job \<noteq> None then Inl (AssertFailed ''job->job_error'')
      else
        let job =
          (if cancelled job then job\<lparr>job_error := Some cancelled_error\<rparr>
           else case job_func job (cancelled job) of
                  (res, err) \<Rightarrow> job\<lparr>job_result := res, job_error := err\<rparr>)
        in Inr (job\<lparr>phase := IdleQueued\<rparr>))"

text \<open>The message \<open>Threaded job failed with error: %s (%s, %d)\<close>.\<close>

definition threaded_failure :: "gerror \<Rightarrow> string" where
  "threaded_failure e = ''Threaded job failed with error: '' @ err_message e @ '' ('' @
     err_domain e @ '', '' @ dec_int (err_code e) @ '')''"

definition threaded_job_completed_default ::
  "threaded_job \<Rightarrow> bool \<Rightarrow> gerror option \<Rightarrow> abort + threaded_job" where
  "threaded_job_completed_default job result err =
     (if result then Inr (job\<lparr>completions := completions job @ [(True, [])]\<rparr>)
      else case err of
             None \<Rightarrow> Inl (AssertFailed ''error != NULL'')
           | Some e \<Rightarrow>
               Inr (job\<lparr>completions := completions job @ [(False, threaded_failure e)]\<rparr>))"

definition job_complete :: "threaded_job \<Rightarrow> abort + threaded_job" where
  "job_complete job =
     map_sum id (\<lambda>j. j\<lparr>phase := Emitted\<rparr>)
       (threaded_job_completed_default job (job_result job) (job_error job))"

section \<open>Runs\<close>

text \<open>
  The thread and the main loop: the scheduler takes the job up once, the idle source runs once
  after that, and \<open>Cancel\<close> may be called at any time. An event that is not due changes
  nothing.
\<close>

datatype thread_event = ThreadRuns | IdleRuns | CancelCalled

fun threaded_step :: "threaded_job \<Rightarrow> thread_event \<Rightarrow> abort + threaded_job" where
  "threaded_step job ThreadRuns =
     (if phase job = Scheduled then run_io_scheduler_job job else Inr job)"
| "threaded_step job IdleRuns = (if phase job = IdleQueued then job_complete job else Inr job)"
| "threaded_step job CancelCalled = Inr (fst (handle_cancel job))"

text \<open>
  What a job reports, given whether it was cancelled before the thread took it up, and the
  invariant of a run.
\<close>

definition threaded_verdict :: "job_func \<Rightarrow> bool \<Rightarrow> bool \<times> string" where
  "threaded_verdict f before =
     (if before then (False, threaded_failure cancelled_error)
      else case f False of
             (True, _) \<Rightarrow> (True, [])
           | (False, err) \<Rightarrow> (False, threaded_failure (the err)))"

definition threaded_ok :: "job_func \<Rightarrow> threaded_job \<Rightarrow> bool" where
  "threaded_ok f job \<longleftrightarrow>
     job_func job = f \<and>
     (case phase job of
        Scheduled \<Rightarrow> \<not> job_result job \<and> job_error job = None \<and> completions job = []
      | IdleQueued \<Rightarrow>
          (job_result job \<or> job_error job \<noteq> None) \<and> completions job = [] \<and>
          (\<exists>c. (if job_result job then (True, [])
                else (False, threaded_failure (the (job_error job)))) = threaded_verdict f c)
      | Emitted \<Rightarrow> \<exists>c. completions job = [threaded_verdict f c])"

text \<open>
  The contract of a job function: when it returns \<open>FALSE\<close> it has set the error. The
  functions the daemon passes are shown to keep it where they are defined.
\<close>

locale job_function =
  fixes f :: job_func
  assumes failure_sets_error: "f c = (False, err) \<Longrightarrow> err \<noteq> None"
begin

lemma cancel_frame:
  "threaded_ok f job \<Longrightarrow> threaded_ok f (fst (handle_cancel job))"
  by (auto simp: handle_cancel_def threaded_ok_def split: thread_phase.splits)

lemma run_ok:
  assumes "threaded_ok f job" and "phase job = Scheduled"
  shows "\<exists>j. run_io_scheduler_job job = Inr j \<and> threaded_ok f j \<and> phase j = IdleQueued"
proof (cases "cancelled job")
  case True
  have "threaded_verdict f True = (False, threaded_failure cancelled_error)" by (simp add: threaded_verdict_def)
  with True assms show ?thesis
    by (auto simp: run_io_scheduler_job_def threaded_ok_def intro!: exI [of _ True])
next
  case False
  obtain res err where f: "f False = (res, err)" by fastforce
  then have "res \<or> err \<noteq> None" using failure_sets_error [of False err] by (cases res) auto
  moreover have "threaded_verdict f False =
      (if res then (True, []) else (False, threaded_failure (the err)))"
    by (simp add: threaded_verdict_def f split: bool.splits)
  ultimately show ?thesis using False assms f
    by (auto simp: run_io_scheduler_job_def threaded_ok_def intro!: exI [of _ False])
qed

lemma complete_ok:
  assumes "threaded_ok f job" and "phase job = IdleQueued"
  shows "\<exists>j. job_complete job = Inr j \<and> threaded_ok f j \<and> phase j = Emitted"
  using assms
  by (cases "job_result job"; cases "job_error job")
    (auto simp: job_complete_def threaded_job_completed_default_def threaded_ok_def)

lemma step_ok: "threaded_ok f job \<Longrightarrow> \<exists>j. threaded_step job e = Inr j \<and> threaded_ok f j"
  using run_ok [of job] complete_ok [of job] cancel_frame [of job] by (cases e) auto

end

sublocale job_function \<subseteq> safe_machine threaded_step "threaded_ok f"
proof
  show "threaded_ok f s'" if "threaded_ok f s" and "threaded_step s e = Inr s'" for s e s'
    using step_ok [OF that(1), of e] that(2) by auto
  show "\<exists>s'. threaded_step s e = Inr s'" if "threaded_ok f s" for s e
    using step_ok [OF that, of e] by blast
qed

text \<open>What the job has reported or will report, once the function has run.\<close>

definition outcome :: "threaded_job \<Rightarrow> (bool \<times> string) list" where
  "outcome job =
     (case phase job of
        Scheduled \<Rightarrow> []
      | IdleQueued \<Rightarrow>
          [if job_result job then (True, []) else (False, threaded_failure (the (job_error job)))]
      | Emitted \<Rightarrow> completions job)"

lemma cancel_frame_threaded [simp]:
  "phase (fst (handle_cancel job)) = phase job"
  "job_result (fst (handle_cancel job)) = job_result job"
  "job_error (fst (handle_cancel job)) = job_error job"
  "job_func (fst (handle_cancel job)) = job_func job"
  "completions (fst (handle_cancel job)) = completions job"
  "cancelable (fst (handle_cancel job)) = cancelable job"
  "cancelled (fst (handle_cancel job)) = (cancelled job \<or> cancelable job)"
  by (auto simp: handle_cancel_def)

context job_function begin

lemma machine: "safe_machine threaded_step (threaded_ok f)"
  by unfold_locales

lemma outcome_step:
  assumes "threaded_ok f job" and "phase job \<noteq> Scheduled" and "threaded_step job e = Inr j"
  shows "outcome j = outcome job" and "phase j \<noteq> Scheduled"
    and "phase job = Emitted \<or> e = IdleRuns \<Longrightarrow> phase j = Emitted"
  using assms
  by (cases e; cases "phase job"; cases "job_error job";
      auto simp: outcome_def job_complete_def threaded_job_completed_default_def threaded_ok_def
        split: if_splits)+

lemma outcome_run:
  assumes "threaded_ok f job" and "phase job \<noteq> Scheduled"
  shows "\<exists>j. run_steps threaded_step job es = Inr j \<and> threaded_ok f j \<and> outcome j = outcome job \<and>
    phase j \<noteq> Scheduled \<and> (phase job = Emitted \<or> IdleRuns \<in> set es \<longrightarrow> phase j = Emitted)"
  using assms
proof (induction es arbitrary: job)
  case (Cons e es)
  obtain k where k: "threaded_step job e = Inr k" and ok: "threaded_ok f k"
    using step_ok [OF Cons.prems(1)] by blast
  note step = outcome_step [OF Cons.prems k]
  show ?case
    using Cons.IH [OF ok step(2)] k step by auto
qed simp

lemma before_thread:
  assumes "ThreadRuns \<notin> set pre" and "threaded_ok f job" and "phase job = Scheduled" and "cancelable job"
  shows "\<exists>j. run_steps threaded_step job pre = Inr j \<and> threaded_ok f j \<and> phase j = Scheduled \<and>
    cancelled j = (cancelled job \<or> CancelCalled \<in> set pre)"
  using assms
proof (induction pre arbitrary: job)
  case (Cons e pre)
  then show ?case
    using Cons.IH [of "fst (handle_cancel job)"] cancel_frame [of job] by (cases e) auto
qed simp

lemma run_outcome:
  assumes "threaded_ok f job" and "phase job = Scheduled" and "run_io_scheduler_job job = Inr j"
  shows "outcome j = [threaded_verdict f (cancelled job)]" and "phase j = IdleQueued"
proof -
  obtain res err where r: "f False = (res, err)" by fastforce
  show "outcome j = [threaded_verdict f (cancelled job)]" and "phase j = IdleQueued"
    using assms r
    by (auto simp: run_io_scheduler_job_def outcome_def threaded_verdict_def threaded_ok_def
        split: if_splits bool.splits)
qed

lemma completes:
  assumes pre: "ThreadRuns \<notin> set pre" and job: "threaded_ok f job" "phase job = Scheduled" "cancelable job"
    and idle: "IdleRuns \<in> set post"
  shows "\<exists>j. run_steps threaded_step job (pre @ ThreadRuns # post) = Inr j \<and>
    completions j = [threaded_verdict f (cancelled job \<or> CancelCalled \<in> set pre)]"
proof -
  obtain a where a: "run_steps threaded_step job pre = Inr a" "threaded_ok f a" "phase a = Scheduled"
      "cancelled a = (cancelled job \<or> CancelCalled \<in> set pre)"
    using before_thread [OF pre job] by blast
  obtain b where b: "run_io_scheduler_job a = Inr b" "threaded_ok f b"
    using run_ok [OF a(2,3)] by blast
  note o = run_outcome [OF a(2,3) b(1)]
  have "phase b \<noteq> Scheduled" using o(2) by simp
  then obtain j where "run_steps threaded_step b post = Inr j" "phase j = Emitted" "outcome j = outcome b"
    using outcome_run [OF b(2), of post] idle by blast
  with a b o show ?thesis by (auto simp: run_steps_append outcome_def)
qed

end

lemma threaded_new_ok: "threaded_ok f ((storage_threaded_job_new f c)\<lparr>cancelable := b\<rparr>)"
  by (simp add: threaded_ok_def storage_threaded_job_new_def job.defs)

lemma threaded_new_simps [simp]:
  "phase (storage_threaded_job_new f c) = Scheduled"
  "completions (storage_threaded_job_new f c) = []"
  "cancelled (storage_threaded_job_new f c) = c"
  by (simp_all add: storage_threaded_job_new_def job.defs job_new_def)

section \<open>Properties\<close>

text \<open>
  A threaded job whose function sets an error whenever it fails never fails an assertion,
  whatever the interleaving of the thread, the idle source and calls of \<open>Cancel\<close>, and
  reports its completion at most once.
\<close>

theorem threaded_job_safe:
  assumes "\<forall>c err. f c = (False, err) \<longrightarrow> err \<noteq> None"
  shows "\<exists>j. run_steps threaded_step ((storage_threaded_job_new f c)\<lparr>cancelable := True\<rparr>) es = Inr j \<and>
    length (completions j) \<le> 1"
proof -
  have "job_function f" using assms by (auto simp: job_function_def)
  note m = safe_machine.run_total [OF job_function.machine [OF this] threaded_new_ok]
  have "length (completions j) \<le> 1" if "threaded_ok f j" for j
    using that by (cases "phase j") (auto simp: threaded_ok_def)
  with m show ?thesis by metis
qed

lemma threaded_job_safe_witness:
  "\<exists>j. run_steps threaded_step
     ((storage_threaded_job_new (\<lambda>c. (False, Some cancelled_error)) False)\<lparr>cancelable := True\<rparr>)
     [CancelCalled, IdleRuns, ThreadRuns, CancelCalled, IdleRuns] = Inr j \<and> length (completions j) \<le> 1"
  by (rule threaded_job_safe) simp

text \<open>
  Once the thread has taken the job up and the idle source has run, the job has reported
  exactly once: that it was cancelled, if \<open>Cancel\<close> was called before the thread took it up
  or the cancellable was cancelled from the start, and otherwise what its function returned.
\<close>

theorem threaded_job_completes_once:
  assumes "\<forall>c err. f c = (False, err) \<longrightarrow> err \<noteq> None"
    and "ThreadRuns \<notin> set pre" and "IdleRuns \<in> set post"
  shows "\<exists>j. run_steps threaded_step ((storage_threaded_job_new f c)\<lparr>cancelable := True\<rparr>)
      (pre @ ThreadRuns # post) = Inr j \<and>
    completions j = [threaded_verdict f (c \<or> CancelCalled \<in> set pre)]"
proof -
  have "job_function f" using assms(1) by (auto simp: job_function_def)
  from job_function.completes [OF this assms(2) threaded_new_ok _ _ assms(3)]
  show ?thesis by fastforce
qed

lemma threaded_job_completes_once_witness:
  "\<exists>j. run_steps threaded_step
      ((storage_threaded_job_new (\<lambda>c. (True, None)) False)\<lparr>cancelable := True\<rparr>)
      ([IdleRuns] @ ThreadRuns # [CancelCalled, IdleRuns, IdleRuns]) = Inr j \<and>
    completions j = [(True, [])]"
  using threaded_job_completes_once
    [of "\<lambda>c. (True, None)" "[IdleRuns]" "[CancelCalled, IdleRuns, IdleRuns]" False]
  by (simp add: threaded_verdict_def)

end
