(* ===== verification/Spawned_Job.thy ===== *)
theory Spawned_Job
  imports Util Threaded_Job
begin

text \<open>
  Jobs that spawn a command, \<open>src/spawnedjob.c\<close>: construction, the sources of the main
  loop (idle, standard input, output and error of the child, its exit), the default handler
  that judges the command, and the release of what is left, which kills the child.
\<close>

section \<open>State\<close>

text \<open>
  A channel, its source and its descriptor are made and released together, and are one field:
  \<open>child_stdin\<close> is true while the pipe to the child is open. \<open>stdin_pipe\<close> is what
  has been written to it. \<open>child_pid\<close> is \<open>None\<close> for 0. \<open>idle\<close> holds the errors of
  the idle sources attached by \<open>emit_completed_with_error_in_idle\<close>, each of which holds a
  reference; \<open>refs\<close> is the reference count of the job. \<open>has_object\<close> is whether
  \<open>g_dbus_interface_get_object\<close> finds the object the job was exported with, and
  \<open>sj_completions\<close> are the \<open>completed\<close> signals emitted so far.
\<close>

record spawned_job = job +
  sj_argv :: "string list"
  cancel_connected :: bool
  input_string :: "string option"
  run_as_uid :: u32
  run_as_euid :: u32
  input_string_cursor :: "string option"
  child_pid :: "nat option"
  child_watch_source :: bool
  child_stdin :: bool
  child_stdout_channel :: bool
  child_stderr_channel :: bool
  child_stdout :: "string option"
  child_stderr :: "string option"
  stdin_pipe :: string
  terminated :: "nat list"
  idle :: "gerror list"
  refs :: nat
  has_object :: bool
  sj_completions :: "(bool \<times> string) list"

text \<open>\<open>storage_spawned_job_init\<close> after \<open>g_object_new\<close> has set the properties.\<close>

definition storage_spawned_job_init ::
  "string list \<Rightarrow> string option \<Rightarrow> u32 \<Rightarrow> u32 \<Rightarrow> bool \<Rightarrow> spawned_job" where
  "storage_spawned_job_init argv input uid euid is_cancelled =
     job.extend (job_new\<lparr>cancelled := is_cancelled\<rparr>)
       \<lparr>sj_argv = argv, cancel_connected = False, input_string = input,
        run_as_uid = uid, run_as_euid = euid, input_string_cursor = None, child_pid = None,
        child_watch_source = False, child_stdin = False, child_stdout_channel = False,
        child_stderr_channel = False, child_stdout = Some [], child_stderr = Some [],
        stdin_pipe = [], terminated = [], idle = [], refs = 1,
        has_object = True, sj_completions = []\<rparr>"

section \<open>Operations\<close>

definition emit_completed_with_error_in_idle :: "spawned_job \<Rightarrow> gerror \<Rightarrow> spawned_job" where
  "emit_completed_with_error_in_idle self e = self\<lparr>idle := idle self @ [e], refs := refs self + 1\<rparr>"

definition on_cancelled :: "spawned_job \<Rightarrow> spawned_job" where
  "on_cancelled self = emit_completed_with_error_in_idle self cancelled_error"

text \<open>
  \<open>spawn\<close> is what \<open>g_spawn_async_with_pipes\<close> answers for the arguments: an error or the
  process. \<open>g_cancellable_connect\<close> is reached only when the cancellable is not cancelled.
\<close>

definition spawn_failure :: "string list \<Rightarrow> gerror \<Rightarrow> gerror" where
  "spawn_failure argv e =
     prefix_error (''Error spawning command-line `'' @ strjoinv '' '' argv @
       [CHR 0x27] @ '': '') e"

definition storage_spawned_job_constructed ::
  "(string list \<Rightarrow> gerror + nat) \<Rightarrow> spawned_job \<Rightarrow> spawned_job" where
  "storage_spawned_job_constructed spawn self =
     (if cancelled self then emit_completed_with_error_in_idle self cancelled_error
      else
        let self = self\<lparr>cancel_connected := True\<rparr> in
        case spawn (sj_argv self) of
          Inl e \<Rightarrow> emit_completed_with_error_in_idle self (spawn_failure (sj_argv self) e)
        | Inr pid \<Rightarrow>
            let self = self\<lparr>child_pid := Some pid, child_watch_source := True\<rparr>;
                self = (if input_string self \<noteq> None
                        then self\<lparr>input_string_cursor := input_string self, child_stdin := True\<rparr>
                        else self)
            in self\<lparr>child_stdout_channel := True, child_stderr_channel := True\<rparr>)"

definition read_child_stderr :: "spawned_job \<Rightarrow> string \<Rightarrow> abort + spawned_job" where
  "read_child_stderr self buf =
     (case child_stderr self of
        None \<Rightarrow> Inl (NullDereference ''self->child_stderr'')
      | Some s \<Rightarrow> Inr (self\<lparr>child_stderr := Some (s @ buf)\<rparr>))"

definition read_child_stdout :: "spawned_job \<Rightarrow> string \<Rightarrow> abort + spawned_job" where
  "read_child_stdout self buf =
     (case child_stdout self of
        None \<Rightarrow> Inl (NullDereference ''self->child_stdout'')
      | Some s \<Rightarrow> Inr (self\<lparr>child_stdout := Some (s @ buf)\<rparr>))"

text \<open>\<open>bytes_written\<close> is how much of the rest the pipe took.\<close>

definition write_child_stdin :: "spawned_job \<Rightarrow> nat \<Rightarrow> spawned_job" where
  "write_child_stdin self bytes_written =
     (case input_string_cursor self of
        None \<Rightarrow> self\<lparr>child_stdin := False\<rparr>
      | Some rest \<Rightarrow>
          if rest = [] then self\<lparr>child_stdin := False\<rparr>
          else self\<lparr>stdin_pipe := stdin_pipe self @ take bytes_written rest,
                    input_string_cursor := Some (drop bytes_written rest)\<rparr>)"

text \<open>
  The default handler of \<open>spawned-job-completed\<close>: what it emits as \<open>completed\<close>. Its debug
  message reads both strings before anything else. It passes the standard error where
  \<open>storage_util_check_status_and_output\<close> has its standard output and the other way round.
\<close>

definition error_report :: "gerror \<Rightarrow> string" where
  "error_report e = err_message e @ '' ('' @ err_domain e @ '', '' @ dec_int (err_code e) @ '')''"

definition argv0 :: "spawned_job \<Rightarrow> string" where
  "argv0 self = (case sj_argv self of [] \<Rightarrow> ''(null)'' | a # _ \<Rightarrow> a)"

text \<open>The \<open>str\<close> of a \<open>GString\<close> read as a C string ends at the first NUL the child wrote.\<close>

definition c_string :: "string \<Rightarrow> string" where
  "c_string s = takeWhile (\<lambda>c. c \<noteq> CHR 0x00) s"

definition spawned_job_completed_default ::
  "spawned_job \<Rightarrow> gerror option \<Rightarrow> u32 \<Rightarrow> string option \<Rightarrow> string option \<Rightarrow> abort + bool \<times> string" where
  "spawned_job_completed_default self err status standard_output standard_error =
     (case (standard_output, standard_error) of
        (None, _) \<Rightarrow> Inl (NullDereference ''standard_output->str'')
      | (_, None) \<Rightarrow> Inl (NullDereference ''standard_error->str'')
      | (Some out, Some serr) \<Rightarrow>
          (case err of
             Some e \<Rightarrow> Inr (False, error_report e)
           | None \<Rightarrow>
               (case check_status_and_output (argv0 self) status (Some (c_string serr)) (Some (c_string out)) of
                  None \<Rightarrow> Inr (True, c_string serr)
                | Some e \<Rightarrow> Inr (False, err_message e))))"

definition storage_spawned_job_release_resources :: "spawned_job \<Rightarrow> spawned_job" where
  "storage_spawned_job_release_resources self =
     (let self = self\<lparr>child_watch_source := False\<rparr>;
          self = (case child_pid self of
                    None \<Rightarrow> self
                  | Some pid \<Rightarrow> self\<lparr>terminated := terminated self @ [pid], child_pid := None\<rparr>)
      in self\<lparr>child_stdout := None, child_stderr := None, child_stdin := False,
              child_stdout_channel := False, child_stderr_channel := False,
              cancel_connected := False\<rparr>)"

text \<open>
  \<open>g_object_unref\<close>, with \<open>storage_spawned_job_finalize\<close> when it was the last reference.
\<close>

definition sj_unref :: "spawned_job \<Rightarrow> spawned_job" where
  "sj_unref self =
     (let self = self\<lparr>refs := refs self - 1\<rparr>
      in if refs self = 0 then storage_spawned_job_release_resources self else self)"

text \<open>
  \<open>udisks_job_emit_completed\<close> with what \<open>on_job_completed\<close> of \<open>src/daemon.c\<close>, which
  is connected to the signal, does to the job: it asserts that the job still has its object,
  unexports it, and drops the reference the launch made. The daemon's own part is in
  \<open>Daemon\<close>.
\<close>

definition emit_completed :: "spawned_job \<Rightarrow> bool \<times> string \<Rightarrow> abort + spawned_job" where
  "emit_completed self m =
     (if has_object self
      then Inr (sj_unref (self\<lparr>has_object := False, sj_completions := sj_completions self @ [m]\<rparr>))
      else Inl (AssertFailed ''object != NULL''))"

text \<open>
  The idle source and the exit of the child. The handlers hold a reference while they emit.
  \<open>rest_out\<close> and \<open>rest_err\<close> are what \<open>g_io_channel_read_to_end\<close> still found
  (\<open>None\<close> when it did not end normally).
\<close>

definition emit_completed_in_idle_cb :: "spawned_job \<Rightarrow> abort + spawned_job" where
  "emit_completed_in_idle_cb self =
     (case idle self of
        [] \<Rightarrow> Inr self
      | e # es \<Rightarrow>
          ebind (spawned_job_completed_default self (Some e) 0 (child_stdout self) (child_stderr self)) (\<lambda>m.
          ebind (emit_completed self m) (\<lambda>self.
          Inr (sj_unref (self\<lparr>idle := es\<rparr>)))))"

definition read_rest ::
  "(spawned_job \<Rightarrow> string \<Rightarrow> abort + spawned_job) \<Rightarrow> string option \<Rightarrow> spawned_job \<Rightarrow> abort + spawned_job" where
  "read_rest f rest self = (case rest of None \<Rightarrow> Inr self | Some buf \<Rightarrow> f self buf)"

definition child_watch_cb ::
  "spawned_job \<Rightarrow> u32 \<Rightarrow> string option \<Rightarrow> string option \<Rightarrow> abort + spawned_job" where
  "child_watch_cb self status rest_out rest_err =
     ebind (read_rest read_child_stdout rest_out self) (\<lambda>self.
     ebind (read_rest read_child_stderr rest_err self) (\<lambda>self.
     let self = self\<lparr>refs := refs self + 1\<rparr> in
     ebind (spawned_job_completed_default self None status (child_stdout self) (child_stderr self)) (\<lambda>m.
     ebind (emit_completed self m) (\<lambda>self.
     Inr (sj_unref (storage_spawned_job_release_resources
            (self\<lparr>child_pid := None, child_watch_source := False\<rparr>)))))))"

section \<open>Runs\<close>

text \<open>
  The sources of the main loop, and the \<open>Cancel\<close> method while the job is on the bus. A
  source that is not attached does not fire.
\<close>

datatype sj_event =
    IdleDispatch | StdoutReadable string | StderrReadable string | StdinWritable nat
  | ChildExits u32 "string option" "string option" | CancelMethod

fun sj_step :: "spawned_job \<Rightarrow> sj_event \<Rightarrow> abort + spawned_job" where
  "sj_step self IdleDispatch = emit_completed_in_idle_cb self"
| "sj_step self (StdoutReadable buf) =
     (if child_stdout_channel self then read_child_stdout self buf else Inr self)"
| "sj_step self (StderrReadable buf) =
     (if child_stderr_channel self then read_child_stderr self buf else Inr self)"
| "sj_step self (StdinWritable n) = Inr (if child_stdin self then write_child_stdin self n else self)"
| "sj_step self (ChildExits status rest_out rest_err) =
     (if child_watch_source self then child_watch_cb self status rest_out rest_err else Inr self)"
| "sj_step self CancelMethod =
     (if has_object self then
        let job = fst (handle_cancel self)
        in Inr (if cancelled job \<and> \<not> cancelled self \<and> cancel_connected job then on_cancelled job else job)
      else Inr self)"

text \<open>\<open>storage_spawned_job_new\<close>, with the property the daemon sets when it launches the job.\<close>

definition storage_spawned_job_new ::
  "(string list \<Rightarrow> gerror + nat) \<Rightarrow> string list \<Rightarrow> string option \<Rightarrow> u32 \<Rightarrow> u32 \<Rightarrow> bool \<Rightarrow> spawned_job" where
  "storage_spawned_job_new spawn argv input uid euid is_cancelled =
     (storage_spawned_job_constructed spawn
        (storage_spawned_job_init argv input uid euid is_cancelled))\<lparr>cancelable := True\<rparr>"

section \<open>The life of a job\<close>

text \<open>
  The specification: the phases of a job and the moves between them. \<open>Raced\<close> and \<open>Twice\<close>
  are jobs that have completed and still have an idle source attached.
\<close>

datatype sj_phase =
    Running | Failing | Cancelling | FailingCancelled | Completed | Raced | Twice

fun io_event :: "sj_event \<Rightarrow> bool" where
  "io_event (StdoutReadable _) = True"
| "io_event (StderrReadable _) = True"
| "io_event (StdinWritable _) = True"
| "io_event _ = False"

inductive phase_step :: "sj_phase \<Rightarrow> sj_event \<Rightarrow> sj_phase \<Rightarrow> bool" where
  exits: "phase_step Running (ChildExits st o1 o2) Completed"
| cancels: "phase_step Running CancelMethod Cancelling"
| fails: "phase_step Failing IdleDispatch Completed"
| fails_cancelled: "phase_step Failing CancelMethod FailingCancelled"
| cancel_done: "phase_step Cancelling IdleDispatch Completed"
| race: "phase_step Cancelling (ChildExits st o1 o2) Raced"
| once: "phase_step FailingCancelled IdleDispatch Twice"
| io: "io_event e \<Longrightarrow> phase_step p e p"
| idle_stays: "p \<in> {Running, Completed} \<Longrightarrow> phase_step p IdleDispatch p"
| exit_stays: "p \<notin> {Running, Cancelling} \<Longrightarrow> phase_step p (ChildExits st o1 o2) p"
| cancel_stays: "p \<noteq> Running \<Longrightarrow> phase_step p CancelMethod p"

inductive_cases phase_step_Running: "phase_step Running e p"
inductive_cases phase_step_Finished: "phase_step Completed e p"

definition attached :: "spawned_job \<Rightarrow> bool" where
  "attached j \<longleftrightarrow> child_pid j \<noteq> None \<and> child_watch_source j \<and> child_stdout j \<noteq> None \<and> child_stderr j \<noteq> None"

definition no_child :: "spawned_job \<Rightarrow> bool" where
  "no_child j \<longleftrightarrow> child_pid j = None \<and> \<not> child_watch_source j \<and> \<not> child_stdout_channel j \<and>
     \<not> child_stderr_channel j \<and> child_stdout j \<noteq> None \<and> child_stderr j \<noteq> None"

definition released :: "spawned_job \<Rightarrow> bool" where
  "released j \<longleftrightarrow> child_pid j = None \<and> \<not> child_watch_source j \<and> \<not> child_stdout_channel j \<and>
     \<not> child_stderr_channel j \<and> child_stdout j = None \<and> child_stderr j = None"

definition open_job :: "spawned_job \<Rightarrow> bool" where
  "open_job j \<longleftrightarrow> cancelable j \<and> has_object j \<and> sj_completions j = [] \<and> refs j = Suc (length (idle j))"

definition closed_job :: "spawned_job \<Rightarrow> bool" where
  "closed_job j \<longleftrightarrow> \<not> has_object j \<and> length (sj_completions j) = 1 \<and> refs j = length (idle j)"

text \<open>The states that implement a phase.\<close>

fun in_phase :: "sj_phase \<Rightarrow> spawned_job \<Rightarrow> bool" where
  "in_phase Running j \<longleftrightarrow> open_job j \<and> attached j \<and> idle j = [] \<and> \<not> cancelled j \<and> cancel_connected j"
| "in_phase Failing j \<longleftrightarrow> open_job j \<and> no_child j \<and> length (idle j) = 1"
| "in_phase Cancelling j \<longleftrightarrow> open_job j \<and> attached j \<and> length (idle j) = 1 \<and> cancelled j"
| "in_phase FailingCancelled j \<longleftrightarrow> open_job j \<and> no_child j \<and> length (idle j) = 2 \<and> cancelled j"
| "in_phase Completed j \<longleftrightarrow> closed_job j \<and> released j \<and> idle j = []"
| "in_phase Raced j \<longleftrightarrow> closed_job j \<and> released j \<and> length (idle j) = 1"
| "in_phase Twice j \<longleftrightarrow> closed_job j \<and> no_child j \<and> length (idle j) = 1"

lemmas phase_defs = attached_def no_child_def released_def open_job_def closed_job_def

lemmas handler_defs = emit_completed_in_idle_cb_def child_watch_cb_def read_rest_def
  read_child_stdout_def read_child_stderr_def emit_completed_def sj_unref_def
  storage_spawned_job_release_resources_def

lemma completed_default_error:
  "child_stdout j \<noteq> None \<Longrightarrow> child_stderr j \<noteq> None \<Longrightarrow>
   spawned_job_completed_default k (Some e) st (child_stdout j) (child_stderr j) =
   Inr (False, error_report e)"
  "spawned_job_completed_default k (Some e) st (Some out) (Some serr) = Inr (False, error_report e)"
  by (auto simp: spawned_job_completed_default_def)

lemma completed_default_verdict:
  "spawned_job_completed_default k None st (Some out) (Some serr) =
     Inr (case check_status_and_output (argv0 k) st (Some (c_string serr)) (Some (c_string out)) of
            None \<Rightarrow> (True, c_string serr) | Some e \<Rightarrow> (False, err_message e))"
  by (simp add: spawned_job_completed_default_def split: option.splits)

lemma completed_default_null:
  "spawned_job_completed_default k err st None serr = Inl (NullDereference ''standard_output->str'')"
  by (simp add: spawned_job_completed_default_def)

lemma simI: "phase_step p e p' \<Longrightarrow> in_phase p' j \<Longrightarrow> \<exists>p'. phase_step p e p' \<and> in_phase p' j"
  by blast

lemma idle_simulates:
  assumes "in_phase p j"
  shows "case emit_completed_in_idle_cb j of
      Inl x \<Rightarrow> p = Raced \<or> p = Twice
    | Inr j' \<Rightarrow> \<exists>p'. phase_step p IdleDispatch p' \<and> in_phase p' j'"
proof (cases p)
  case Running
  then show ?thesis using assms by (auto simp: handler_defs intro!: simI [OF idle_stays])
next
  case Failing
  with assms obtain e where "idle j = [e]" by (auto simp: length_Suc_conv)
  with assms Failing have "\<exists>j'. emit_completed_in_idle_cb j = Inr j' \<and> in_phase Completed j'"
    by (auto simp: handler_defs completed_default_error phase_defs)
  then show ?thesis unfolding Failing by (auto intro!: simI [OF fails])
next
  case Cancelling
  with assms obtain e where "idle j = [e]" by (auto simp: length_Suc_conv)
  with assms Cancelling have "\<exists>j'. emit_completed_in_idle_cb j = Inr j' \<and> in_phase Completed j'"
    by (auto simp: handler_defs completed_default_error phase_defs)
  then show ?thesis unfolding Cancelling by (auto intro!: simI [OF cancel_done])
next
  case FailingCancelled
  with assms obtain e f where "idle j = [e, f]" by (auto simp: length_Suc_conv numeral_2_eq_2)
  with assms FailingCancelled have "\<exists>j'. emit_completed_in_idle_cb j = Inr j' \<and> in_phase Twice j'"
    by (auto simp: handler_defs completed_default_error phase_defs)
  then show ?thesis unfolding FailingCancelled by (auto intro!: simI [OF once])
next
  case Completed
  then show ?thesis using assms by (auto simp: handler_defs intro!: simI [OF idle_stays])
next
  case Raced
  with assms obtain e where "idle j = [e]" by (auto simp: length_Suc_conv)
  with assms Raced show ?thesis
    by (auto simp: handler_defs phase_defs completed_default_null)
next
  case Twice
  with assms obtain e where "idle j = [e]" by (auto simp: length_Suc_conv)
  with assms Twice show ?thesis
    by (auto simp: handler_defs phase_defs completed_default_error)
qed

lemma exit_completes:
  assumes "open_job j" and "child_stdout j \<noteq> None" and "child_stderr j \<noteq> None"
  shows "\<exists>j'. child_watch_cb j st o1 o2 = Inr j' \<and> released j' \<and> idle j' = idle j \<and> closed_job j'"
  using assms
  by (cases o1; cases o2) (auto simp: handler_defs completed_default_verdict phase_defs Let_def)

lemma exit_simulates:
  assumes "in_phase p j" and "child_watch_source j"
  shows "\<exists>j'. child_watch_cb j st o1 o2 = Inr j' \<and>
    (\<exists>p'. phase_step p (ChildExits st o1 o2) p' \<and> in_phase p' j')"
proof (cases "p = Running \<or> p = Cancelling")
  case True
  with assms have "open_job j" "child_stdout j \<noteq> None" "child_stderr j \<noteq> None"
    by (auto simp: attached_def)
  from exit_completes [OF this] obtain j' where
    j': "child_watch_cb j st o1 o2 = Inr j'" "released j'" "idle j' = idle j" "closed_job j'"
    by blast
  then show ?thesis
    using True assms by (auto intro: simI [OF exits] simI [OF race])
next
  case False
  with assms show ?thesis by (cases p) (auto simp: phase_defs)
qed

lemma cancel_simulates:
  assumes "in_phase p j"
  shows "\<exists>j'. sj_step j CancelMethod = Inr j' \<and> (\<exists>p'. phase_step p CancelMethod p' \<and> in_phase p' j')"
proof (cases "has_object j \<and> cancelable j \<and> \<not> cancelled j")
  case False
  then have "sj_step j CancelMethod = Inr j" by (auto simp: handle_cancel_def Let_def)
  moreover have "p \<noteq> Running" using False assms by (auto simp: open_job_def)
  ultimately show ?thesis using assms by (auto intro: simI [OF cancel_stays])
next
  case True
  let ?j = "j\<lparr>cancelled := True\<rparr>"
  have step: "sj_step j CancelMethod = Inr (if cancel_connected j then on_cancelled ?j else ?j)"
    using True by (simp add: handle_cancel_def Let_def)
  show ?thesis
  proof (cases p)
    case Running
    with assms have "in_phase Cancelling (on_cancelled ?j)"
      by (auto simp: phase_defs on_cancelled_def emit_completed_with_error_in_idle_def)
    with step assms Running show ?thesis by (auto intro: simI [OF cancels])
  next
    case Failing
    with assms have "in_phase FailingCancelled (on_cancelled ?j)" "in_phase Failing ?j"
      by (auto simp: phase_defs on_cancelled_def emit_completed_with_error_in_idle_def)
    with step Failing show ?thesis
      by (auto intro: simI [OF fails_cancelled] simI [OF cancel_stays])
  qed (use True assms in \<open>auto simp: phase_defs\<close>)
qed

lemma io_simulates:
  assumes "in_phase p j" and "io_event e"
  shows "\<exists>j'. sj_step j e = Inr j' \<and> (\<exists>p'. phase_step p e p' \<and> in_phase p' j')"
proof -
  have "\<exists>j'. sj_step j e = Inr j' \<and> in_phase p j'"
    using assms
    by (cases e; cases p)
      (auto simp: phase_defs read_child_stdout_def read_child_stderr_def write_child_stdin_def
        split: option.splits)
  with assms(2) show ?thesis by (blast intro: io)
qed

text \<open>The simulation: the code moves as the specification says, or aborts in one of two phases.\<close>

lemma sj_step_simulates:
  assumes "in_phase p j"
  shows "case sj_step j e of
      Inl x \<Rightarrow> e = IdleDispatch \<and> (p = Raced \<or> p = Twice)
    | Inr j' \<Rightarrow> \<exists>p'. phase_step p e p' \<and> in_phase p' j'"
proof (cases e)
  case IdleDispatch
  with idle_simulates [OF assms] show ?thesis by (auto split: sum.splits)
next
  case (ChildExits st o1 o2)
  show ?thesis
  proof (cases "child_watch_source j")
    case True
    with exit_simulates [OF assms, of st o1 o2] show ?thesis by (auto simp: ChildExits)
  next
    case False
    then have "p \<notin> {Running, Cancelling}" using assms by (auto simp: attached_def)
    with False assms show ?thesis by (auto simp: ChildExits intro: simI [OF exit_stays])
  qed
next
  case CancelMethod
  with cancel_simulates [OF assms] show ?thesis by auto
qed (use io_simulates [OF assms, of e] in auto)

text \<open>Cancelled at some time: the phases only \<open>Cancel\<close> leads to.\<close>

definition cancel_phase :: "sj_phase \<Rightarrow> bool" where
  "cancel_phase p \<longleftrightarrow> p \<in> {Cancelling, FailingCancelled, Raced, Twice}"

lemma cancel_phase_step: "phase_step p e q \<Longrightarrow> cancel_phase q \<Longrightarrow> cancel_phase p \<or> e = CancelMethod"
  by (erule phase_step.cases) (auto simp: cancel_phase_def)

lemma sj_run_simulates:
  assumes "in_phase p j"
  shows "case run_steps sj_step j es of
      Inl x \<Rightarrow> cancel_phase p \<or> CancelMethod \<in> set es
    | Inr j' \<Rightarrow> \<exists>p'. in_phase p' j' \<and> (cancel_phase p' \<longrightarrow> cancel_phase p \<or> CancelMethod \<in> set es)"
  using assms
proof (induction es arbitrary: p j)
  case (Cons e es)
  show ?case
  proof (cases "sj_step j e")
    case (Inl x)
    then show ?thesis using sj_step_simulates [OF Cons.prems, of e] by (auto simp: cancel_phase_def)
  next
    case (Inr k)
    then obtain q where q: "phase_step p e q" "in_phase q k"
      using sj_step_simulates [OF Cons.prems, of e] by auto
    show ?thesis
      using Cons.IH [OF q(2)] cancel_phase_step [OF q(1)] Inr by (auto split: sum.splits)
  qed
qed auto

lemma new_job_phase:
  "in_phase (if c \<or> isl (spawn argv) then Failing else Running)
     (storage_spawned_job_new spawn argv input uid euid c)"
  by (auto simp: storage_spawned_job_new_def storage_spawned_job_constructed_def phase_defs
      storage_spawned_job_init_def emit_completed_with_error_in_idle_def job.defs job_new_def Let_def
      split: sum.splits)

lemma in_phase_completions: "in_phase p j \<Longrightarrow> length (sj_completions j) \<le> 1"
  by (cases p) (auto simp: phase_defs)

section \<open>What the child wrote and read\<close>

definition out_of :: "sj_event \<Rightarrow> string" where
  "out_of e = (case e of StdoutReadable s \<Rightarrow> s | _ \<Rightarrow> [])"

definition err_of :: "sj_event \<Rightarrow> string" where
  "err_of e = (case e of StderrReadable s \<Rightarrow> s | _ \<Rightarrow> [])"

text \<open>A started child that has been read up to \<open>out\<close> and \<open>serr\<close>.\<close>

definition collecting :: "spawned_job \<Rightarrow> string \<Rightarrow> string \<Rightarrow> bool" where
  "collecting j out serr \<longleftrightarrow>
     child_stdout_channel j \<and> child_stderr_channel j \<and> child_stdout j = Some out \<and> child_stderr j = Some serr"

definition same_job :: "spawned_job \<Rightarrow> spawned_job \<Rightarrow> bool" where
  "same_job j k \<longleftrightarrow> sj_argv k = sj_argv j \<and> child_pid k = child_pid j \<and> terminated k = terminated j \<and>
     idle k = idle j \<and> refs k = refs j \<and> has_object k = has_object j \<and>
     sj_completions k = sj_completions j \<and> child_watch_source k = child_watch_source j \<and>
     cancelled k = cancelled j \<and> cancelable k = cancelable j \<and> cancel_connected k = cancel_connected j"

lemma same_job_trans: "same_job i j \<Longrightarrow> same_job j k \<Longrightarrow> same_job i k"
  by (simp add: same_job_def)

lemma same_job_refl: "same_job j j"
  by (simp add: same_job_def)

lemma io_run_collects:
  assumes "\<forall>e \<in> set es. io_event e" and "collecting j out serr"
  shows "\<exists>k. run_steps sj_step j es = Inr k \<and> same_job j k \<and>
    collecting k (out @ concat (map out_of es)) (serr @ concat (map err_of es))"
  using assms
proof (induction es arbitrary: j out serr)
  case Nil
  then show ?case by (simp add: same_job_refl)
next
  case (Cons e es)
  have "\<exists>k. sj_step j e = Inr k \<and> same_job j k \<and> collecting k (out @ out_of e) (serr @ err_of e)"
    using Cons.prems
    by (cases e) (auto simp: collecting_def same_job_def out_of_def err_of_def read_child_stdout_def
        read_child_stderr_def write_child_stdin_def split: option.splits)
  then obtain k where k: "sj_step j e = Inr k" "same_job j k"
      "collecting k (out @ out_of e) (serr @ err_of e)" by blast
  show ?case
    using Cons.IH [OF _ k(3)] Cons.prems(1) k same_job_trans [OF k(2)] by auto
qed

text \<open>The input: what is in the pipe and what is left are the input string.\<close>

definition feeding :: "string \<Rightarrow> spawned_job \<Rightarrow> bool" where
  "feeding s j \<longleftrightarrow>
     (\<exists>rest. input_string_cursor j = Some rest \<and> stdin_pipe j @ rest = s \<and> (child_stdin j \<or> rest = []))"

lemma feeding_step:
  assumes "feeding s j" and "io_event e" and "sj_step j e = Inr k"
  shows "feeding s k"
  using assms
  by (cases e) (auto simp: feeding_def read_child_stdout_def read_child_stderr_def write_child_stdin_def
      split: if_splits option.splits)

lemma feeding_run:
  "\<forall>e \<in> set es. io_event e \<Longrightarrow> feeding s j \<Longrightarrow> run_steps sj_step j es = Inr k \<Longrightarrow> feeding s k"
proof (induction es arbitrary: j)
  case (Cons e es)
  then obtain j' where "sj_step j e = Inr j'" "run_steps sj_step j' es = Inr k"
    by (auto split: sum.splits)
  with Cons show ?case using feeding_step [of s j e j'] by auto
qed simp

lemma new_job_started:
  fixes input uid euid
  assumes "spawn argv = Inr pid"
  defines "j \<equiv> storage_spawned_job_new spawn argv input uid euid False"
  shows "collecting j [] []" and "sj_argv j = argv" and "child_pid j = Some pid" and "terminated j = []"
    and "input = Some s \<Longrightarrow> feeding s j"
  using assms(1)
  by (auto simp: j_def storage_spawned_job_new_def storage_spawned_job_constructed_def collecting_def
      storage_spawned_job_init_def job.defs job_new_def Let_def feeding_def)

lemma new_job_running:
  "spawn argv = Inr pid \<Longrightarrow> in_phase Running (storage_spawned_job_new spawn argv input uid euid False)"
  using new_job_phase [of False spawn argv] by simp

lemma same_job_running:
  "same_job j k \<Longrightarrow> collecting k out serr \<Longrightarrow> in_phase Running j \<Longrightarrow> in_phase Running k"
  by (auto simp: same_job_def collecting_def phase_defs)

text \<open>A job that has run a child for a while.\<close>

lemma io_run_running:
  assumes "\<forall>e \<in> set es. io_event e" and "spawn argv = Inr pid"
  obtains k where
    "run_steps sj_step (storage_spawned_job_new spawn argv input uid euid False) es = Inr k"
    "in_phase Running k" "sj_argv k = argv" "child_pid k = Some pid" "terminated k = []"
    "collecting k (concat (map out_of es)) (concat (map err_of es))"
proof -
  note st = new_job_started [where spawn = spawn and argv = argv and input = input and uid = uid and euid = euid, OF assms(2)]
  obtain k where k: "run_steps sj_step (storage_spawned_job_new spawn argv input uid euid False) es = Inr k"
      "same_job (storage_spawned_job_new spawn argv input uid euid False) k"
      "collecting k (concat (map out_of es)) (concat (map err_of es))"
    using io_run_collects [OF assms(1) st(1)] by auto
  show ?thesis
    using that [OF k(1) same_job_running [OF k(2,3) new_job_running [where spawn = spawn and argv = argv, OF assms(2)]]] k st
    by (simp add: same_job_def)
qed

section \<open>Becoming another user\<close>

text \<open>
  \<open>child_setup\<close>, run in the child between \<open>fork\<close> and \<open>exec\<close>: the calls that
  change the identity, in order, up to the first that fails. \<open>getpw\<close> is \<open>getpwuid\<close>
  (name, uid and gid). The kernel keeps the credentials of the child: it refuses a call or changes
  them as the manual pages of the calls say, where an id of \<open>-1\<close> leaves what it is for.
\<close>

record passwd =
  pw_name :: string
  pw_uid :: u32
  pw_gid :: u32

record credentials =
  real_uid :: u32
  effective_uid :: u32
  real_gid :: u32
  effective_gid :: u32
  supplementary :: "u32 list"

datatype setup_call =
    SetGroupsNone | InitGroups string u32 | SetRegid u32 u32 | SetReuid u32 u32

text \<open>\<open>refuses\<close> are the kernel's errors, \<open>member_of\<close> the groups database.\<close>

record kernel_users =
  refuses :: "credentials \<Rightarrow> setup_call \<Rightarrow> bool"
  member_of :: "string \<Rightarrow> u32 list"

fun granted :: "kernel_users \<Rightarrow> setup_call \<Rightarrow> credentials \<Rightarrow> credentials" where
  "granted k SetGroupsNone cred = cred\<lparr>supplementary := []\<rparr>"
| "granted k (InitGroups user gid) cred = cred\<lparr>supplementary := gid # member_of k user\<rparr>"
| "granted k (SetRegid r e) cred =
     cred\<lparr>real_gid := (if r = -1 then real_gid cred else r), effective_gid := (if e = -1 then effective_gid cred else e)\<rparr>"
| "granted k (SetReuid r e) cred =
     cred\<lparr>real_uid := (if r = -1 then real_uid cred else r), effective_uid := (if e = -1 then effective_uid cred else e)\<rparr>"

text \<open>The child goes on to \<open>exec\<close> with its credentials, or ends in \<open>abort\<close>.\<close>

datatype setup_result = Exec credentials | Abort

fun perform :: "kernel_users \<Rightarrow> setup_call list \<Rightarrow> credentials \<Rightarrow> setup_result" where
  "perform k [] cred = Exec cred"
| "perform k (c # cs) cred = (if refuses k cred c then Abort else perform k cs (granted k c cred))"

definition child_setup ::
  "(u32 \<Rightarrow> passwd option) \<Rightarrow> kernel_users \<Rightarrow> spawned_job \<Rightarrow> credentials \<Rightarrow> setup_result" where
  "child_setup getpw k self cred =
     (if run_as_uid self = real_uid cred \<and> run_as_euid self = effective_uid cred then Exec cred
      else case getpw (run_as_euid self) of
        None \<Rightarrow> Abort
      | Some pwe \<Rightarrow>
          (case getpw (run_as_uid self) of
             None \<Rightarrow> Abort
           | Some pw \<Rightarrow>
               perform k
                 [SetGroupsNone, InitGroups (pw_name pw) (pw_gid pw),
                  SetRegid (pw_gid pw) (pw_gid pwe), SetReuid (pw_uid pw) (run_as_euid self)] cred))"

lemma perform_grants: "perform k cs cred = Exec cred' \<Longrightarrow> cred' = fold (granted k) cs cred"
  by (induction cs arbitrary: cred) (auto split: if_splits)

lemma perform_as_root:
  assumes "\<forall>c call. effective_uid c = 0 \<longrightarrow> \<not> refuses k c call" and "effective_uid cred = 0"
    and "\<forall>call \<in> set (butlast cs). \<forall>c. effective_uid (granted k call c) = effective_uid c"
  shows "perform k cs cred \<noteq> Abort"
  using assms(2,3)
proof (induction cs arbitrary: cred)
  case (Cons c cs)
  then show ?case using assms(1) by (cases cs) auto
qed simp

section \<open>Properties\<close>

text \<open>
  C11: Whatever the order in which the main loop serves the idle sources, the pipes and the exit
  of the child, and however the spawn itself ends, a spawned job aborts only if it has been
  cancelled, and reports its completion at most once.
\<close>

theorem spawned_job_aborts_only_when_cancelled:
  "case run_steps sj_step (storage_spawned_job_new spawn argv input uid euid c) es of
     Inl x \<Rightarrow> CancelMethod \<in> set es
   | Inr j \<Rightarrow> length (sj_completions j) \<le> 1"
proof -
  have "\<not> cancel_phase (if c \<or> isl (spawn argv) then Failing else Running)"
    by (simp add: cancel_phase_def)
  with sj_run_simulates [OF new_job_phase, where es = es] show ?thesis
    by (fastforce dest: in_phase_completions split: sum.splits)
qed

text \<open>
  A cancelled job can take the daemon down. If the child exits before the idle source that
  \<open>on_cancelled\<close> attached is served, the source finds the collected output freed; and if the
  command could not be spawned, both idle sources complete the job, and the second fails the
  daemon's assertion that the job still has an object.
\<close>

theorem cancelled_job_aborts:
  "run_steps sj_step (storage_spawned_job_new (\<lambda>_. Inr pid) argv input uid euid False)
     [CancelMethod, ChildExits st o1 o2, IdleDispatch] = Inl (NullDereference ''standard_output->str'')
   \<and> run_steps sj_step (storage_spawned_job_new (\<lambda>_. Inl e) argv input uid euid False)
       [CancelMethod, IdleDispatch, IdleDispatch] = Inl (AssertFailed ''object != NULL'')"
  by (cases o1; cases o2)
    (simp_all add: storage_spawned_job_new_def storage_spawned_job_constructed_def job.defs job_new_def
      storage_spawned_job_init_def Let_def handle_cancel_def on_cancelled_def
      emit_completed_with_error_in_idle_def handler_defs completed_default_verdict
      spawned_job_completed_default_def split: option.splits)

text \<open>
  C36: A job that is not cancelled and whose child is read until it exits completes exactly once.
  It succeeds if and only if the child exited with status 0, and then its message is what the
  child wrote to its standard error, up to a NUL. Otherwise the message says how the child ended and
  repeats its output, with the standard error under \<open>stdout:\<close> and the standard output under
  \<open>stderr:\<close>. That is what the code does: the documentation of the signal promises the standard error
  as the message of a failure as well, so the failing case diverges from it. All resources are
  released and the child is not signalled.
\<close>

theorem spawned_job_verdict:
  assumes "\<forall>e \<in> set es. io_event e" and "spawn (cmd # args) = Inr pid"
  shows "\<exists>j. run_steps sj_step (storage_spawned_job_new spawn (cmd # args) input uid euid False)
      (es @ [ChildExits st (Some o1) (Some o2)]) = Inr j \<and>
    released j \<and> terminated j = [] \<and>
    (let out = c_string (concat (map out_of es) @ o1); serr = c_string (concat (map err_of es) @ o2) in
     sj_completions j =
       [if exited_ok st then (True, serr)
        else (False, status_prefix cmd st @ status_suffix (Some serr) (Some out))])"
proof -
  obtain k where k: "run_steps sj_step (storage_spawned_job_new spawn (cmd # args) input uid euid False) es = Inr k"
      "in_phase Running k" "sj_argv k = cmd # args" "terminated k = []"
      "collecting k (concat (map out_of es)) (concat (map err_of es))"
    using io_run_running [where spawn = spawn, OF assms] by metis
  let ?out = "concat (map out_of es) @ o1" and ?serr = "concat (map err_of es) @ o2"
  have "\<exists>j. child_watch_cb k st (Some o1) (Some o2) = Inr j \<and> released j \<and> terminated j = [] \<and>
      sj_completions j = [case check_status_and_output cmd st (Some (c_string ?serr)) (Some (c_string ?out)) of
        None \<Rightarrow> (True, c_string ?serr) | Some e \<Rightarrow> (False, err_message e)]"
    using k(2-5)
    by (auto simp: handler_defs completed_default_verdict argv0_def collecting_def phase_defs)
  moreover have "child_watch_source k" using k(2) by (simp add: attached_def)
  ultimately show ?thesis
    using k(1)
    by (auto simp: run_steps_append check_status_and_output_def exited_ok_def udisks_error_def)
qed

lemma spawned_job_verdict_witness:
  "\<exists>j. run_steps sj_step (storage_spawned_job_new (\<lambda>_. Inr 7) [''lvremove'', ''-f''] None 0 0 False)
      ([StdoutReadable ''a'', StderrReadable ''b''] @ [ChildExits 256 (Some ''c'') (Some [CHR 0x00, CHR ''d''])]) = Inr j \<and>
    sj_completions j =
      [(False, status_prefix ''lvremove'' 256 @ status_suffix (Some ''b'') (Some ''ac''))]"
proof -
  have "\<not> exited_ok 256" by code_simp
  then show ?thesis
    using spawned_job_verdict [of "[StdoutReadable ''a'', StderrReadable ''b'']" "\<lambda>_. Inr 7"
        "''lvremove''" "[''-f'']" 7 None 0 0 256 "''c''" "[CHR 0x00, CHR ''d'']"]
    by (auto simp: out_of_def err_of_def c_string_def)
qed

text \<open>
  A job cancelled while its child runs, and whose idle source is served before the child
  exits, completes once, unsuccessfully, as cancelled, and sends the child a \<open>SIGTERM\<close>.
\<close>

theorem cancelled_job_terminates_child:
  assumes "\<forall>e \<in> set es. io_event e" and "\<forall>e \<in> set fs. io_event e" and "spawn argv = Inr pid"
  shows "\<exists>j. run_steps sj_step (storage_spawned_job_new spawn argv input uid euid False)
      (es @ CancelMethod # fs @ [IdleDispatch]) = Inr j \<and>
    sj_completions j = [(False, ''Operation was cancelled (g-io-error-quark, 19)'')] \<and>
    terminated j = [pid] \<and> released j"
proof -
  obtain k where k: "run_steps sj_step (storage_spawned_job_new spawn argv input uid euid False) es = Inr k"
      "in_phase Running k" "child_pid k = Some pid" "terminated k = []"
      "collecting k (concat (map out_of es)) (concat (map err_of es))"
    using io_run_running [where spawn = spawn, OF assms(1,3)] by metis
  let ?k = "on_cancelled (k\<lparr>cancelled := True\<rparr>)"
  have c: "sj_step k CancelMethod = Inr ?k"
    using k(2) by (simp add: handle_cancel_def open_job_def Let_def)
  have "collecting ?k (concat (map out_of es)) (concat (map err_of es))"
    using k(5) by (simp add: collecting_def on_cancelled_def emit_completed_with_error_in_idle_def)
  then obtain l where l: "run_steps sj_step ?k fs = Inr l" "same_job ?k l"
      "collecting l (concat (map out_of es) @ concat (map out_of fs)) (concat (map err_of es) @ concat (map err_of fs))"
    using io_run_collects [OF assms(2)] by blast
  have "idle l = [cancelled_error]" "refs l = 2" "has_object l" "sj_completions l = []"
      "child_pid l = Some pid" "terminated l = []"
    using l(2) k(2-4)
    by (simp_all add: same_job_def on_cancelled_def emit_completed_with_error_in_idle_def phase_defs)
  then have "\<exists>j. emit_completed_in_idle_cb l = Inr j \<and> terminated j = [pid] \<and> released j \<and>
      sj_completions j = [(False, error_report cancelled_error)]"
    using l(3) by (auto simp: handler_defs completed_default_error collecting_def released_def)
  moreover have "error_report cancelled_error = ''Operation was cancelled (g-io-error-quark, 19)''"
    by code_simp
  ultimately show ?thesis using k(1) c l(1) by (auto simp: run_steps_append)
qed

lemma cancelled_job_terminates_child_witness:
  "\<exists>j. run_steps sj_step (storage_spawned_job_new (\<lambda>_. Inr 7) [''pvmove''] None 0 0 False)
      ([StdoutReadable ''1%''] @ CancelMethod # [StderrReadable ''x''] @ [IdleDispatch]) = Inr j \<and>
    terminated j = [7]"
  using cancelled_job_terminates_child [of "[StdoutReadable ''1%'']" "[StderrReadable ''x'']"
      "\<lambda>_. Inr 7" "[''pvmove'']" 7 None 0 0]
  by auto

text \<open>
  The input string reaches the child unchanged and in order: while the job runs, what has
  been written to the pipe and what is left make up the input, and the pipe is closed only when
  nothing is left, however little each write takes.
\<close>

theorem input_string_delivered:
  assumes "\<forall>e \<in> set es. io_event e" and "spawn argv = Inr pid"
  shows "\<exists>j rest. run_steps sj_step (storage_spawned_job_new spawn argv (Some s) uid euid False) es = Inr j \<and>
    stdin_pipe j @ rest = s \<and> (child_stdin j \<or> stdin_pipe j = s)"
proof -
  obtain k where k: "run_steps sj_step (storage_spawned_job_new spawn argv (Some s) uid euid False) es = Inr k"
    using io_run_running [where spawn = spawn, OF assms] by metis
  have "feeding s (storage_spawned_job_new spawn argv (Some s) uid euid False)"
    using new_job_started(5) [where spawn = spawn, OF assms(2)] by simp
  from feeding_run [OF assms(1) this k] k show ?thesis by (auto simp: feeding_def)
qed

lemma input_string_delivered_witness:
  "\<exists>j rest. run_steps sj_step (storage_spawned_job_new (\<lambda>_. Inr 7) [''cat''] (Some ''secret'') 0 0 False)
      [StdinWritable 4, StdinWritable 100, StdinWritable 1] = Inr j \<and>
    stdin_pipe j @ rest = ''secret'' \<and> (child_stdin j \<or> stdin_pipe j = ''secret'')"
  by (rule input_string_delivered) simp_all

text \<open>
  C37: The command runs as the user asked for or not at all: its real and effective user are those of
  the job. When these are not the daemon's own, its groups are those of the real user in the
  databases and none of the daemon's, its real group is that user's and its effective group that of
  the effective user; when they are the daemon's own, it keeps the daemon's credentials, groups
  included. A child of a daemon that is root gets there when both users are known and the kernel
  refuses root nothing: the calls come in an order in which none lacks the privilege it needs.
\<close>

theorem child_setup_identity:
  assumes "\<forall>u pw. getpw u = Some pw \<longrightarrow> pw_uid pw = u \<and> u \<noteq> -1 \<and> pw_gid pw \<noteq> -1"
  shows "(case child_setup getpw k self cred of
      Abort \<Rightarrow> True
    | Exec cred' \<Rightarrow>
        real_uid cred' = run_as_uid self \<and> effective_uid cred' = run_as_euid self \<and>
        (if run_as_uid self = real_uid cred \<and> run_as_euid self = effective_uid cred then cred' = cred
         else \<exists>pw pwe. getpw (run_as_uid self) = Some pw \<and> getpw (run_as_euid self) = Some pwe \<and>
           supplementary cred' = pw_gid pw # member_of k (pw_name pw) \<and>
           real_gid cred' = pw_gid pw \<and> effective_gid cred' = pw_gid pwe)) \<and>
    (effective_uid cred = 0 \<and> (\<forall>c call. effective_uid c = 0 \<longrightarrow> \<not> refuses k c call) \<and>
       getpw (run_as_uid self) \<noteq> None \<and> getpw (run_as_euid self) \<noteq> None \<longrightarrow>
     child_setup getpw k self cred \<noteq> Abort)"
proof (cases "run_as_uid self = real_uid cred \<and> run_as_euid self = effective_uid cred")
  case True
  then show ?thesis by (simp add: child_setup_def)
next
  case other: False
  show ?thesis
  proof (cases "getpw (run_as_euid self) = None \<or> getpw (run_as_uid self) = None")
    case True
    with other have "child_setup getpw k self cred = Abort" by (auto simp: child_setup_def split: option.split)
    with True show ?thesis by auto
  next
    case False
    then obtain pw pwe where pw: "getpw (run_as_uid self) = Some pw" "getpw (run_as_euid self) = Some pwe" by auto
    then have "pw_uid pw = run_as_uid self" "run_as_uid self \<noteq> -1" "run_as_euid self \<noteq> -1"
      "pw_gid pw \<noteq> -1" "pw_gid pwe \<noteq> -1" using assms by blast+
    note ids = this
    let ?calls = "[SetGroupsNone, InitGroups (pw_name pw) (pw_gid pw), SetRegid (pw_gid pw) (pw_gid pwe),
        SetReuid (pw_uid pw) (run_as_euid self)]"
    have run: "child_setup getpw k self cred = perform k ?calls cred"
      using pw other unfolding child_setup_def by (simp only: option.case if_False)
    have "perform k ?calls cred \<noteq> Abort"
      if "effective_uid cred = 0" "\<forall>c call. effective_uid c = 0 \<longrightarrow> \<not> refuses k c call"
      using that by (intro perform_as_root) simp_all
    moreover have "real_uid cred' = run_as_uid self \<and> effective_uid cred' = run_as_euid self \<and>
        supplementary cred' = pw_gid pw # member_of k (pw_name pw) \<and> real_gid cred' = pw_gid pw \<and>
        effective_gid cred' = pw_gid pwe" if "perform k ?calls cred = Exec cred'" for cred'
      using perform_grants [OF that] ids by simp
    ultimately show ?thesis using pw unfolding run if_not_P [OF other]
      by (cases "perform k ?calls cred") (simp_all del: perform.simps, blast)
  qed
qed

text \<open>A kernel that refuses these calls to all but root.\<close>

definition root_only :: kernel_users where
  "root_only = \<lparr>refuses = (\<lambda>c _. effective_uid c \<noteq> 0), member_of = (\<lambda>_. [27])\<rparr>"

lemma child_setup_identity_witness:
  "let getpw = (\<lambda>u. if u = 1000 then Some \<lparr>pw_name = ''u'', pw_uid = 1000, pw_gid = 100\<rparr> else None);
       cred = \<lparr>real_uid = 0, effective_uid = 0, real_gid = 0, effective_gid = 0, supplementary = [0, 4]\<rparr>
   in \<exists>cred'. child_setup getpw root_only (storage_spawned_job_init [''id''] None 1000 1000 False) cred = Exec cred' \<and>
     effective_uid cred' = 1000 \<and> supplementary cred' = [100, 27]"
proof -
  let ?getpw = "\<lambda>u. if u = 1000 then Some \<lparr>pw_name = ''u'', pw_uid = 1000, pw_gid = 100\<rparr> else None"
  let ?cred = "\<lparr>real_uid = 0, effective_uid = 0, real_gid = 0, effective_gid = 0, supplementary = [0, 4]\<rparr>"
  let ?job = "storage_spawned_job_init [''id''] None 1000 1000 False"
  have "\<forall>u pw. ?getpw u = Some pw \<longrightarrow> pw_uid pw = u \<and> u \<noteq> -1 \<and> pw_gid pw \<noteq> -1"
    by (auto split: if_splits)
  from child_setup_identity [OF this, where k = root_only and self = ?job and cred = ?cred] show ?thesis
    by (auto simp: root_only_def storage_spawned_job_init_def job.defs split: setup_result.splits)
qed

end
