(* ===== verification/Daemon.thy ===== *)
theory Daemon
  imports Spawned_Job
begin

text \<open>
  The daemon object, \<open>src/daemon.c\<close>: the bus name, the count of clients and of jobs and
  the decision to finish, the launch and the completion of jobs over the object manager of
  \<open>Object_Server\<close>, the paths of resources, and the reader that collects what
  \<open>storaged-lvm-helper\<close> prints.
\<close>

section \<open>State\<close>

text \<open>
  \<open>name_owner_id\<close> is true for a non-zero id. \<open>jobs\<close> are all jobs launched so far,
  with the instance that was exported; the static counter \<open>job_id\<close> is part of the state.
\<close>

datatype any_job = SpawnedJob spawned_job | ThreadedJob threaded_job

record daemon = server +
  name_owner_id :: bool
  name_owned :: bool
  num_clients :: u32
  num_jobs :: u32
  persist :: bool
  resource_dir :: "string option"
  job_id :: u32
  next_thing :: nat
  jobs :: "(thing \<times> any_job) list"

definition storage_daemon_init :: "bool \<Rightarrow> string option \<Rightarrow> daemon" where
  "storage_daemon_init persist_prop dir =
     \<lparr>objects = [], emitted = [], name_owner_id = False, name_owned = False, num_clients = 0,
      num_jobs = 0, persist = persist_prop, resource_dir = dir, job_id = 0, next_thing = 0,
      jobs = []\<rparr>"

section \<open>Clients, the bus name, and the end\<close>

definition is_finished :: "daemon \<Rightarrow> bool" where
  "is_finished self \<longleftrightarrow>
     \<not> persist self \<and> \<not> name_owned self \<and> num_clients self = 0 \<and> num_jobs self = 0"

definition maybe_finished :: "daemon \<Rightarrow> daemon" where
  "maybe_finished self =
     (if is_finished self then self\<lparr>emitted := emitted self @ [Finished]\<rparr> else self)"

definition on_name_lost :: "daemon \<Rightarrow> daemon" where
  "on_name_lost self = maybe_finished (self\<lparr>name_owned := False\<rparr>)"

definition on_name_acquired :: "daemon \<Rightarrow> daemon" where
  "on_name_acquired self = self\<lparr>name_owned := True\<rparr>"

definition on_client_appeared :: "daemon \<Rightarrow> daemon" where
  "on_client_appeared self = self\<lparr>num_clients := num_clients self + 1\<rparr>"

definition on_client_disappeared :: "daemon \<Rightarrow> abort + daemon" where
  "on_client_disappeared self =
     (if num_clients self = 0 then Inl (AssertFailed ''self->num_clients > 0'')
      else
        let self = self\<lparr>num_clients := num_clients self - 1\<rparr>;
            self = (if 0 < num_clients self then self
                    else if \<not> persist self \<and> name_owner_id self
                    then self\<lparr>name_owner_id := False, name_owned := False\<rparr>
                    else self)
        in Inr (maybe_finished self))"

text \<open>The manager is ready: it is published and the daemon asks for its name.\<close>

definition on_manager_ready :: "daemon \<Rightarrow> thing \<Rightarrow> daemon" where
  "on_manager_ready self manager =
     (publish self (Some ''/org/freedesktop/UDisks2/Manager'') False manager)\<lparr>name_owner_id := True\<rparr>"

section \<open>Resources\<close>

text \<open>\<open>g_build_filename\<close> with one separator between its parts; the two directories are those of the build.\<close>

definition storage_daemon_get_resource_path ::
  "string \<Rightarrow> string \<Rightarrow> daemon \<Rightarrow> bool \<Rightarrow> string \<Rightarrow> string" where
  "storage_daemon_get_resource_path lib_dir data_dir self arch_specific file =
     (case resource_dir self of
        Some dir \<Rightarrow> dir @ ''/'' @ file
      | None \<Rightarrow>
          if arch_specific then lib_dir @ ''/storaged/'' @ file
          else data_dir @ ''/storaged/'' @ file)"

section \<open>Jobs\<close>

definition on_job_completed :: "daemon \<Rightarrow> thing \<Rightarrow> abort + daemon" where
  "on_job_completed self job =
     (case path_of self job of
        None \<Rightarrow> Inl (AssertFailed ''object != NULL'')
      | Some path \<Rightarrow>
          let self = self\<lparr>objects := ht_remove (objects self) path\<rparr> in
          if num_jobs self = 0 then Inl (AssertFailed ''self->num_jobs > 0'')
          else Inr (maybe_finished (self\<lparr>num_jobs := num_jobs self - 1\<rparr>)))"

text \<open>
  \<open>%d\<close> prints the counter as a signed number. A path that is not an object path makes no
  object: nothing is exported.
\<close>

definition job_path :: "u32 \<Rightarrow> string" where
  "job_path n = ''/org/freedesktop/UDisks2/jobs/'' @ dec_int (sint n)"

definition export_job :: "daemon \<Rightarrow> thing \<Rightarrow> any_job \<Rightarrow> daemon" where
  "export_job self t j =
     self\<lparr>objects := (if valid_object_path (job_path (job_id self))
                     then ht_insert (objects self) (job_path (job_id self)) [t] else objects self),
          job_id := job_id self + 1,
          next_thing := next_thing self + 1,
          num_jobs := num_jobs self + 1,
          jobs := jobs self @ [(t, j)]\<rparr>"

text \<open>
  The arguments of a launch. The object path of the thing the job is about is looked up with
  \<open>get_path\<close>; \<open>spawn\<close> is the kernel's answer to the spawn.
\<close>

definition storage_daemon_launch_spawned_jobv ::
  "(thing \<Rightarrow> string option) \<Rightarrow> (string list \<Rightarrow> gerror + nat) \<Rightarrow> daemon \<Rightarrow> thing option \<Rightarrow> string \<Rightarrow>
   u32 \<Rightarrow> bool \<Rightarrow> u32 \<Rightarrow> u32 \<Rightarrow> string option \<Rightarrow> string list \<Rightarrow> daemon \<times> thing" where
  "storage_daemon_launch_spawned_jobv get_path spawn self object_or_interface job_operation uid
     cancellable run_as run_as_e input argv =
     (let t = Thing (next_thing self) StorageSpawnedJob;
          job = storage_spawned_job_new spawn argv input run_as run_as_e cancellable;
          job = storage_job_add_thing get_path job object_or_interface;
          job = job\<lparr>operation := job_operation, started_by_uid := uid,
                    has_object := valid_object_path (job_path (job_id self))\<rparr>
      in (export_job self t (SpawnedJob job), t))"

text \<open>
  \<open>storage_daemon_launch_spawned_job\<close>: the arguments are those of the call up to the first \<open>NULL\<close>;
  without a first one no job is launched.
\<close>

definition storage_daemon_launch_spawned_job ::
  "(thing \<Rightarrow> string option) \<Rightarrow> (string list \<Rightarrow> gerror + nat) \<Rightarrow> daemon \<Rightarrow> thing option \<Rightarrow> string \<Rightarrow>
   u32 \<Rightarrow> bool \<Rightarrow> u32 \<Rightarrow> u32 \<Rightarrow> string option \<Rightarrow> string option \<Rightarrow> string option list \<Rightarrow>
   daemon \<times> thing option" where
  "storage_daemon_launch_spawned_job get_path spawn self object_or_interface job_operation uid
     cancellable run_as run_as_e input first_arg var_args =
     (if first_arg = None then (self, None)
      else map_prod id Some
        (storage_daemon_launch_spawned_jobv get_path spawn self object_or_interface job_operation uid
           cancellable run_as run_as_e input (strv (first_arg # var_args))))"

lemma strv_arguments: "strv (map Some argv @ None # junk) = argv"
  by (induction argv) simp_all

lemma launch_spawned_job_arguments:
  "storage_daemon_launch_spawned_job get_path spawn self obj op uid c ru re input (Some a) (map Some as @ None # junk) =
   map_prod id Some (storage_daemon_launch_spawned_jobv get_path spawn self obj op uid c ru re input (a # as))"
  using strv_arguments [of "a # as" junk] by (simp add: storage_daemon_launch_spawned_job_def)

definition storage_daemon_launch_threaded_job ::
  "(thing \<Rightarrow> string option) \<Rightarrow> daemon \<Rightarrow> thing option \<Rightarrow> string \<Rightarrow> u32 \<Rightarrow> job_func \<Rightarrow> bool \<Rightarrow>
   daemon \<times> thing" where
  "storage_daemon_launch_threaded_job get_path self object_or_interface job_operation uid f cancellable =
     (let t = Thing (next_thing self) StorageThreadedJob;
          job = storage_threaded_job_new f cancellable;
          job = storage_job_add_thing get_path job object_or_interface;
          job = job\<lparr>cancelable := True, operation := job_operation, started_by_uid := uid\<rparr>
      in (export_job self t (ThreadedJob job), t))"

text \<open>An event of a job; the daemon's handler runs when the job emits \<open>completed\<close>.\<close>

definition find_job :: "daemon \<Rightarrow> thing \<Rightarrow> any_job option" where
  "find_job self t = map_of (jobs self) t"

definition set_job :: "thing \<Rightarrow> any_job \<Rightarrow> (thing \<times> any_job) list \<Rightarrow> (thing \<times> any_job) list" where
  "set_job t j js = map (\<lambda>(u, k). if u = t then (u, j) else (u, k)) js"

fun job_completions :: "any_job \<Rightarrow> (bool \<times> string) list" where
  "job_completions (SpawnedJob j) = sj_completions j"
| "job_completions (ThreadedJob j) = completions j"

datatype any_job_event = SpawnedEvent sj_event | ThreadedEvent thread_event

fun any_job_step :: "any_job \<Rightarrow> any_job_event \<Rightarrow> abort + any_job" where
  "any_job_step (SpawnedJob j) (SpawnedEvent e) = map_sum id SpawnedJob (sj_step j e)"
| "any_job_step (ThreadedJob j) (ThreadedEvent e) = map_sum id ThreadedJob (threaded_step j e)"
| "any_job_step j _ = Inr j"

definition on_job_event :: "daemon \<Rightarrow> thing \<Rightarrow> any_job_event \<Rightarrow> abort + daemon" where
  "on_job_event self t e =
     (case find_job self t of
        None \<Rightarrow> Inr self
      | Some j \<Rightarrow>
          ebind (any_job_step j e) (\<lambda>j'.
          let self' = self\<lparr>jobs := set_job t j' (jobs self)\<rparr> in
          if job_completions j' = job_completions j then Inr self'
          else on_job_completed self' t))"

section \<open>Reading the answer of a helper\<close>

text \<open>
  \<open>storage_daemon_spawn_for_variant\<close>: a program named without a slash is looked up among
  the resources. When the spawn fails the callback gets the error at once; otherwise a reader
  collects the output until the child exits.
\<close>

record variant_reader =
  reader_pid :: nat
  rd_output :: string

datatype reader_result = ReaderError gerror | ReaderData string

definition resolve_prog :: "string \<Rightarrow> string \<Rightarrow> daemon \<Rightarrow> string list \<Rightarrow> string list" where
  "resolve_prog lib_dir data_dir self argv =
     (case argv of
        [] \<Rightarrow> []
      | prog # args \<Rightarrow>
          if CHR ''/'' \<in> set prog then argv
          else storage_daemon_get_resource_path lib_dir data_dir self True prog # args)"

definition storage_daemon_spawn_for_variant ::
  "string \<Rightarrow> string \<Rightarrow> daemon \<Rightarrow> (string list \<Rightarrow> gerror + nat) \<Rightarrow> string list \<Rightarrow>
   reader_result + variant_reader" where
  "storage_daemon_spawn_for_variant lib_dir data_dir self spawn argv =
     (case spawn (resolve_prog lib_dir data_dir self argv) of
        Inl e \<Rightarrow> Inl (ReaderError e)
      | Inr pid \<Rightarrow> Inr \<lparr>reader_pid = pid, rd_output = []\<rparr>)"

definition variant_reader_child_output :: "string \<Rightarrow> variant_reader \<Rightarrow> variant_reader" where
  "variant_reader_child_output buf data = data\<lparr>rd_output := rd_output data @ buf\<rparr>"

text \<open>\<open>rest\<close> is what \<open>g_io_channel_read_to_end\<close> returned, \<open>None\<close> if not \<open>NORMAL\<close>.\<close>

definition variant_reader_watch_child ::
  "os \<Rightarrow> u32 \<Rightarrow> string option \<Rightarrow> variant_reader \<Rightarrow> reader_result" where
  "variant_reader_watch_child os status rest data =
     (case check_exit_status os status of
        Some e \<Rightarrow> ReaderError e
      | None \<Rightarrow> ReaderData (rd_output data @ (case rest of None \<Rightarrow> [] | Some buf \<Rightarrow> buf)))"

lemma reader_output: "rd_output (fold variant_reader_child_output chunks r) = rd_output r @ concat chunks"
  by (induction chunks arbitrary: r) (simp_all add: variant_reader_child_output_def)

section \<open>The daemon as a machine\<close>

text \<open>
  What the bus, the main loop and the method handlers make the daemon do. \<open>GLib\<close> calls back
  about a name only while the name is being owned.
\<close>

datatype daemon_event =
    NameAcquired | NameLost | ClientAppeared | ClientDisappeared | ManagerReady
  | LaunchSpawned "string list \<Rightarrow> gerror + nat" "thing option" string u32 "string option" "string list"
  | LaunchThreaded "thing option" string u32 job_func
  | JobEvent thing any_job_event

fun daemon_step :: "(thing \<Rightarrow> string option) \<Rightarrow> daemon \<Rightarrow> daemon_event \<Rightarrow> abort + daemon" where
  "daemon_step gp self NameAcquired = Inr (if name_owner_id self then on_name_acquired self else self)"
| "daemon_step gp self NameLost = Inr (if name_owner_id self then on_name_lost self else self)"
| "daemon_step gp self ClientAppeared = Inr (on_client_appeared self)"
| "daemon_step gp self ClientDisappeared = on_client_disappeared self"
| "daemon_step gp self ManagerReady =
     Inr (on_manager_ready (self\<lparr>next_thing := next_thing self + 1\<rparr>)
            (Thing (next_thing self) StorageManager))"
| "daemon_step gp self (LaunchSpawned spawn obj op uid input argv) =
     Inr (fst (storage_daemon_launch_spawned_jobv gp spawn self obj op uid False 0 0 input argv))"
| "daemon_step gp self (LaunchThreaded obj op uid f) =
     Inr (fst (storage_daemon_launch_threaded_job gp self obj op uid f False))"
| "daemon_step gp self (JobEvent t e) = on_job_event self t e"

fun launch :: "daemon_event \<Rightarrow> bool" where
  "launch (LaunchSpawned _ _ _ _ _ _) = True"
| "launch (LaunchThreaded _ _ _ _) = True"
| "launch _ = False"

text \<open>A job function keeps its contract: it sets an error when it fails.\<close>

fun contract_kept :: "daemon_event \<Rightarrow> bool" where
  "contract_kept (LaunchThreaded _ _ _ f) = job_function f"
| "contract_kept _ = True"

section \<open>The paths of jobs\<close>

lemma sint_unat:
  "sint (n::u32) = (if unat n < 2 ^ 31 then int (unat n) else int (unat n) - 2 ^ 32)"
proof -
  have lt: "uint n < 4294967296" using uint_lt2p [of n] by simp
  have "sint n = (uint n + 2147483648) mod 4294967296 - 2147483648"
    by (simp add: sint_uint signed_take_bit_eq_take_bit_shift take_bit_eq_mod)
  also have "\<dots> = (if uint n < 2147483648 then uint n else uint n - 4294967296)"
  proof (cases "uint n < 2147483648")
    case True
    then show ?thesis by simp
  next
    case False
    then have "(uint n - 2147483648 + 4294967296) mod 4294967296 = uint n - 2147483648"
      using lt by (simp only: mod_add_self2) simp
    with False show ?thesis by (simp add: algebra_simps)
  qed
  finally have s: "sint n = (if uint n < 2147483648 then uint n else uint n - 4294967296)" .
  define m where "m = unat n"
  have "uint n = int m" by (simp add: m_def)
  with s show ?thesis by (simp flip: m_def)
qed

lemma sint_small: "unat (n::u32) < 2 ^ 31 \<Longrightarrow> sint n = int (unat n)"
  by (simp add: sint_unat)

lemma job_path_small: "unat n < 2 ^ 31 \<Longrightarrow> job_path n = ''/org/freedesktop/UDisks2/jobs/'' @ dec (unat n)"
  by (simp add: job_path_def sint_small dec_int_def)

lemma dec_path_chars: "list_all path_char (dec n)"
proof -
  have "path_char (digit k)" if "k < 10" for k using that by (simp add: digit_path_char)
  then show ?thesis using set_radix [of 10 n] by (auto simp: list_all_iff)
qed

definition jobs_prefix :: string where
  "jobs_prefix = ''org/freedesktop/UDisks2/jobs/''"

lemma jobs_prefix_elements: "path_elements False (jobs_prefix @ xs) = path_elements False xs"
proof -
  have "path_elements False (''org/freedesktop/UDisks2/jobs'' @ [CHR ''/''] @ xs) = path_elements False xs"
    by (simp add: path_char_def)
  then show ?thesis by (simp add: jobs_prefix_def)
qed

lemma valid_job_path_iff: "valid_object_path (job_path n) \<longleftrightarrow> path_elements False (dec_int (sint n))"
proof -
  have "job_path n = CHR ''/'' # jobs_prefix @ dec_int (sint n)"
    by (simp add: job_path_def jobs_prefix_def)
  moreover have "jobs_prefix \<noteq> []" by (simp add: jobs_prefix_def)
  ultimately show ?thesis
    by (simp add: valid_object_path_def jobs_prefix_elements)
qed

lemma valid_job_path: "valid_object_path (job_path n) \<longleftrightarrow> unat n < 2 ^ 31"
proof (cases "unat n < 2 ^ 31")
  case True
  then have "path_elements False (dec_int (sint n))"
    by (simp add: sint_small dec_int_def path_elements_chars dec_path_chars)
  with True show ?thesis by (simp add: valid_job_path_iff)
next
  case False
  moreover have "int (unat n) < 2 ^ 32" using unsigned_less [of n] by simp
  ultimately have "sint n < 0" by (simp add: sint_unat)
  moreover have "\<not> path_char (CHR ''-'')" by (simp add: path_char_def)
  ultimately show ?thesis using False by (simp add: valid_job_path_iff dec_int_def)
qed

lemma job_path_inj: "job_path m = job_path n \<longleftrightarrow> m = n"
  by (simp add: job_path_def flip: word_eq_iff_signed)


section \<open>The invariant of the jobs\<close>

definition job_open :: "any_job \<Rightarrow> bool" where
  "job_open j \<longleftrightarrow> job_completions j = []"

text \<open>
  A job in a state its machine allows; \<open>c\<close> says whether jobs may have been cancelled.
\<close>

fun job_good :: "bool \<Rightarrow> any_job \<Rightarrow> bool" where
  "job_good c (SpawnedJob j) \<longleftrightarrow> (\<exists>p. in_phase p j \<and> (cancel_phase p \<longrightarrow> c))"
| "job_good c (ThreadedJob j) \<longleftrightarrow> job_function (job_func j) \<and> threaded_ok (job_func j) j"

definition places :: "thing list htab \<Rightarrow> thing \<Rightarrow> string set" where
  "places om t = {p. \<exists>ifs. ht_lookup om p = Some ifs \<and> t \<in> set ifs}"

definition placed :: "thing list htab \<Rightarrow> u32 \<Rightarrow> thing \<times> any_job \<Rightarrow> bool" where
  "placed om n tj \<longleftrightarrow>
     (if job_open (snd tj) then \<exists>k. unat k < unat n \<and> places om (fst tj) = {job_path k}
      else places om (fst tj) = {}) \<and>
     (\<forall>p \<in> places om (fst tj). ht_lookup om p = Some [fst tj])"

definition jobs_ok :: "bool \<Rightarrow> thing list htab \<Rightarrow> u32 \<Rightarrow> (thing \<times> any_job) list \<Rightarrow> bool" where
  "jobs_ok c om n js \<longleftrightarrow>
     ht_wf om \<and> distinct (map fst js) \<and>
     (\<forall>tj \<in> set js. job_good c (snd tj) \<and> placed om n tj)"

definition open_jobs :: "(thing \<times> any_job) list \<Rightarrow> nat" where
  "open_jobs js = length (filter (\<lambda>tj. job_open (snd tj)) js)"

definition fresh_from :: "nat \<Rightarrow> thing list htab \<Rightarrow> (thing \<times> any_job) list \<Rightarrow> bool" where
  "fresh_from n om js \<longleftrightarrow>
     (\<forall>t. n \<le> thing_id t \<longrightarrow> places om t = {} \<and> t \<notin> fst ` set js)"

definition daemon_ok :: "bool \<Rightarrow> daemon \<Rightarrow> bool" where
  "daemon_ok c self \<longleftrightarrow>
     jobs_ok c (objects self) (job_id self) (jobs self) \<and>
     fresh_from (next_thing self) (objects self) (jobs self) \<and>
     num_jobs self = of_nat (open_jobs (jobs self)) \<and>
     length (jobs self) \<le> unat (job_id self) \<and> unat (job_id self) \<le> 2 ^ 31"

subsection \<open>Places\<close>

lemma path_of_places:
  assumes "ht_wf (objects self)" and "places (objects self) t = {p}"
  shows "path_of self t = Some p"
proof -
  have p: "\<And>q ifs. (q, ifs) \<in> set (objects self) \<Longrightarrow> t \<in> set ifs \<Longrightarrow> q = p"
    using assms by (auto simp: places_def ht_lookup_def ht_wf_def)
  from assms(2) have "p \<in> places (objects self) t" by simp
  then obtain ifs where "(p, ifs) \<in> set (objects self)" "t \<in> set ifs"
    by (auto simp: places_def ht_lookup_def dest: map_of_SomeD)
  then have "find (\<lambda>(p, ifs). t \<in> set ifs) (objects self) \<noteq> None"
    by (auto simp: find_None_iff)
  then obtain q js where q: "find (\<lambda>(p, ifs). t \<in> set ifs) (objects self) = Some (q, js)" by auto
  then have "(q, js) \<in> set (objects self)" "t \<in> set js"
    using find_SomeD [OF q] by auto
  with p q show ?thesis by (simp add: path_of_def)
qed

lemma places_insert:
  "places (ht_insert om p ifs) t = (if t \<in> set ifs then insert p (places om t) else places om t - {p})"
  by (auto simp: places_def ht.lookup_ins)

lemma places_remove: "places (ht_remove om p) t = places om t - {p}"
  by (auto simp: places_def ht.lookup_rem)

lemma placed_insert:
  assumes "placed om n tj" and "fst tj \<noteq> u" and "p \<notin> places om (fst tj)" and "unat n \<le> unat m"
  shows "placed (ht_insert om p [u]) m tj"
  using assms by (auto simp: placed_def places_insert ht.lookup_ins job_path_inj)

lemma placed_remove:
  assumes "placed om n tj" and "p \<notin> places om (fst tj)"
  shows "placed (ht_remove om p) n tj"
  using assms by (auto simp: placed_def places_remove ht.lookup_rem)

subsection \<open>Launching\<close>

lemma job_path_not_placed: "placed om n tj \<Longrightarrow> job_path n \<notin> places om (fst tj)"
  by (auto simp: placed_def job_path_inj split: if_splits)

lemma jobs_ok_launch:
  assumes ok: "jobs_ok c om n js" and fresh: "fresh_from k om js" and small: "unat n < 2 ^ 31"
    and t: "t = Thing k ty" and j: "job_good c j" "job_open j"
  shows "jobs_ok c (ht_insert om (job_path n) [t]) (n + 1) (js @ [(t, j)])"
    and "fresh_from (k + 1) (ht_insert om (job_path n) [t]) (js @ [(t, j)])"
    and "open_jobs (js @ [(t, j)]) = open_jobs js + 1"
    and "unat (n + 1) = unat n + 1"
proof -
  have none: "places om t = {}" "t \<notin> fst ` set js" using fresh t by (auto simp: fresh_from_def)
  show inc: "unat (n + 1) = unat n + 1"
    using small by (simp add: unat_plus_if_size word_size)
  have "placed (ht_insert om (job_path n) [t]) (n + 1) (t, j)"
    using none j inc by (auto simp: placed_def places_insert ht.lookup_ins)
  moreover have "placed (ht_insert om (job_path n) [t]) (n + 1) tj" if "tj \<in> set js" for tj
  proof (rule placed_insert)
    show "placed om n tj" using ok that by (auto simp: jobs_ok_def)
    then show "job_path n \<notin> places om (fst tj)" by (rule job_path_not_placed)
    show "fst tj \<noteq> t" using none(2) that by auto
  qed (simp add: inc)
  ultimately show "jobs_ok c (ht_insert om (job_path n) [t]) (n + 1) (js @ [(t, j)])"
    using ok none j by (auto simp: jobs_ok_def ht.invar_ins)
  show "fresh_from (k + 1) (ht_insert om (job_path n) [t]) (js @ [(t, j)])"
    using fresh t by (auto simp: fresh_from_def places_insert)
  show "open_jobs (js @ [(t, j)]) = open_jobs js + 1"
    using j by (simp add: open_jobs_def)
qed

lemma daemon_ok_export:
  assumes "daemon_ok c self" and "unat (job_id self) < 2 ^ 31" and "t = Thing (next_thing self) ty"
    and "job_good c j" and "job_open j"
  shows "daemon_ok c (export_job self t j)"
  using assms jobs_ok_launch [where om = "objects self" and n = "job_id self" and js = "jobs self"
      and k = "next_thing self" and t = t and ty = ty and j = j and c = c]
  by (simp add: daemon_ok_def export_job_def valid_job_path)

lemma add_thing_eq: "\<exists>x. storage_job_add_thing g j t = j\<lparr>job_objects := x\<rparr>"
proof (cases "storage_job_add_thing g j t = j")
  case True
  then have "storage_job_add_thing g j t = j\<lparr>job_objects := job_objects j\<rparr>" by simp
  then show ?thesis by blast
next
  case False
  then show ?thesis
    by (auto simp: storage_job_add_thing_def Let_def split: option.splits if_splits)
qed

lemma in_phase_frame:
  "in_phase p (j\<lparr>job_objects := x, operation := y, started_by_uid := z\<rparr>) = in_phase p j"
  by (cases p) (simp_all add: phase_defs)

lemma threaded_ok_frame:
  "threaded_ok f (j\<lparr>job_objects := x, operation := y, started_by_uid := z\<rparr>) = threaded_ok f j"
  by (cases "phase j") (simp_all add: threaded_ok_def)

lemma has_object_open: "in_phase p j \<Longrightarrow> sj_completions j = [] \<Longrightarrow> j\<lparr>has_object := True\<rparr> = j"
  by (cases p) (auto simp: phase_defs)

lemma daemon_ok_launch_spawned:
  assumes ok: "daemon_ok c self" and small: "unat (job_id self) < 2 ^ 31"
  shows "daemon_ok c (fst (storage_daemon_launch_spawned_jobv gp spawn self obj op uid cl ruid reuid input argv))"
proof -
  let ?new = "storage_spawned_job_new spawn argv input ruid reuid cl"
  let ?p = "if cl \<or> isl (spawn argv) then Failing else Running"
  obtain x where x: "storage_job_add_thing gp ?new obj = ?new\<lparr>job_objects := x\<rparr>"
    using add_thing_eq by blast
  have new: "in_phase ?p ?new" by (rule new_job_phase)
  then have open_new: "sj_completions ?new = []" by (auto simp: open_job_def split: if_splits)
  let ?j = "?new\<lparr>job_objects := x, operation := op, started_by_uid := uid\<rparr>"
  have j: "in_phase ?p ?j" using new by (simp only: in_phase_frame)
  have "has_object ?j" using new by (auto simp: open_job_def split: if_splits)
  then have eq: "?j\<lparr>has_object := valid_object_path (job_path (job_id self))\<rparr> = ?j"
    using small by (simp add: valid_job_path)
  have "\<not> cancel_phase ?p" by (simp add: cancel_phase_def)
  with j have good: "job_good c (SpawnedJob ?j)" by auto
  have "job_open (SpawnedJob ?j)" using open_new by (simp add: job_open_def)
  from daemon_ok_export [OF ok small refl good this] show ?thesis
    unfolding storage_daemon_launch_spawned_jobv_def Let_def x fst_conv eq .
qed

lemma daemon_ok_launch_threaded:
  assumes ok: "daemon_ok c self" and small: "unat (job_id self) < 2 ^ 31" and f: "job_function f"
  shows "daemon_ok c (fst (storage_daemon_launch_threaded_job gp self obj op uid f cl))"
proof -
  let ?new = "storage_threaded_job_new f cl"
  obtain x where x: "storage_job_add_thing gp ?new obj = ?new\<lparr>job_objects := x\<rparr>"
    using add_thing_eq by blast
  let ?j = "?new\<lparr>cancelable := True, job_objects := x, operation := op, started_by_uid := uid\<rparr>"
  have swap: "?new\<lparr>job_objects := x, cancelable := True, operation := op, started_by_uid := uid\<rparr> = ?j"
    by simp
  have "job_func ?j = f" by (simp add: storage_threaded_job_new_def job.defs)
  moreover have "threaded_ok f ?j" by (simp only: threaded_ok_frame threaded_new_ok)
  ultimately have good: "job_good c (ThreadedJob ?j)" using f by simp
  have "job_open (ThreadedJob ?j)" by (simp add: job_open_def)
  from daemon_ok_export [OF ok small refl good this] show ?thesis
    unfolding storage_daemon_launch_threaded_job_def Let_def x fst_conv swap .
qed

subsection \<open>Events of jobs\<close>

lemma sj_step_completions:
  "sj_step j e = Inr j' \<Longrightarrow> sj_completions j' = sj_completions j \<or> (\<exists>m. sj_completions j' = sj_completions j @ [m])"
  by (cases e)
    (auto simp: handler_defs ebind_Inr Let_def write_child_stdin_def handle_cancel_def on_cancelled_def
      emit_completed_with_error_in_idle_def split: if_splits list.splits option.splits)

lemma threaded_step_completions:
  "threaded_step j e = Inr j' \<Longrightarrow> job_func j' = job_func j \<and>
    (completions j' = completions j \<or> (\<exists>m. completions j' = completions j @ [m]))"
  by (cases e)
    (auto simp: run_io_scheduler_job_def job_complete_def threaded_job_completed_default_def
      handle_cancel_def Let_def split: if_splits prod.splits option.splits)

lemma good_completions: "job_good c j \<Longrightarrow> length (job_completions j) \<le> 1"
  by (cases "(c, j)" rule: job_good.cases)
    (auto dest: in_phase_completions simp: threaded_ok_def split: thread_phase.splits)

text \<open>The events that may cancel a spawned job.\<close>

definition cancels_job :: "any_job_event \<Rightarrow> bool" where
  "cancels_job e \<longleftrightarrow> e = SpawnedEvent CancelMethod"

lemma any_job_step_good:
  assumes "job_good c j" and "any_job_step j e = Inr j'" and "cancels_job e \<longrightarrow> c"
  shows "job_good c j'"
    and "job_completions j' = job_completions j \<or> job_open j \<and> \<not> job_open j'"
proof -
  have "job_good c j' \<and> (\<exists>ms. job_completions j' = job_completions j @ ms)"
  proof (cases j)
    case (SpawnedJob k)
    show ?thesis
    proof (cases e)
      case (SpawnedEvent ev)
      obtain k' where k': "sj_step k ev = Inr k'" "j' = SpawnedJob k'"
        using assms(2) SpawnedJob SpawnedEvent by (cases "sj_step k ev") auto
      obtain p where p: "in_phase p k" "cancel_phase p \<longrightarrow> c" using assms(1) SpawnedJob by auto
      then obtain p' where "phase_step p ev p'" "in_phase p' k'"
        using sj_step_simulates [OF p(1), of ev] k'(1) by auto
      moreover from this have "cancel_phase p' \<longrightarrow> c"
        using cancel_phase_step p(2) assms(3) SpawnedEvent by (auto simp: cancels_job_def)
      ultimately show ?thesis
        using sj_step_completions [OF k'(1)] k'(2) SpawnedJob by auto
    qed (use assms SpawnedJob in auto)
  next
    case (ThreadedJob k)
    show ?thesis
    proof (cases e)
      case (ThreadedEvent ev)
      obtain k' where k': "threaded_step k ev = Inr k'" "j' = ThreadedJob k'"
        using assms(2) ThreadedJob ThreadedEvent by (cases "threaded_step k ev") auto
      have "job_function (job_func k)" "threaded_ok (job_func k) k"
        using assms(1) ThreadedJob by auto
      then have "threaded_ok (job_func k) k'"
        using job_function.step_ok [of "job_func k" k ev] k'(1) by auto
      with threaded_step_completions [OF k'(1)] assms(1) show ?thesis
        using k'(2) ThreadedJob by auto
    qed (use assms ThreadedJob in auto)
  qed
  moreover from this have "length (job_completions j') \<le> 1" using good_completions by blast
  ultimately show "job_good c j'"
    and "job_completions j' = job_completions j \<or> job_open j \<and> \<not> job_open j'"
    by (cases "job_completions j"; auto simp: job_open_def)+
qed

lemma any_job_step_aborts:
  "job_good c j \<Longrightarrow> any_job_step j e = Inl x \<Longrightarrow> c"
proof (cases j)
  case (SpawnedJob k)
  assume good: "job_good c j" and abort: "any_job_step j e = Inl x"
  then obtain ev where ev: "sj_step k ev = Inl x"
    using SpawnedJob by (cases e; auto simp: map_sum_def split: sum.splits)
  obtain p where "in_phase p k" "cancel_phase p \<longrightarrow> c" using good SpawnedJob by auto
  with sj_step_simulates [of p k ev] ev show c by (auto simp: cancel_phase_def)
next
  case (ThreadedJob k)
  assume good: "job_good c j" and abort: "any_job_step j e = Inl x"
  then obtain ev where "threaded_step k ev = Inl x"
    using ThreadedJob by (cases e; auto simp: map_sum_def split: sum.splits)
  moreover have "\<exists>k'. threaded_step k ev = Inr k'"
    using good ThreadedJob job_function.step_ok [of "job_func k" k ev] by auto
  ultimately show c by simp
qed

lemma set_job_keys [simp]: "map fst (set_job t j js) = map fst js"
  by (induction js) (auto simp: set_job_def)

lemma in_set_job:
  "tj \<in> set (set_job t j js) \<Longrightarrow> tj = (t, j) \<or> tj \<in> set js \<and> fst tj \<noteq> t"
  by (auto simp: set_job_def split: if_splits)

lemma open_jobs_set:
  assumes "distinct (map fst js)" and "map_of js t = Some j"
  shows "open_jobs (set_job t j' js) + (if job_open j then 1 else 0) =
    open_jobs js + (if job_open j' then 1 else 0)"
  using assms
proof (induction js)
  case (Cons tj js)
  have same: "set_job t j' js = js" if "t \<notin> fst ` set js"
    using that by (induction js) (auto simp: set_job_def)
  obtain u k where tj: "tj = (u, k)" by (cases tj)
  have "set_job t j' (tj # js) = (u, if u = t then j' else k) # set_job t j' js"
    by (simp add: set_job_def tj)
  then show ?case
    using Cons same by (cases "u = t") (simp_all add: open_jobs_def tj)
qed simp

lemma open_jobs_le: "open_jobs js \<le> length js"
  by (simp add: open_jobs_def)

lemma fresh_from_set: "fresh_from n om (set_job t j js) = fresh_from n om js"
proof -
  have "fst ` set (set_job t j js) = fst ` set js" by (metis set_job_keys list.set_map)
  then show ?thesis by (simp add: fresh_from_def)
qed

lemma daemon_ok_jobs:
  assumes "daemon_ok c self" and "tj \<in> set (jobs self)"
  shows "job_good c (snd tj)" and "placed (objects self) (job_id self) tj"
  using assms unfolding daemon_ok_def jobs_ok_def by blast+

lemma daemon_ok_wf:
  assumes "daemon_ok c self"
  shows "ht_wf (objects self)" and "distinct (map fst (jobs self))"
  using assms unfolding daemon_ok_def jobs_ok_def by blast+

text \<open>A step of a job that emits nothing.\<close>

lemma daemon_ok_quiet:
  assumes ok: "daemon_ok c self" and j: "find_job self t = Some j"
    and good: "job_good c j'" and same: "job_completions j' = job_completions j"
  shows "daemon_ok c (self\<lparr>jobs := set_job t j' (jobs self)\<rparr>)"
proof -
  have open_eq: "job_open j' = job_open j" using same by (simp add: job_open_def)
  have in_js: "(t, j) \<in> set (jobs self)" using j map_of_SomeD [of "jobs self" t j] by (simp add: find_job_def)
  have "placed (objects self) (job_id self) (t, j')"
    using daemon_ok_jobs(2) [OF ok in_js] open_eq unfolding placed_def fst_conv snd_conv by simp
  then have "jobs_ok c (objects self) (job_id self) (set_job t j' (jobs self))"
    using daemon_ok_wf [OF ok] daemon_ok_jobs [OF ok] good
    by (auto simp: jobs_ok_def dest!: in_set_job)
  moreover have "open_jobs (set_job t j' (jobs self)) = open_jobs (jobs self)"
    using open_jobs_set [of "jobs self" t j j'] ok j open_eq
    by (auto simp: daemon_ok_def jobs_ok_def find_job_def)
  moreover have "length (set_job t j' js) = length js" for js by (simp add: set_job_def)
  ultimately show ?thesis using ok by (simp add: daemon_ok_def fresh_from_set)
qed

lemma maybe_finished_ok [simp]: "daemon_ok c (maybe_finished self) = daemon_ok c self"
  by (simp add: maybe_finished_def daemon_ok_def)

text \<open>A step of a job that emits \<open>completed\<close>.\<close>

lemma daemon_ok_completed:
  assumes ok: "daemon_ok c self" and j: "find_job self t = Some j"
    and good: "job_good c j'" and opn: "job_open j" "\<not> job_open j'"
  shows "\<exists>s. on_job_completed (self\<lparr>jobs := set_job t j' (jobs self)\<rparr>) t = Inr s \<and> daemon_ok c s"
proof -
  let ?om = "objects self"
  have js: "(t, j) \<in> set (jobs self)" "distinct (map fst (jobs self))"
    using map_of_SomeD [of "jobs self" t j] j daemon_ok_wf [OF ok] by (simp_all add: find_job_def)
  have wf: "ht_wf ?om" and pl: "placed ?om (job_id self) (t, j)"
    using daemon_ok_wf [OF ok] daemon_ok_jobs [OF ok js(1)] by simp_all
  have "\<exists>k. places ?om t = {job_path k}" and all: "\<forall>p \<in> places ?om t. ht_lookup ?om p = Some [t]"
    using pl opn(1) unfolding placed_def by auto
  then obtain p where p: "places ?om t = {p}" by blast
  then have p: "places ?om t = {p}" "ht_lookup ?om p = Some [t]" using all by simp_all
  have path: "path_of (self\<lparr>jobs := set_job t j' (jobs self)\<rparr>) t = Some p"
    using path_of_places [of self t p] wf p by (simp add: path_of_def)
  have cnt: "open_jobs (jobs self) = Suc (open_jobs (set_job t j' (jobs self)))"
    using open_jobs_set [OF js(2), of t j j'] j opn by (simp add: find_job_def)
  have bound: "open_jobs (jobs self) < 2 ^ 32"
    using ok open_jobs_le [of "jobs self"] by (simp add: daemon_ok_def)
  have num: "num_jobs self = of_nat (open_jobs (jobs self))" using ok by (simp add: daemon_ok_def)
  then have "unat (num_jobs self) = open_jobs (jobs self)"
    using bound by (intro of_nat_inverse) simp_all
  then have pos: "num_jobs self \<noteq> 0" using cnt by auto
  have dec: "num_jobs self - 1 = of_nat (open_jobs (set_job t j' (jobs self)))"
    by (simp add: num cnt)
  have "placed (ht_remove ?om p) (job_id self) tj" if "tj \<in> set (set_job t j' (jobs self))" for tj
  proof (cases "fst tj = t")
    case True
    with that opn have "tj = (t, j')" by (auto dest: in_set_job)
    then show ?thesis using p opn by (simp add: placed_def places_remove)
  next
    case False
    with that have tj: "tj \<in> set (jobs self)" by (auto dest: in_set_job)
    show ?thesis
    proof (rule placed_remove)
      show pl: "placed ?om (job_id self) tj" by (rule daemon_ok_jobs [OF ok tj])
      show "p \<notin> places ?om (fst tj)" using pl p(2) False by (auto simp: placed_def)
    qed
  qed
  moreover have "job_good c (snd tj)" if "tj \<in> set (set_job t j' (jobs self))" for tj
    using in_set_job [OF that] good daemon_ok_jobs(1) [OF ok, of tj] by auto
  ultimately have "jobs_ok c (ht_remove ?om p) (job_id self) (set_job t j' (jobs self))"
    using wf js(2) by (auto simp: jobs_ok_def ht.invar_rem)
  moreover have "fresh_from (next_thing self) (ht_remove ?om p) (set_job t j' (jobs self))"
    using ok by (simp add: daemon_ok_def fresh_from_set) (auto simp: fresh_from_def places_remove)
  moreover have "length (set_job t j' (jobs self)) = length (jobs self)" by (simp add: set_job_def)
  ultimately have "daemon_ok c (self\<lparr>jobs := set_job t j' (jobs self),
      objects := ht_remove ?om p, num_jobs := num_jobs self - 1\<rparr>)"
    using ok dec by (simp add: daemon_ok_def)
  then show ?thesis
    using path pos by (simp add: on_job_completed_def Let_def)
qed

lemma daemon_ok_job_event:
  assumes ok: "daemon_ok c self" and "cancels_job e \<longrightarrow> c"
  shows "case on_job_event self t e of Inl x \<Rightarrow> c | Inr s \<Rightarrow> daemon_ok c s"
proof (cases "find_job self t")
  case None
  then show ?thesis using ok by (simp add: on_job_event_def)
next
  case (Some j)
  then have "(t, j) \<in> set (jobs self)" using map_of_SomeD [of "jobs self" t j] by (simp add: find_job_def)
  from daemon_ok_jobs(1) [OF ok this] have good: "job_good c j" by simp
  show ?thesis
  proof (cases "any_job_step j e")
    case (Inl x)
    with any_job_step_aborts [OF good] Some show ?thesis by (simp add: on_job_event_def)
  next
    case (Inr j')
    note step = any_job_step_good [OF good Inr assms(2)]
    show ?thesis
    proof (cases "job_completions j' = job_completions j")
      case True
      with daemon_ok_quiet [OF ok Some step(1)] Some Inr show ?thesis
        by (simp add: on_job_event_def Let_def)
    next
      case False
      with step(2) have "job_open j" "\<not> job_open j'" by auto
      with daemon_ok_completed [OF ok Some step(1)] False Some Inr show ?thesis
        by (auto simp: on_job_event_def Let_def)
    qed
  qed
qed

subsection \<open>Every event\<close>

lemma places_publish:
  fixes self :: "'a server_scheme"
  assumes "is_dbus_interface m"
  shows "places (objects (publish self (Some p) False m)) t =
    (if t = m then insert p (places (objects self) t)
     else if iface_name t = iface_name m then places (objects self) t - {p}
     else places (objects self) t)"
proof -
  have "q \<in> places (objects s) t \<longleftrightarrow> t \<in> interfaces_at s q" for q and s :: "'a server_scheme"
    by (auto simp: places_def interfaces_at_def split: option.splits)
  then show ?thesis
    by (intro set_eqI) (auto simp: interfaces_at_publish [OF assms])
qed

lemma daemon_publish_frame [simp]:
  fixes self :: daemon
  shows "jobs (publish self (Some p) False t) = jobs self"
    and "next_thing (publish self (Some p) False t) = next_thing self"
    and "job_id (publish self (Some p) False t) = job_id self"
    and "num_jobs (publish self (Some p) False t) = num_jobs self"
    and "num_clients (publish self (Some p) False t) = num_clients self"
  by (simp_all add: publish_def Let_def)

lemma manager_path_not_job: "''/org/freedesktop/UDisks2/Manager'' \<noteq> job_path n"
proof
  assume "''/org/freedesktop/UDisks2/Manager'' = job_path n"
  then have "take 26 ''/org/freedesktop/UDisks2/Manager'' = take 26 (job_path n)" by simp
  then show False by (simp add: job_path_def)
qed

lemma placed_publish_manager:
  assumes pl: "placed (objects self) n tj" and "fst tj \<noteq> m" and m: "thing_type m = StorageManager"
  shows "placed (objects (publish self (Some ''/org/freedesktop/UDisks2/Manager'') False m)) n tj"
proof -
  let ?p = "''/org/freedesktop/UDisks2/Manager''"
  let ?om = "objects (publish self (Some ?p) False m)"
  have d: "is_dbus_interface m" using m by (simp add: is_dbus_interface_def)
  have notin: "?p \<notin> places (objects self) (fst tj)"
    using pl manager_path_not_job by (auto simp: placed_def split: if_splits)
  then have eq: "places ?om (fst tj) = places (objects self) (fst tj)"
    using assms(2) by (auto simp: places_publish [OF d])
  have "ht_lookup ?om q = ht_lookup (objects self) q" if "q \<noteq> ?p" for q
    by (rule lookup_publish_other [OF d that])
  then have "\<forall>q \<in> places (objects self) (fst tj). ht_lookup ?om q = Some [fst tj]"
    using pl notin unfolding placed_def by metis
  with pl show ?thesis unfolding placed_def eq by blast
qed

lemma daemon_ok_manager_ready:
  assumes ok: "daemon_ok c self"
  shows "daemon_ok c (on_manager_ready (self\<lparr>next_thing := next_thing self + 1\<rparr>)
    (Thing (next_thing self) StorageManager))"
proof -
  let ?m = "Thing (next_thing self) StorageManager"
  let ?self = "self\<lparr>next_thing := next_thing self + 1\<rparr>"
  let ?s = "publish ?self (Some ''/org/freedesktop/UDisks2/Manager'') False ?m"
  have fresh: "fresh_from (next_thing self) (objects self) (jobs self)"
    using ok by (simp add: daemon_ok_def)
  then have m: "?m \<notin> fst ` set (jobs self)" by (simp add: fresh_from_def)
  have "placed (objects ?s) (job_id self) tj" if "tj \<in> set (jobs self)" for tj
  proof (rule placed_publish_manager)
    show "fst tj \<noteq> ?m" using m that by (metis image_eqI)
  qed (use daemon_ok_jobs(2) [OF ok that] in simp_all)
  moreover have "ht_wf (objects ?s)"
    using daemon_ok_wf(1) [OF ok] by (intro ht_wf_publish) (simp_all add: is_dbus_interface_def)
  ultimately have "jobs_ok c (objects ?s) (job_id self) (jobs self)"
    using daemon_ok_wf [OF ok] daemon_ok_jobs(1) [OF ok] by (simp add: jobs_ok_def)
  moreover have "fresh_from (next_thing self + 1) (objects ?s) (jobs self)"
    using fresh by (auto simp: fresh_from_def places_publish is_dbus_interface_def)
  ultimately show ?thesis
    using ok by (simp add: daemon_ok_def on_manager_ready_def)
qed

text \<open>The clients that are present, and events that keep their count a count.\<close>

fun clients_balanced :: "nat \<Rightarrow> daemon_event list \<Rightarrow> bool" where
  "clients_balanced n [] = True"
| "clients_balanced n (ClientAppeared # es) = (Suc n < 2 ^ 32 \<and> clients_balanced (Suc n) es)"
| "clients_balanced n (ClientDisappeared # es) = (0 < n \<and> clients_balanced (n - 1) es)"
| "clients_balanced n (e # es) = clients_balanced n es"

fun cancels :: "daemon_event \<Rightarrow> bool" where
  "cancels (JobEvent t e) = cancels_job e"
| "cancels _ = False"

definition clients_after :: "nat \<Rightarrow> daemon_event \<Rightarrow> nat" where
  "clients_after n e =
     (if e = ClientAppeared then Suc n else if e = ClientDisappeared then n - 1 else n)"

lemma clients_balanced_Cons:
  "clients_balanced n (e # es) \<Longrightarrow>
     clients_balanced (clients_after n e) es \<and> (e = ClientDisappeared \<longrightarrow> 0 < n) \<and>
     (n < 2 ^ 32 \<longrightarrow> clients_after n e < 2 ^ 32)"
  by (cases e) (auto simp: clients_after_def)

lemma daemon_ok_frame [simp]:
  "daemon_ok c (self\<lparr>name_owned := a\<rparr>) = daemon_ok c self"
  "daemon_ok c (self\<lparr>num_clients := n\<rparr>) = daemon_ok c self"
  "daemon_ok c (self\<lparr>name_owner_id := b\<rparr>) = daemon_ok c self"
  by (simp_all add: daemon_ok_def)

lemma maybe_finished_simps [simp]:
  "num_clients (maybe_finished self) = num_clients self"
  "job_id (maybe_finished self) = job_id self"
  by (simp_all add: maybe_finished_def)

lemma job_event_frame:
  "on_job_event self t e = Inr s \<Longrightarrow> num_clients s = num_clients self \<and> job_id s = job_id self"
  by (auto simp: on_job_event_def on_job_completed_def ebind_Inr Let_def split: option.splits if_splits)

lemma launch_frame [simp]:
  "num_clients (fst (storage_daemon_launch_spawned_jobv gp spawn self obj op uid cl u v input argv)) = num_clients self"
  "job_id (fst (storage_daemon_launch_spawned_jobv gp spawn self obj op uid cl u v input argv)) = job_id self + 1"
  "num_clients (fst (storage_daemon_launch_threaded_job gp self obj op uid f cl)) = num_clients self"
  "job_id (fst (storage_daemon_launch_threaded_job gp self obj op uid f cl)) = job_id self + 1"
  by (simp_all add: storage_daemon_launch_spawned_jobv_def storage_daemon_launch_threaded_job_def
      export_job_def Let_def)

lemma client_gone:
  assumes "num_clients self = of_nat n" and "0 < n" and "n < 2 ^ 32" and "daemon_ok c self"
  shows "\<exists>s. on_client_disappeared self = Inr s \<and> daemon_ok c s \<and> job_id s = job_id self \<and>
    num_clients s = of_nat (n - 1)"
proof -
  have "unat (num_clients self) = n" using assms by (intro of_nat_inverse) simp_all
  then have "num_clients self \<noteq> 0" using assms(2) by auto
  moreover have "num_clients self - 1 = of_nat (n - 1)" using assms(1,2) by (simp add: of_nat_diff)
  ultimately show ?thesis
    using assms(4) by (simp add: on_client_disappeared_def Let_def)
qed

lemma daemon_step_ok:
  assumes ok: "daemon_ok c self" and n: "num_clients self = of_nat n" "n < 2 ^ 32"
    and small: "launch e \<longrightarrow> unat (job_id self) < 2 ^ 31"
    and kept: "contract_kept e" and gone: "e = ClientDisappeared \<longrightarrow> 0 < n" and can: "cancels e \<longrightarrow> c"
  shows "case daemon_step gp self e of
      Inl x \<Rightarrow> c
    | Inr s \<Rightarrow> daemon_ok c s \<and> num_clients s = of_nat (clients_after n e) \<and>
        unat (job_id s) = unat (job_id self) + (if launch e then 1 else 0)"
proof (cases e)
  case NameAcquired
  then show ?thesis using assms by (simp add: on_name_acquired_def clients_after_def)
next
  case NameLost
  then show ?thesis using assms by (simp add: on_name_lost_def clients_after_def)
next
  case ClientAppeared
  then show ?thesis using assms by (simp add: on_client_appeared_def clients_after_def)
next
  case ClientDisappeared
  then show ?thesis using client_gone [OF n(1) _ n(2) ok] gone by (auto simp: clients_after_def)
next
  case ManagerReady
  then show ?thesis
    using daemon_ok_manager_ready [OF ok] n
    by (simp add: clients_after_def on_manager_ready_def)
next
  case (LaunchSpawned sp ob op uid inp av)
  have inc: "unat (job_id self + 1) = unat (job_id self) + 1"
    using small LaunchSpawned by (simp add: unat_plus_if_size word_size)
  show ?thesis
    using daemon_ok_launch_spawned [OF ok] small n inc LaunchSpawned by (simp add: clients_after_def)
next
  case (LaunchThreaded ob op uid f)
  have inc: "unat (job_id self + 1) = unat (job_id self) + 1"
    using small LaunchThreaded by (simp add: unat_plus_if_size word_size)
  show ?thesis
    using daemon_ok_launch_threaded [OF ok] small n inc kept LaunchThreaded by (simp add: clients_after_def)
next
  case (JobEvent t ev)
  then have "cancels_job ev \<longrightarrow> c" using can by simp
  from daemon_ok_job_event [OF ok this, of t] show ?thesis
    using JobEvent n job_event_frame [of self t ev] by (auto simp: clients_after_def split: sum.splits)
qed

lemma daemon_run_before:
  assumes "daemon_ok c self" and "num_clients self = of_nat n" and "n < 2 ^ 32"
    and "unat (job_id self) + length (filter launch (es @ es')) \<le> 2 ^ 31"
    and "\<forall>e \<in> set es. contract_kept e" and "clients_balanced n (es @ es')" and "\<forall>e \<in> set es. cancels e \<longrightarrow> c"
  shows "case run_steps (daemon_step gp) self es of
      Inl x \<Rightarrow> c
    | Inr s \<Rightarrow> daemon_ok c s \<and> (\<exists>m < 2 ^ 32. num_clients s = of_nat m \<and> clients_balanced m es') \<and>
        unat (job_id s) + length (filter launch es') \<le> 2 ^ 31"
  using assms
proof (induction es arbitrary: self n)
  case (Cons e es)
  have bal: "clients_balanced (clients_after n e) (es @ es')" "e = ClientDisappeared \<longrightarrow> 0 < n"
      "n < 2 ^ 32 \<longrightarrow> clients_after n e < 2 ^ 32"
    using clients_balanced_Cons [of n e "es @ es'"] Cons.prems(6) by auto
  have "launch e \<longrightarrow> unat (job_id self) < 2 ^ 31" using Cons.prems(4) by auto
  with Cons.prems bal have step: "case daemon_step gp self e of
      Inl x \<Rightarrow> c
    | Inr s \<Rightarrow> daemon_ok c s \<and> num_clients s = of_nat (clients_after n e) \<and>
        unat (job_id s) = unat (job_id self) + (if launch e then 1 else 0)"
    by (intro daemon_step_ok) auto
  show ?case
  proof (cases "daemon_step gp self e")
    case (Inl x)
    with step show ?thesis by simp
  next
    case (Inr s)
    with step have s: "daemon_ok c s" "num_clients s = of_nat (clients_after n e)"
        "unat (job_id s) = unat (job_id self) + (if launch e then 1 else 0)" by auto
    have "case run_steps (daemon_step gp) s es of
        Inl x \<Rightarrow> c
      | Inr s \<Rightarrow> daemon_ok c s \<and> (\<exists>m < 2 ^ 32. num_clients s = of_nat m \<and> clients_balanced m es') \<and>
          unat (job_id s) + length (filter launch es') \<le> 2 ^ 31"
      using Cons.prems bal s by (intro Cons.IH [of s "clients_after n e"]) (auto split: if_splits)
    with Inr show ?thesis by simp
  qed
qed auto

lemma daemon_run_ok:
  assumes "daemon_ok c self" and "num_clients self = of_nat n" and "n < 2 ^ 32"
    and "unat (job_id self) + length (filter launch es) \<le> 2 ^ 31"
    and "\<forall>e \<in> set es. contract_kept e" and "clients_balanced n es" and "\<forall>e \<in> set es. cancels e \<longrightarrow> c"
  shows "case run_steps (daemon_step gp) self es of Inl x \<Rightarrow> c | Inr s \<Rightarrow> daemon_ok c s"
  using daemon_run_before [of c self n es "[]" gp] assms by (auto split: sum.splits)

lemma daemon_ok_init: "daemon_ok c (storage_daemon_init per dir)"
  by (simp add: daemon_ok_def storage_daemon_init_def jobs_ok_def fresh_from_def places_def
      open_jobs_def ht_wf_def ht_lookup_def)

section \<open>Properties\<close>

text \<open>
  As long as the daemon has launched no more than 2^31 jobs, the job functions keep their
  contract and clients leave only after they have come, no order of events makes the daemon
  fail an assertion, unless a job is cancelled. At every point \<open>num_jobs\<close> is the number of
  jobs that have not completed; each of those is exported, at one path, and no completed one is.
\<close>

theorem daemon_counts_jobs:
  assumes "clients_balanced 0 es" and "length (filter launch es) \<le> 2 ^ 31"
    and "\<forall>e \<in> set es. contract_kept e" and "\<forall>e \<in> set es. \<not> cancels e"
  shows "\<exists>s. run_steps (daemon_step gp) (storage_daemon_init per dir) es = Inr s \<and>
    num_jobs s = of_nat (open_jobs (jobs s)) \<and>
    (\<forall>(t, j) \<in> set (jobs s). path_of s t \<noteq> None \<longleftrightarrow> job_open j)"
proof -
  have init: "num_clients (storage_daemon_init per dir) = of_nat 0"
      "unat (job_id (storage_daemon_init per dir)) + length (filter launch es) \<le> 2 ^ 31"
    using assms(2) by (simp_all add: storage_daemon_init_def)
  have "case run_steps (daemon_step gp) (storage_daemon_init per dir) es of
      Inl x \<Rightarrow> False | Inr s \<Rightarrow> daemon_ok False s"
    using assms by (intro daemon_run_ok [OF daemon_ok_init init(1) _ init(2)]) simp_all
  then obtain s where s: "run_steps (daemon_step gp) (storage_daemon_init per dir) es = Inr s"
    and ok: "daemon_ok False s"
    by (auto split: sum.splits)
  have "path_of s t \<noteq> None \<longleftrightarrow> job_open j" if tj: "(t, j) \<in> set (jobs s)" for t j
  proof (cases "job_open j")
    case True
    then obtain k where "places (objects s) t = {job_path k}"
      using daemon_ok_jobs(2) [OF ok tj] by (auto simp: placed_def)
    with True path_of_places [OF daemon_ok_wf(1) [OF ok]] show ?thesis by simp
  next
    case False
    then have "places (objects s) t = {}"
      using daemon_ok_jobs(2) [OF ok tj] by (simp add: placed_def)
    then have "\<forall>(p, ifs) \<in> set (objects s). t \<notin> set ifs"
      using daemon_ok_wf(1) [OF ok] by (fastforce simp: places_def ht_lookup_def ht_wf_def)
    then have "path_of s t = None" by (auto simp: path_of_def find_None_iff)
    with False show ?thesis by simp
  qed
  moreover have "num_jobs s = of_nat (open_jobs (jobs s))" using ok by (simp add: daemon_ok_def)
  ultimately show ?thesis using s by blast
qed

lemma daemon_counts_jobs_witness:
  "\<exists>s. run_steps (daemon_step (\<lambda>_. None)) (storage_daemon_init False None)
      [ManagerReady, NameAcquired, ClientAppeared,
       LaunchThreaded None ''lv-vg-delete'' 0 (\<lambda>_. (True, None)),
       LaunchSpawned (\<lambda>_. Inr 7) None ''lv-vg-rename'' 0 None [''vgrename''],
       JobEvent (Thing 1 StorageThreadedJob) (ThreadedEvent ThreadRuns),
       JobEvent (Thing 1 StorageThreadedJob) (ThreadedEvent IdleRuns), ClientDisappeared] = Inr s \<and>
    num_jobs s = of_nat (open_jobs (jobs s))"
  using daemon_counts_jobs
    [of "[ManagerReady, NameAcquired, ClientAppeared,
          LaunchThreaded None ''lv-vg-delete'' 0 (\<lambda>_. (True, None)),
          LaunchSpawned (\<lambda>_. Inr 7) None ''lv-vg-rename'' 0 None [''vgrename''],
          JobEvent (Thing 1 StorageThreadedJob) (ThreadedEvent ThreadRuns),
          JobEvent (Thing 1 StorageThreadedJob) (ThreadedEvent IdleRuns), ClientDisappeared]"
      "\<lambda>_. None" False None]
  by (auto simp: job_function_def cancels_job_def)

definition announces_end :: "daemon \<Rightarrow> daemon \<Rightarrow> bool" where
  "announces_end s s' \<longleftrightarrow> emitted s' = emitted s @ [Finished]"

definition may_end :: "daemon \<Rightarrow> daemon_event \<Rightarrow> daemon \<Rightarrow> bool" where
  "may_end s e s' \<longleftrightarrow>
     e = ClientDisappeared \<or> (e = NameLost \<and> name_owner_id s) \<or>
     (\<exists>t ev. e = JobEvent t ev \<and> num_jobs s' \<noteq> num_jobs s)"

lemma end_announced:
  assumes "daemon_step gp s e = Inr s'"
  shows "announces_end s s' \<longleftrightarrow> is_finished s' \<and> may_end s e s'"
proof -
  have mf: "announces_end s (maybe_finished k) \<longleftrightarrow> is_finished (maybe_finished k)"
    if "emitted k = emitted s" for k
    using that by (auto simp: announces_end_def maybe_finished_def is_finished_def)
  show ?thesis
  proof (cases e)
    case (JobEvent t ev)
    have compl: "announces_end s s' \<longleftrightarrow> is_finished s' \<and> num_jobs s' \<noteq> num_jobs s"
      if "on_job_completed (s\<lparr>jobs := js\<rparr>) t = Inr s'" for js
      using that by (auto simp: on_job_completed_def Let_def maybe_finished_def is_finished_def
          announces_end_def split: option.splits if_splits)
    have quiet: "\<not> announces_end s (s\<lparr>jobs := js\<rparr>)" "\<not> announces_end s s" for js
      by (simp_all add: announces_end_def)
    show ?thesis
      using assms compl quiet JobEvent
      by (auto simp: on_job_event_def ebind_Inr Let_def may_end_def split: option.splits if_splits)
  qed (use assms mf in \<open>auto simp: may_end_def announces_end_def on_name_lost_def on_name_acquired_def
      on_client_appeared_def on_client_disappeared_def on_manager_ready_def export_job_def Let_def
      storage_daemon_launch_spawned_jobv_def storage_daemon_launch_threaded_job_def
      emitted_publish is_dbus_interface_def split: if_splits\<close>)
qed

text \<open>Besides its end the daemon announces only that it published something.\<close>

lemma announcements:
  assumes "daemon_step gp s e = Inr s'"
  shows "announces_end s s' \<or> (\<exists>new. emitted s' = emitted s @ new \<and> Finished \<notin> set new)"
proof -
  have none: "\<exists>new. emitted k = emitted s @ new \<and> Finished \<notin> set new" if "emitted k = emitted s" for k
    using that by (intro exI [of _ "[]"]) simp
  have mf: "announces_end s (maybe_finished k) \<or>
      (\<exists>new. emitted (maybe_finished k) = emitted s @ new \<and> Finished \<notin> set new)"
    if "emitted k = emitted s" for k
    using that none [of "maybe_finished k"] by (auto simp: announces_end_def maybe_finished_def)
  show ?thesis
  proof (cases e)
    case (JobEvent t ev)
    have "announces_end s k \<or> emitted k = emitted s" if "on_job_completed (s\<lparr>jobs := js\<rparr>) t = Inr k" for js k
      using that by (auto simp: on_job_completed_def Let_def announces_end_def maybe_finished_def
          split: option.splits if_splits)
    then show ?thesis
      using assms none JobEvent by (force simp: on_job_event_def ebind_Inr Let_def split: option.splits if_splits)
  next
    case ManagerReady
    with assms show ?thesis
      by (auto simp: on_manager_ready_def emitted_publish is_dbus_interface_def)
  qed (use assms in \<open>auto simp: on_name_lost_def on_name_acquired_def
      on_client_appeared_def on_client_disappeared_def on_manager_ready_def export_job_def Let_def
      storage_daemon_launch_spawned_jobv_def storage_daemon_launch_threaded_job_def
      intro!: mf none split: if_splits\<close>)
qed

lemma daemon_keeps_persist: "daemon_step gp s e = Inr s' \<Longrightarrow> persist s' = persist s"
  by (cases e) (auto simp: on_name_lost_def on_name_acquired_def on_client_appeared_def maybe_finished_def
      on_client_disappeared_def on_manager_ready_def export_job_def Let_def publish_def unpublish_def
      storage_daemon_launch_spawned_jobv_def storage_daemon_launch_threaded_job_def on_job_event_def
      on_job_completed_def ebind_Inr split: if_splits option.splits)

text \<open>
  The daemon announces that it has finished exactly when it has become idle (no client, no
  job, no name, and not asked to persist) by losing its name, by a client leaving or by a job
  completing.
\<close>

theorem finished_when_idle:
  assumes "daemon_step gp s e = Inr s'"
  shows "announces_end s s' \<longleftrightarrow> is_finished s' \<and> may_end s e s'"
  using assms by (rule end_announced)

lemma finished_when_idle_witness:
  "announces_end (on_client_appeared (storage_daemon_init False None))
     (maybe_finished (storage_daemon_init False None))"
  using finished_when_idle [of "\<lambda>_. None" "on_client_appeared (storage_daemon_init False None)"
      ClientDisappeared "maybe_finished (storage_daemon_init False None)"]
  by (simp add: on_client_disappeared_def on_client_appeared_def storage_daemon_init_def Let_def
      maybe_finished_def is_finished_def may_end_def)

text \<open>
  The counter of jobs is printed as a signed number, so the path of a job is an object path for
  the first 2^31 jobs and different for each; the next job gets no object, and its completion
  fails an assertion.
\<close>

theorem job_paths_run_out:
  "(valid_object_path (job_path n) \<longleftrightarrow> unat n < 2 ^ 31) \<and> (job_path m = job_path n \<longleftrightarrow> m = n) \<and>
   (case on_job_completed
      (fst (storage_daemon_launch_threaded_job gp ((storage_daemon_init per dir)\<lparr>job_id := 2147483648\<rparr>)
              obj op uid f False)) (Thing 0 StorageThreadedJob) of
      Inl x \<Rightarrow> x = AssertFailed ''object != NULL'' | Inr _ \<Rightarrow> False)"
proof -
  have "\<not> valid_object_path (job_path 2147483648)" by (simp add: valid_job_path)
  then show ?thesis
    by (simp add: valid_job_path job_path_inj storage_daemon_launch_threaded_job_def Let_def
        export_job_def on_job_completed_def path_of_def storage_daemon_init_def)
qed

text \<open>
  A helper that is spawned and exits with status 0 has its whole output delivered to the
  callback, in order, whatever the sizes of the reads and however much is left in the pipe when
  its exit is noticed; with any other exit the callback gets an error. A program without a slash in
  its name comes from the daemon's own directories.
\<close>

theorem helper_output_delivered:
  assumes "storage_daemon_spawn_for_variant lib_dir data_dir self spawn argv = Inr r"
  shows "(case variant_reader_watch_child os status (Some rest) (fold variant_reader_child_output chunks r) of
      ReaderData d \<Rightarrow> exited_ok status \<and> d = concat chunks @ rest
    | ReaderError e \<Rightarrow> \<not> exited_ok status) \<and>
    spawn (resolve_prog lib_dir data_dir self argv) = Inr (reader_pid r)"
proof -
  from assms have r: "rd_output r = []" "spawn (resolve_prog lib_dir data_dir self argv) = Inr (reader_pid r)"
    by (auto simp: storage_daemon_spawn_for_variant_def split: sum.splits)
  then show ?thesis
    by (simp add: variant_reader_watch_child_def reader_output check_exit_status_def)
qed

lemma helper_output_delivered_witness:
  "(case variant_reader_watch_child agreeing_os 0 (Some ''c'')
      (fold variant_reader_child_output [''a'', ''b''] \<lparr>reader_pid = 7, rd_output = []\<rparr>) of
      ReaderData d \<Rightarrow> exited_ok 0 \<and> d = ''abc'' | ReaderError e \<Rightarrow> \<not> exited_ok 0)"
  using helper_output_delivered [where lib_dir = "''/usr/lib''" and data_dir = "''/usr/share''"
      and self = "storage_daemon_init False None" and spawn = "\<lambda>_. Inr 7"
      and argv = "[''storaged-lvm-helper'']" and r = "\<lparr>reader_pid = 7, rd_output = []\<rparr>"
      and os = agreeing_os and status = 0 and rest = "''c''" and chunks = "[''a'', ''b'']"]
  by (simp add: storage_daemon_spawn_for_variant_def split: reader_result.splits)

end
