(* ===== verification/Invocation.thy ===== *)
theory Invocation
  imports Daemon
begin

text \<open>
  The callers of the daemon, \<open>src/invocation.c\<close>: the table of clients filled by the
  message filter and emptied by the name watches, the asynchronous question for a client's user,
  the blocking lookup a method call makes, and the authorization of every method call.
\<close>

section \<open>State\<close>

datatype uid_state = UID_LOADING | UID_VALID | UID_FAILED

text \<open>
  An \<open>InvocationClient\<close> is shared by the table and by the calls that looked it up, so clients
  live in a heap and the table holds their addresses. \<open>pending\<close> are the names of the
  \<open>GetConnectionUnixUser\<close> calls not answered yet, \<open>invoked\<close> the callbacks queued for
  the main context, in order.
\<close>

record invocation_client =
  client_refs :: nat
  uid_peer :: u32
  client_uid_state :: uid_state
  bus_name :: string

datatype client_callback = Appeared string | Disappeared string

record invocation_state =
  heap :: "invocation_client list"
  clients :: "nat htab"
  pending :: "string list"
  invoked :: "client_callback list"

definition storage_invocation_initialize :: invocation_state where
  "storage_invocation_initialize = \<lparr>heap = [], clients = [], pending = [], invoked = []\<rparr>"

abbreviation G_MAXUINT :: u32 where "G_MAXUINT \<equiv> - 1"

definition update_client :: "nat \<Rightarrow> (invocation_client \<Rightarrow> invocation_client) \<Rightarrow> invocation_state \<Rightarrow> invocation_state" where
  "update_client a f self = self\<lparr>heap := (heap self)[a := f (heap self ! a)]\<rparr>"

definition invocation_client_ref :: "nat \<Rightarrow> invocation_state \<Rightarrow> invocation_state" where
  "invocation_client_ref a = update_client a (\<lambda>c. c\<lparr>client_refs := client_refs c + 1\<rparr>)"

definition invocation_client_unref :: "nat \<Rightarrow> invocation_state \<Rightarrow> invocation_state" where
  "invocation_client_unref a = update_client a (\<lambda>c. c\<lparr>client_refs := client_refs c - 1\<rparr>)"

section \<open>The life of a client\<close>

definition invocation_client_create :: "invocation_state \<Rightarrow> string \<Rightarrow> invocation_state" where
  "invocation_client_create self name =
     (if ht_lookup (clients self) name \<noteq> None then self
      else
        let a = length (heap self);
            client = \<lparr>client_refs = 1, uid_peer = NOT 0, client_uid_state = UID_LOADING, bus_name = name\<rparr>;
            self = self\<lparr>heap := heap self @ [client], pending := pending self @ [name]\<rparr>
        in if ht_lookup (clients self) name = None
           then self\<lparr>clients := ht_insert (clients self) name a, invoked := invoked self @ [Appeared name]\<rparr>
           else invocation_client_unref a self)"

text \<open>\<open>Inl\<close> the error or \<open>Inr\<close> the user of the bus's answer.\<close>

definition on_get_connection_unix_user :: "invocation_state \<Rightarrow> string \<Rightarrow> gerror + u32 \<Rightarrow> abort + invocation_state" where
  "on_get_connection_unix_user self name res =
     (case res of
        Inr uid \<Rightarrow>
          (case ht_lookup (clients self) name of
             Some a \<Rightarrow> Inr (update_client a (\<lambda>c. c\<lparr>uid_peer := uid, client_uid_state := UID_VALID\<rparr>) self)
           | None \<Rightarrow> Inl (NullDereference ''client->uid_peer''))
      | Inl e \<Rightarrow>
          (case ht_lookup (clients self) name of
             Some a \<Rightarrow> Inr (update_client a (\<lambda>c. c\<lparr>client_uid_state := UID_FAILED\<rparr>) self)
           | None \<Rightarrow> Inr self))"

definition on_client_vanished :: "invocation_state \<Rightarrow> string \<Rightarrow> invocation_state" where
  "on_client_vanished self name =
     (case ht_lookup (clients self) name of
        None \<Rightarrow> self
      | Some a \<Rightarrow>
          invocation_client_unref a
            (self\<lparr>clients := ht_remove (clients self) name, invoked := invoked self @ [Disappeared name]\<rparr>))"

text \<open>The filter: every incoming message passes, and a method call makes its sender a client.\<close>

datatype message_type = MethodCall | OtherMessage

definition on_connection_filter :: "invocation_state \<Rightarrow> bool \<Rightarrow> message_type \<Rightarrow> string \<Rightarrow> invocation_state" where
  "on_connection_filter self incoming ty sender =
     (if incoming \<and> ty = MethodCall then invocation_client_create self sender else self)"

section \<open>Looking a caller up\<close>

text \<open>
  \<open>invocation_client_lookup\<close> with an address for the user. The loop on the condition
  variable is entered while the user is being loaded: \<open>Waits\<close>, to be asked again after
  each broadcast with \<open>client_ready\<close>.
\<close>

datatype lookup_result =
    Unknown gerror | Waits nat | Known nat u32 "gerror option"

definition unknown_caller :: gerror where
  "unknown_caller = \<lparr>err_domain = ''g-dbus-error-quark'', err_code = 0,
     err_message = ''Method call from unknown caller (internal error)''\<rparr>"

definition no_credentials :: gerror where
  "no_credentials = udisks_error UDISKS_ERROR_FAILED
     ''Cannot determine the unix credentials of the calling process''"

definition client_ready :: "invocation_state \<Rightarrow> nat \<Rightarrow> lookup_result" where
  "client_ready self a =
     (case client_uid_state (heap self ! a) of
        UID_LOADING \<Rightarrow> Waits a
      | UID_VALID \<Rightarrow> Known a (uid_peer (heap self ! a)) None
      | UID_FAILED \<Rightarrow> Known a G_MAXUINT (Some no_credentials))"

definition invocation_client_lookup :: "invocation_state \<Rightarrow> string \<Rightarrow> invocation_state \<times> lookup_result" where
  "invocation_client_lookup self sender =
     (case ht_lookup (clients self) sender of
        None \<Rightarrow> (self, Unknown unknown_caller)
      | Some a \<Rightarrow> let self = invocation_client_ref a self in (self, client_ready self a))"

section \<open>The question for polkit\<close>

text \<open>
  What the code reads of a method: its name, its arguments with their signatures, and its
  annotations. A job knows who started it. No class of the daemon has a \<open>polkit-details\<close>
  property, so the branch for it is left out.
\<close>

record method_info =
  method_name :: string
  in_args :: "(string \<times> string) list"
  annotations :: "(string \<times> string) list"

datatype instance_kind = JobInstance u32 | OtherInstance

type_synonym polkit_details = "(string \<times> string) list"

definition lookup_method_action_and_details ::
  "instance_kind \<Rightarrow> u32 \<Rightarrow> method_info \<Rightarrow> string option \<times> polkit_details option" where
  "lookup_method_action_and_details inst uid method =
     (case inst of
        JobInstance started_by \<Rightarrow>
          if method_name method = ''Cancel''
          then (Some (if uid \<noteq> started_by then ''org.freedesktop.udisks2.cancel-job-other-user''
                      else ''org.freedesktop.udisks2.cancel-job''),
                Some [(''polkit.message'', ''Authentication is required to cancel a job'')])
          else (map_of (annotations method) ''polkit.action_id'',
                map_option (\<lambda>m. [(''polkit.message'', m)]) (map_of (annotations method) ''polkit.message''))
      | OtherInstance \<Rightarrow>
          (map_of (annotations method) ''polkit.action_id'',
           map_option (\<lambda>m. [(''polkit.message'', m)]) (map_of (annotations method) ''polkit.message'')))"

text \<open>\<open>params i\<close> is the dictionary at argument \<open>i\<close>. True allows user interaction.\<close>

fun no_interaction_from :: "(nat \<Rightarrow> vardict) \<Rightarrow> nat \<Rightarrow> (string \<times> string) list \<Rightarrow> bool \<Rightarrow> bool" where
  "no_interaction_from params i [] flag = flag"
| "no_interaction_from params i ((name, sig) # args) flag =
     no_interaction_from params (Suc i) args
       (if name = ''options'' \<and> sig = ''a{sv}'' then
          (case lookup_b (params i) ''auth.no_user_interaction'' of Some b \<Rightarrow> b | None \<Rightarrow> flag)
        else flag)"

definition lookup_invocation_flags :: "method_info \<Rightarrow> (nat \<Rightarrow> vardict) \<Rightarrow> bool" where
  "lookup_invocation_flags info params \<longleftrightarrow> \<not> no_interaction_from params 0 (in_args info) False"

text \<open>
  \<open>polkit_authority_check_authorization_sync\<close>: an error, or a result with its three truth
  values. The authority may be absent (\<open>None\<close>).
\<close>

record polkit_result =
  is_authorized :: bool
  is_challenge :: bool
  dismissed :: bool

type_synonym polkit = "string \<Rightarrow> string \<Rightarrow> polkit_details option \<Rightarrow> bool \<Rightarrow> gerror + polkit_result"

definition not_root_error :: gerror where
  "not_root_error = udisks_error UDISKS_ERROR_NOT_AUTHORIZED
     ''Not authorized to perform operation (polkit authority not available and caller is not uid 0)''"

text \<open>The answer to the caller, if one is sent here, and whether the call is let through.\<close>

definition authorize_without_polkit :: "u32 \<Rightarrow> gerror option \<times> bool" where
  "authorize_without_polkit uid = (if uid = 0 then (None, True) else (Some not_root_error, False))"

definition polkit_refusal :: "polkit_result \<Rightarrow> gerror" where
  "polkit_refusal result =
     (if dismissed result
      then udisks_error UDISKS_ERROR_NOT_AUTHORIZED_DISMISSED ''The authentication dialog was dismissed''
      else udisks_error
        (if is_challenge result then UDISKS_ERROR_NOT_AUTHORIZED_CAN_OBTAIN else UDISKS_ERROR_NOT_AUTHORIZED)
        ''Not authorized to perform operation'')"

definition authorize_known ::
  "polkit option \<Rightarrow> string \<Rightarrow> u32 \<Rightarrow> instance_kind \<Rightarrow> method_info \<Rightarrow> (nat \<Rightarrow> vardict) \<Rightarrow> gerror option \<times> bool" where
  "authorize_known authority sender uid inst info params =
     (case authority of
        None \<Rightarrow> authorize_without_polkit uid
      | Some check \<Rightarrow>
          let (action, details) = lookup_method_action_and_details inst uid info;
              action_id = (case action of None \<Rightarrow> ''com.redhat.lvm2.manage-lvm'' | Some a \<Rightarrow> a)
          in case check sender action_id details (lookup_invocation_flags info params) of
               Inl e \<Rightarrow>
                 if err_domain e \<noteq> ''polkit-error-quark'' then authorize_without_polkit uid
                 else (Some (udisks_error UDISKS_ERROR_FAILED
                          (''Error checking authorization: '' @ error_report e)), False)
             | Inr result \<Rightarrow>
                 if \<not> is_authorized result then (Some (polkit_refusal result), False)
                 else (None, True))"

text \<open>The part of \<open>on_authorize_method\<close> after the lookup returned; \<open>None\<close> while it waits.\<close>

definition on_authorize_method ::
  "polkit option \<Rightarrow> instance_kind \<Rightarrow> method_info \<Rightarrow> (nat \<Rightarrow> vardict) \<Rightarrow> string \<Rightarrow> invocation_state \<Rightarrow> lookup_result \<Rightarrow>
   (invocation_state \<times> gerror option \<times> bool) option" where
  "on_authorize_method authority inst info params sender self found =
     (case found of
        Waits a \<Rightarrow> None
      | Unknown e \<Rightarrow> Some (self, Some e, True)
      | Known a uid (Some e) \<Rightarrow> Some (self, Some e, True)
      | Known a uid None \<Rightarrow>
          Some (invocation_client_unref a self, authorize_known authority sender uid inst info params))"

text \<open>The caller's user for a handler; \<open>Inl\<close> is the abort of \<open>g_error\<close>.\<close>

definition storage_invocation_get_caller_uid :: "invocation_state \<Rightarrow> lookup_result \<Rightarrow> (abort + invocation_state \<times> u32) option" where
  "storage_invocation_get_caller_uid self found =
     (case found of
        Waits a \<Rightarrow> None
      | Known a uid _ \<Rightarrow> Some (Inr (invocation_client_unref a self, uid))
      | Unknown e \<Rightarrow> Some (Inl (AssertFailed (err_message e))))"

section \<open>The clients as a machine\<close>

text \<open>
  Messages, vanishing names, answers of the bus, and the calls that look their sender up and
  drop the reference when they are done. The second component of the state are the addresses
  the calls in flight hold.
\<close>

datatype inv_event =
    Message bool message_type string
  | NameVanished string
  | UserAnswer string "gerror + u32"
  | LookUp string
  | CallDone nat

type_synonym inv_machine = "invocation_state \<times> nat list"

fun inv_step :: "inv_machine \<Rightarrow> inv_event \<Rightarrow> abort + inv_machine" where
  "inv_step (self, held) (Message incoming ty sender) = Inr (on_connection_filter self incoming ty sender, held)"
| "inv_step (self, held) (NameVanished name) = Inr (on_client_vanished self name, held)"
| "inv_step (self, held) (UserAnswer name res) =
     map_sum id (\<lambda>s. (s, held)) (on_get_connection_unix_user self name res)"
| "inv_step (self, held) (LookUp sender) =
     Inr (case ht_lookup (clients self) sender of
            None \<Rightarrow> (self, held)
          | Some a \<Rightarrow> (fst (invocation_client_lookup self sender), a # held))"
| "inv_step (self, held) (CallDone a) =
     Inr (if a \<in> set held then (invocation_client_unref a self, remove1 a held) else (self, held))"

text \<open>
  The daemon's count of clients after the callbacks, \<open>None\<close> when one leaves that is not
  there.
\<close>

fun count_clients :: "nat \<Rightarrow> client_callback list \<Rightarrow> nat option" where
  "count_clients n [] = Some n"
| "count_clients n (Appeared _ # cs) = count_clients (Suc n) cs"
| "count_clients n (Disappeared _ # cs) = (if n = 0 then None else count_clients (n - 1) cs)"

lemma count_clients_append:
  "count_clients n (cs @ ds) = (case count_clients n cs of None \<Rightarrow> None | Some m \<Rightarrow> count_clients m ds)"
  by (induction n cs rule: count_clients.induct) auto

definition in_table :: "invocation_state \<Rightarrow> nat \<Rightarrow> bool" where
  "in_table self a \<longleftrightarrow> (\<exists>name. ht_lookup (clients self) name = Some a)"

definition table_ok :: "invocation_state \<Rightarrow> bool" where
  "table_ok self \<longleftrightarrow>
     ht_wf (clients self) \<and>
     (\<forall>name a. ht_lookup (clients self) name = Some a \<longrightarrow>
        a < length (heap self) \<and> bus_name (heap self ! a) = name) \<and>
     count_clients 0 (invoked self) = Some (length (clients self))"

definition refs_ok :: "inv_machine \<Rightarrow> bool" where
  "refs_ok s \<longleftrightarrow>
     (\<forall>a \<in> set (snd s). a < length (heap (fst s))) \<and>
     (\<forall>a < length (heap (fst s)).
        client_refs (heap (fst s) ! a) = count_list (snd s) a + (if in_table (fst s) a then 1 else 0))"

definition inv_ok :: "inv_machine \<Rightarrow> bool" where
  "inv_ok s \<longleftrightarrow> table_ok (fst s) \<and> refs_ok s"

lemma length_ht_insert: "ht_lookup t k = None \<Longrightarrow> length (ht_insert t k v) = Suc (length t)"
  by (induction t k v rule: ht_insert.induct) (auto simp: ht_lookup_def split: if_splits)

lemma length_ht_remove:
  assumes "ht_wf t" and "ht_lookup t k = Some v"
  shows "length t = Suc (length (ht_remove t k))"
  using assms
proof (induction t)
  case (Cons kv t)
  have "ht_remove t k = t" if "k \<notin> fst ` set t"
    using that by (induction t) (auto simp: ht_remove_def)
  with Cons show ?case
    by (auto simp: ht_wf_def ht_lookup_def ht_remove_def split: if_splits prod.splits)
qed (simp add: ht_lookup_def)

lemma clients_distinct:
  "table_ok self \<Longrightarrow> ht_lookup (clients self) n = Some a \<Longrightarrow> ht_lookup (clients self) m = Some a \<Longrightarrow> n = m"
  by (auto simp: table_ok_def)

lemma update_client_simps [simp]:
  "clients (update_client a f self) = clients self"
  "invoked (update_client a f self) = invoked self"
  "length (heap (update_client a f self)) = length (heap self)"
  "in_table (update_client a f self) b = in_table self b"
  by (simp_all add: update_client_def in_table_def)

lemma heap_update_client:
  "b < length (heap self) \<Longrightarrow>
   heap (update_client a f self) ! b = (if b = a then f (heap self ! a) else heap self ! b)"
  by (simp add: update_client_def nth_list_update)

lemma table_ok_update:
  "table_ok self \<Longrightarrow> (\<And>c. bus_name (f c) = bus_name c) \<Longrightarrow> table_ok (update_client a f self)"
  by (auto simp: table_ok_def heap_update_client)

text \<open>An operation that changes the count of one client: the invariant of the counts follows.\<close>

lemma refs_ok_update:
  assumes "\<forall>b \<in> set held. b < length (heap self)"
    and "\<And>b. b < length (heap self) \<Longrightarrow>
      client_refs (if b = a then f (heap self ! a) else heap self ! b) =
        count_list held b + (if in_table self b then 1 else 0)"
  shows "refs_ok (update_client a f self, held)"
  using assms by (simp add: refs_ok_def heap_update_client)

lemma inv_ok_answer:
  assumes "inv_ok (self, held)" and "\<And>c. bus_name (f c) = bus_name c" and "\<And>c. client_refs (f c) = client_refs c"
  shows "inv_ok (update_client a f self, held)"
  using assms by (auto simp: inv_ok_def refs_ok_def heap_update_client intro: table_ok_update)

lemma inv_ok_create:
  assumes "inv_ok (self, held)"
  shows "inv_ok (invocation_client_create self name, held)"
proof (cases "ht_lookup (clients self) name")
  case None
  let ?self = "invocation_client_create self name"
  have "table_ok ?self"
    using assms None
    by (auto simp: inv_ok_def table_ok_def invocation_client_create_def Let_def ht.lookup_ins
        ht.invar_ins nth_append count_clients_append length_ht_insert intro: less_SucI split: if_splits)
  moreover have "in_table ?self a \<longleftrightarrow> in_table self a \<or> a = length (heap self)" for a
    using None by (simp add: in_table_def invocation_client_create_def Let_def ht.lookup_ins)
      (metis option.distinct(1))
  moreover have "\<not> in_table self (length (heap self))" "length (heap self) \<notin> set held"
    using assms by (auto simp: inv_ok_def table_ok_def in_table_def refs_ok_def)
  ultimately show ?thesis
    using assms None
    by (auto simp: inv_ok_def refs_ok_def invocation_client_create_def Let_def nth_append
        count_list_0_iff less_Suc_eq)
qed (use assms in \<open>simp add: invocation_client_create_def\<close>)

lemma inv_ok_vanished:
  assumes ok: "inv_ok (self, held)"
  shows "inv_ok (on_client_vanished self name, held)"
proof (cases "ht_lookup (clients self) name")
  case None
  with ok show ?thesis by (simp add: on_client_vanished_def)
next
  case (Some a)
  have t: "table_ok self" using ok by (simp add: inv_ok_def)
  let ?del = "self\<lparr>clients := ht_remove (clients self) name, invoked := invoked self @ [Disappeared name]\<rparr>"
  have eq: "on_client_vanished self name = invocation_client_unref a ?del"
    using Some by (simp add: on_client_vanished_def)
  have len: "length (clients self) = Suc (length (ht_remove (clients self) name))"
    using t Some by (intro length_ht_remove) (auto simp: table_ok_def)
  then have "table_ok ?del"
    using t by (auto simp: table_ok_def ht.invar_rem ht.lookup_rem count_clients_append split: if_splits)
  then have "table_ok (on_client_vanished self name)"
    unfolding eq invocation_client_unref_def by (rule table_ok_update) simp
  moreover have "in_table ?del b \<longleftrightarrow> in_table self b \<and> b \<noteq> a" for b
  proof
    assume "in_table ?del b"
    then obtain n where n: "n \<noteq> name" "ht_lookup (clients self) n = Some b"
      by (auto simp: in_table_def ht.lookup_rem split: if_splits)
    then have "b \<noteq> a" using clients_distinct [OF t Some, of n] by blast
    with n(2) show "in_table self b \<and> b \<noteq> a" by (auto simp: in_table_def)
  next
    assume "in_table self b \<and> b \<noteq> a"
    then obtain n where "ht_lookup (clients self) n = Some b" "b \<noteq> a" by (auto simp: in_table_def)
    with Some show "in_table ?del b"
      by (auto simp: in_table_def ht.lookup_rem intro!: exI [of _ n])
  qed
  moreover have "in_table self a" using Some by (auto simp: in_table_def)
  moreover have "refs_ok (self, held)" using ok by (simp add: inv_ok_def)
  ultimately have "refs_ok (on_client_vanished self name, held)"
    unfolding eq invocation_client_unref_def
    by (intro refs_ok_update) (auto simp: refs_ok_def)
  with \<open>table_ok (on_client_vanished self name)\<close> show ?thesis by (simp add: inv_ok_def)
qed

lemma inv_step_ok:
  assumes "inv_ok s" and "inv_step s e = Inr s'"
  shows "inv_ok s'"
proof -
  obtain self held where s: "s = (self, held)" by (cases s)
  show ?thesis
  proof (cases e)
    case (Message incoming ty sender)
    with assms s show ?thesis
      by (auto simp: on_connection_filter_def intro: inv_ok_create)
  next
    case (NameVanished name)
    with assms s show ?thesis by (auto intro: inv_ok_vanished)
  next
    case (UserAnswer name res)
    with assms s show ?thesis
      by (auto simp: on_get_connection_unix_user_def intro!: inv_ok_answer split: sum.splits option.splits)
  next
    case (LookUp sender)
    show ?thesis
    proof (cases "ht_lookup (clients self) sender")
      case (Some a)
      let ?u = "update_client a (\<lambda>c. c\<lparr>client_refs := client_refs c + 1\<rparr>) self"
      have s': "s' = (?u, a # held)"
        using assms(2) s LookUp Some
        by (simp add: invocation_client_lookup_def invocation_client_ref_def Let_def)
      have "table_ok self" "refs_ok (self, held)" using assms(1) s by (simp_all add: inv_ok_def)
      moreover from this Some have "a < length (heap self)" by (auto simp: table_ok_def)
      ultimately have "refs_ok (?u, a # held)" by (intro refs_ok_update) (auto simp: refs_ok_def)
      moreover have "table_ok ?u" using \<open>table_ok self\<close> by (rule table_ok_update) simp
      ultimately show ?thesis by (simp add: inv_ok_def s')
    qed (use assms s LookUp in simp)
  next
    case (CallDone a)
    show ?thesis
    proof (cases "a \<in> set held")
      case True
      let ?u = "update_client a (\<lambda>c. c\<lparr>client_refs := client_refs c - 1\<rparr>) self"
      have s': "s' = (?u, remove1 a held)"
        using assms(2) s CallDone True by (simp add: invocation_client_unref_def)
      have ok: "table_ok self" "refs_ok (self, held)" using assms(1) s by (simp_all add: inv_ok_def)
      have cnt: "count_list (remove1 a held) b = (if b = a then count_list held a - 1 else count_list held b)" for b
        by (induction held) auto
      have "0 < count_list held a" using True by (metis count_list_0_iff gr0I)
      with ok(2) have "refs_ok (?u, remove1 a held)"
        by (intro refs_ok_update) (auto simp: refs_ok_def cnt dest: notin_set_remove1 set_mp [OF set_remove1_subset])
      moreover have "table_ok ?u" using ok(1) by (rule table_ok_update) simp
      ultimately show ?thesis by (simp add: inv_ok_def s')
    qed (use assms s CallDone in simp)
  qed
qed

interpretation im: guarded_machine inv_step inv_ok
  by unfold_locales (rule inv_step_ok)

text \<open>A client out of the table that is still being loaded stays so.\<close>

definition stranded :: "nat \<Rightarrow> invocation_state \<Rightarrow> bool" where
  "stranded a self \<longleftrightarrow>
     a < length (heap self) \<and> \<not> in_table self a \<and> client_uid_state (heap self ! a) = UID_LOADING"

lemma stranded_update:
  assumes "stranded a self" and "b = a \<longrightarrow> (\<forall>c. client_uid_state (f c) = client_uid_state c)"
  shows "stranded a (update_client b f self)"
  using assms by (auto simp: stranded_def heap_update_client)

lemma stranded_create:
  assumes st: "stranded a self"
  shows "stranded a (invocation_client_create self name)"
proof (cases "ht_lookup (clients self) name")
  case None
  have "\<not> in_table (invocation_client_create self name) a"
    using st None
    by (auto simp: stranded_def in_table_def invocation_client_create_def Let_def ht.lookup_ins
        split: if_splits)
  with st None show ?thesis
    by (simp add: stranded_def invocation_client_create_def Let_def nth_append)
qed (use st in \<open>simp add: invocation_client_create_def\<close>)

lemma stranded_vanished:
  assumes st: "stranded a self"
  shows "stranded a (on_client_vanished self name)"
proof (cases "ht_lookup (clients self) name")
  case (Some b)
  let ?del = "self\<lparr>clients := ht_remove (clients self) name, invoked := invoked self @ [Disappeared name]\<rparr>"
  have "stranded a ?del"
    using st by (auto simp: stranded_def in_table_def ht.lookup_rem split: if_splits)
  then show ?thesis
    using Some by (simp add: on_client_vanished_def invocation_client_unref_def stranded_update)
qed (use st in \<open>simp add: on_client_vanished_def\<close>)

lemma stranded_step:
  assumes st: "stranded a (fst s)" and step: "inv_step s e = Inr s'"
  shows "stranded a (fst s')"
proof -
  obtain self held where s: "s = (self, held)" by (cases s)
  have other: "ht_lookup (clients self) name \<noteq> Some a" for name
    using st by (auto simp: stranded_def in_table_def s)
  show ?thesis
    using st step s other
    by (cases e)
      (auto simp: on_connection_filter_def on_get_connection_unix_user_def invocation_client_lookup_def
        invocation_client_ref_def invocation_client_unref_def Let_def
        intro!: stranded_update stranded_create stranded_vanished split: sum.splits option.splits if_splits)
qed

lemma stranded_run:
  "stranded a (fst s) \<Longrightarrow> run_steps inv_step s es = Inr s' \<Longrightarrow> stranded a (fst s')"
  by (induction es arbitrary: s) (auto split: sum.splits dest: stranded_step)

lemma inv_ok_init: "inv_ok (storage_invocation_initialize, [])"
  by (simp add: inv_ok_def table_ok_def refs_ok_def storage_invocation_initialize_def ht_wf_def ht_lookup_def)

section \<open>Properties\<close>

text \<open>
  C35: Whatever the order of messages, name changes, answers and calls, the daemon is told of a
  client's leaving only after its coming, its count of clients is the number of entries of the
  table, and the reference count of every client is the number of calls that hold it, plus one
  while it is in the table.
\<close>

theorem callers_counted:
  assumes "run_steps inv_step (storage_invocation_initialize, []) es = Inr (self, held)"
  shows "count_clients 0 (invoked self) = Some (length (clients self)) \<and>
    (\<forall>a < length (heap self). client_refs (heap self ! a) =
       count_list held a + (if \<exists>name. ht_lookup (clients self) name = Some a then 1 else 0))"
  using im.run_inv [OF inv_ok_init assms]
  by (simp add: inv_ok_def table_ok_def refs_ok_def in_table_def)

lemma callers_counted_witness:
  "\<exists>self held. run_steps inv_step (storage_invocation_initialize, [])
      [Message True MethodCall '':1.5'', LookUp '':1.5'', Message True MethodCall '':1.6'',
       NameVanished '':1.5'', UserAnswer '':1.6'' (Inr 1000), CallDone 0] = Inr (self, held) \<and>
    count_clients 0 (invoked self) = Some 1"
proof -
  obtain self held where run: "run_steps inv_step (storage_invocation_initialize, [])
      [Message True MethodCall '':1.5'', LookUp '':1.5'', Message True MethodCall '':1.6'',
       NameVanished '':1.5'', UserAnswer '':1.6'' (Inr 1000), CallDone 0] = Inr (self, held)"
    and len: "length (clients self) = 1"
    by (simp add: storage_invocation_initialize_def on_connection_filter_def invocation_client_create_def
        ht_lookup_def Let_def invocation_client_lookup_def invocation_client_ref_def update_client_def
        on_client_vanished_def invocation_client_unref_def ht_remove_def on_get_connection_unix_user_def)
  with callers_counted [OF run] show ?thesis by auto
qed

text \<open>
  C9: A caller that is not root and has been identified is let through only when polkit, asked
  about the action of the method (the one for cancelling another user's job, the method's own, or
  managing LVM), answered that it is authorized, and then no error is sent.
\<close>

theorem unprivileged_needs_polkit:
  assumes "on_authorize_method authority inst info params sender self (Known a uid None) =
      Some (self', reply, True)"
    and "uid \<noteq> 0"
  shows "reply = None \<and>
    (\<exists>check action details result.
       authority = Some check \<and> lookup_method_action_and_details inst uid info = (action, details) \<and>
       check sender (case action of None \<Rightarrow> ''com.redhat.lvm2.manage-lvm'' | Some a \<Rightarrow> a) details
         (lookup_invocation_flags info params) = Inr result \<and>
       is_authorized result)"
  using assms
  by (auto simp: on_authorize_method_def authorize_known_def authorize_without_polkit_def Let_def
      split: option.splits prod.splits sum.splits if_splits)

lemma unprivileged_needs_polkit_witness:
  "\<exists>result. (\<lambda>_ action _ _. Inr \<lparr>is_authorized = (action = ''com.redhat.lvm2.manage-lvm''),
      is_challenge = False, dismissed = False\<rparr> :: gerror + polkit_result)
      '':1.5'' ''com.redhat.lvm2.manage-lvm'' None True = Inr result \<and> is_authorized result"
  using unprivileged_needs_polkit
    [of "Some (\<lambda>_ action _ _. Inr \<lparr>is_authorized = (action = ''com.redhat.lvm2.manage-lvm''),
        is_challenge = False, dismissed = False\<rparr>)"
      OtherInstance "\<lparr>method_name = ''Delete'', in_args = [], annotations = []\<rparr>" "\<lambda>_. []" "'':1.5''"
      storage_invocation_initialize 0 1000
      "invocation_client_unref 0 storage_invocation_initialize" None]
  by (simp add: on_authorize_method_def authorize_known_def lookup_method_action_and_details_def
      lookup_invocation_flags_def)

text \<open>
  A call whose sender cannot be identified is answered with an error and nevertheless let
  through to its handler, without polkit being asked: when the sender has left the bus before
  the call is looked at (its handler then aborts the daemon as soon as it asks for the caller's
  user) and when the bus could not tell the sender's user (the handler then runs with the user
  id 2^32 - 1).
\<close>

theorem unidentified_caller_let_through:
  "(\<exists>self. run_steps inv_step (storage_invocation_initialize, [])
      [Message True MethodCall sender, NameVanished sender] = Inr (self, []) \<and>
    (case invocation_client_lookup self sender of (self, found) \<Rightarrow>
       on_authorize_method authority inst info params sender self found = Some (self, Some unknown_caller, True) \<and>
       storage_invocation_get_caller_uid self found =
         Some (Inl (AssertFailed ''Method call from unknown caller (internal error)'')))) \<and>
   (\<exists>self. run_steps inv_step (storage_invocation_initialize, [])
      [Message True MethodCall sender, UserAnswer sender (Inl e)] = Inr (self, []) \<and>
    (case invocation_client_lookup self sender of (self, found) \<Rightarrow>
       on_authorize_method authority inst info params sender self found = Some (self, Some no_credentials, True) \<and>
       (\<exists>self'. storage_invocation_get_caller_uid self found = Some (Inr (self', 4294967295)))))"
  by (simp add: storage_invocation_initialize_def on_connection_filter_def invocation_client_create_def
      ht_lookup_def Let_def invocation_client_lookup_def invocation_client_ref_def update_client_def
      on_client_vanished_def invocation_client_unref_def ht_remove_def on_get_connection_unix_user_def
      client_ready_def on_authorize_method_def storage_invocation_get_caller_uid_def unknown_caller_def)

text \<open>
  A call that waits for the user of its sender waits for ever if the sender leaves the bus
  first: no later event, not even the bus's answer, ends the wait.
\<close>

theorem vanished_caller_waits_forever:
  assumes "run_steps inv_step (storage_invocation_initialize, [])
      ([Message True MethodCall sender, LookUp sender, NameVanished sender] @ es) = Inr (self, held)"
  shows "client_ready self 0 = Waits 0"
proof -
  obtain s where s: "run_steps inv_step (storage_invocation_initialize, [])
      [Message True MethodCall sender, LookUp sender, NameVanished sender] = Inr s"
    and st: "stranded 0 (fst s)"
    by (simp add: storage_invocation_initialize_def on_connection_filter_def invocation_client_create_def
        ht_lookup_def Let_def invocation_client_lookup_def invocation_client_ref_def update_client_def
        on_client_vanished_def invocation_client_unref_def ht_remove_def stranded_def in_table_def)
  with assms have "run_steps inv_step s es = Inr (self, held)" by (simp only: run_steps_append sum.case)
  from stranded_run [OF st this] show ?thesis by (simp add: stranded_def client_ready_def)
qed

lemma vanished_caller_waits_forever_witness:
  "\<exists>self held. run_steps inv_step (storage_invocation_initialize, [])
      ([Message True MethodCall '':1.5'', LookUp '':1.5'', NameVanished '':1.5''] @
       [UserAnswer '':1.5'' (Inl no_credentials)]) = Inr (self, held) \<and>
    client_ready self 0 = Waits 0"
proof -
  obtain self held where run: "run_steps inv_step (storage_invocation_initialize, [])
      ([Message True MethodCall '':1.5'', LookUp '':1.5'', NameVanished '':1.5''] @
       [UserAnswer '':1.5'' (Inl no_credentials)]) = Inr (self, held)"
    by (simp add: storage_invocation_initialize_def on_connection_filter_def invocation_client_create_def
        ht_lookup_def Let_def invocation_client_lookup_def invocation_client_ref_def update_client_def
        on_client_vanished_def invocation_client_unref_def ht_remove_def on_get_connection_unix_user_def)
  with vanished_caller_waits_forever [OF run] show ?thesis by blast
qed

end
