(* ===== verification/Requests.thy ===== *)
theory Requests
  imports Daemon
begin

text \<open>
  How a method handler of a volume or of the manager answers its caller after it has launched a
  job: either when the job completes, or, when the answer is an object, when that object has been
  published, with a closure (\<open>CompleteClosure\<close> in \<open>src/manager.c\<close>,
  \<open>src/volumegroup.c\<close> and \<open>src/logicalvolume.c\<close>) shared by the two signal handlers.
\<close>

section \<open>The command a handler runs\<close>

text \<open>
  What the handlers pass to \<open>storage_daemon_launch_spawned_job\<close> beside the thing the job is
  about, the caller's user and no input: the operation and the arguments.
\<close>

record command =
  cmd_operation :: string
  cmd_argv :: "string list"

text \<open>\<open>%s/%s\<close> with the names of a group and a volume, and \<open>-L%lub\<close> with a size.\<close>

definition full_name :: "string \<Rightarrow> string \<Rightarrow> string" where
  "full_name vg lv = vg @ ''/'' @ lv"

definition round_512 :: "u64 \<Rightarrow> u64" where
  "round_512 n = n - n mod 512"

definition size_arg :: "u64 \<Rightarrow> string" where
  "size_arg n = ''-L'' @ dec (unat n) @ ''b''"

lemma unat_round_512: "unat (round_512 n) = unat n - unat n mod 512"
proof -
  have m: "unat (n mod 512) = unat n mod 512" by (simp add: unat_mod_distrib)
  have "n mod 512 \<le> n" by (simp add: word_le_nat_alt m)
  then show ?thesis by (simp add: round_512_def unat_sub m)
qed

lemma round_512_le: "unat (round_512 n) \<le> unat n" and round_512_dvd: "512 dvd unat (round_512 n)"
  by (simp_all add: unat_round_512 minus_mod_eq_mult_div)

section \<open>The ways a call is answered\<close>

text \<open>
  A call is answered at once, or when a job completes, or when an object appears; the last two
  carry the job and the text before the message of a failure.
\<close>

datatype handled = Answered reply | AnswersOnJob thing string | AnswersOnObject thing string

definition failed :: "string \<Rightarrow> handled" where
  "failed message = Answered (ReturnError (udisks_error UDISKS_ERROR_FAILED message))"

section \<open>Answering when the job completes\<close>

definition on_complete :: "string \<Rightarrow> bool \<Rightarrow> string \<Rightarrow> reply" where
  "on_complete failure success message =
     (if success then Return []
      else ReturnError (udisks_error UDISKS_ERROR_FAILED (failure @ message)))"

section \<open>Answering when an object appears\<close>

text \<open>
  The closure while it is connected to the \<open>published\<close> signal; disconnecting frees it.
  \<open>job_done\<close> is whether the job has emitted \<open>completed\<close>, after which it emits no more.
\<close>

record closure_state =
  listening :: bool
  job_done :: bool
  replies :: "reply list"

definition closure_new :: closure_state where
  "closure_new = \<lparr>listening = True, job_done = False, replies = []\<rparr>"

datatype closure_event =
    JobCompleted bool string
  | ThingPublished bool "string option"

text \<open>
  The handler of \<open>completed\<close> does nothing on success, and otherwise uses the closure for the
  error; the handler of \<open>published\<close> answers with the path of the object that matches.
\<close>

definition on_closure_complete :: "string \<Rightarrow> closure_state \<Rightarrow> bool \<Rightarrow> string \<Rightarrow> abort + closure_state" where
  "on_closure_complete failure self success message =
     (let self = self\<lparr>job_done := True\<rparr> in
      if success then Inr self
      else if \<not> listening self then Inl (UseAfterFree ''complete->invocation'')
      else Inr (self\<lparr>replies := replies self @ [ReturnError (udisks_error UDISKS_ERROR_FAILED (failure @ message))],
                     listening := False\<rparr>))"

definition on_closure_published :: "closure_state \<Rightarrow> bool \<Rightarrow> string option \<Rightarrow> closure_state" where
  "on_closure_published self matches path =
     (if matches
      then self\<lparr>replies := replies self @ [Return [case path of None \<Rightarrow> [] | Some p \<Rightarrow> p]], listening := False\<rparr>
      else self)"

fun closure_step :: "string \<Rightarrow> closure_state \<Rightarrow> closure_event \<Rightarrow> abort + closure_state" where
  "closure_step failure self (JobCompleted success message) =
     (if job_done self then Inr self else on_closure_complete failure self success message)"
| "closure_step failure self (ThingPublished matches path) =
     Inr (if listening self then on_closure_published self matches path else self)"

fun_cases closure_step_completed: "closure_step failure self (JobCompleted success message) = Inr s"
fun_cases closure_step_published: "closure_step failure self (ThingPublished matches path) = Inr s"

definition closure_ok :: "closure_state \<Rightarrow> bool" where
  "closure_ok self \<longleftrightarrow> length (replies self) = (if listening self then 0 else 1)"

interpretation cm: guarded_machine "closure_step failure" closure_ok for failure
proof
  show "closure_ok s'" if "closure_ok s" and "closure_step failure s e = Inr s'" for s e s'
    using that
    by (cases e) (auto simp: closure_ok_def on_closure_complete_def on_closure_published_def Let_def
        split: if_splits)
qed

lemma listening_run:
  assumes "listening self" and "\<forall>e \<in> set es. \<forall>m p. e \<noteq> ThingPublished True p \<and> e \<noteq> JobCompleted False m"
  shows "\<exists>s. run_steps (closure_step failure) self es = Inr s \<and> listening s \<and> replies s = replies self"
  using assms
proof (induction es arbitrary: self)
  case (Cons e es)
  have "\<exists>s. closure_step failure self e = Inr s \<and> listening s \<and> replies s = replies self"
  proof (cases e)
    case (JobCompleted success m)
    with Cons.prems show ?thesis by (cases success) (auto simp: on_closure_complete_def Let_def)
  next
    case (ThingPublished matches p)
    with Cons.prems show ?thesis by (cases matches) (auto simp: on_closure_published_def)
  qed
  then obtain s where s: "closure_step failure self e = Inr s" "listening s" "replies s = replies self"
    by blast
  with Cons.IH [OF s(2)] Cons.prems(2) show ?case by auto
qed simp

section \<open>Properties\<close>

text \<open>
  Whatever the order in which the job completes and objects are published, a caller gets
  at most one answer; it gets one exactly when the closure has been released.
\<close>

theorem caller_answered_at_most_once:
  assumes "run_steps (closure_step failure) closure_new es = Inr s"
  shows "length (replies s) = (if listening s then 0 else 1)"
  using cm.run_inv [OF _ assms] by (simp add: closure_ok_def closure_new_def)

lemma caller_answered_at_most_once_witness:
  "\<exists>s. run_steps (closure_step ''Error: '') closure_new
      [ThingPublished False None, JobCompleted True [], ThingPublished True (Some ''/vg''),
       ThingPublished True (Some ''/vg'')] = Inr s \<and> length (replies s) = 1"
proof -
  obtain s where run: "run_steps (closure_step ''Error: '') closure_new
      [ThingPublished False None, JobCompleted True [], ThingPublished True (Some ''/vg''),
       ThingPublished True (Some ''/vg'')] = Inr s" and "\<not> listening s"
    by (simp add: closure_new_def on_closure_complete_def on_closure_published_def Let_def)
  with caller_answered_at_most_once [OF run] show ?thesis by simp
qed

text \<open>
  The two signals race. If the object is published before the job has completed and the job then
  fails, the handler of its completion uses the closure after it was freed; and if the job succeeds
  and no matching object is ever published, the caller is never answered.
\<close>

theorem closure_signals_race:
  "run_steps (closure_step failure) closure_new [ThingPublished True (Some p), JobCompleted False m] =
     Inl (UseAfterFree ''complete->invocation'') \<and>
   (\<exists>s. run_steps (closure_step failure) closure_new
          (JobCompleted True m' # map (ThingPublished False) ps) = Inr s \<and> replies s = [])"
proof -
  have "\<forall>e \<in> set (JobCompleted True m' # map (ThingPublished False) ps).
      \<forall>m p. e \<noteq> ThingPublished True p \<and> e \<noteq> JobCompleted False m"
    by auto
  moreover have "listening closure_new" by (simp add: closure_new_def)
  ultimately obtain s where "run_steps (closure_step failure) closure_new
      (JobCompleted True m' # map (ThingPublished False) ps) = Inr s" and "replies s = replies closure_new"
    using listening_run [of closure_new _ failure] by blast
  moreover have "run_steps (closure_step failure) closure_new
      [ThingPublished True (Some p), JobCompleted False m] = Inl (UseAfterFree ''complete->invocation'')"
    by (simp add: closure_new_def on_closure_complete_def on_closure_published_def Let_def)
  ultimately show ?thesis by (auto simp: closure_new_def)
qed

end
