(* ===== verification/Block_Devices.thy ===== *)
theory Block_Devices
  imports Daemon
begin

text \<open>
  The block devices the daemon adds interfaces to, \<open>src/block.c\<close> and
  \<open>src/physicalvolume.c\<close>: each block known from udisks gets a \<open>LogicalVolumeBlock\<close>
  interface while it is a logical volume and a \<open>PhysicalVolumeBlock\<close> interface while it is a
  physical volume, both published at the path of the udisks object.
\<close>

section \<open>State\<close>

text \<open>
  The two interfaces, with the properties the code sets. A path property is \<open>None\<close> when it was
  set to \<open>NULL\<close>.
\<close>

record pv_iface =
  pvi_thing :: thing
  pvi_volume_group :: "string option"
  pvi_size :: u64
  pvi_free_size :: u64

record lv_block_iface =
  lbi_thing :: thing
  lbi_logical_volume :: "string option"

text \<open>
  What udisks and udev say of the block comes first: its object path, its device and symlinks,
  and its udev device (\<open>None\<close> when there is none) with the properties set on it.
\<close>

record block =
  blk_path :: string
  blk_device :: string
  blk_symlinks :: "string list"
  blk_udev :: "(string \<times> string) list option"
  iface_physical_volume :: "pv_iface option"
  iface_logical_volume :: "lv_block_iface option"

definition udev_property :: "block \<Rightarrow> string \<Rightarrow> string option" where
  "udev_property b key = (case blk_udev b of None \<Rightarrow> None | Some props \<Rightarrow> map_of props key)"

section \<open>Operations\<close>

text \<open>A new instance of a type.\<close>

definition new_thing :: "daemon \<Rightarrow> gtype \<Rightarrow> daemon \<times> thing" where
  "new_thing d ty = (d\<lparr>next_thing := next_thing d + 1\<rparr>, Thing (next_thing d) ty)"

abbreviation unpublish_at :: "daemon \<Rightarrow> string \<Rightarrow> thing \<Rightarrow> daemon" where
  "unpublish_at d p t \<equiv> unpublish d (Some p) (Some t)"

abbreviation publish_at :: "daemon \<Rightarrow> string \<Rightarrow> thing \<Rightarrow> daemon" where
  "publish_at d p t \<equiv> publish d (Some p) False t"

definition storage_physical_volume_new :: "thing \<Rightarrow> pv_iface" where
  "storage_physical_volume_new t =
     \<lparr>pvi_thing = t, pvi_volume_group = None, pvi_size = 0, pvi_free_size = 0\<rparr>"

text \<open>\<open>group_path\<close> is the object path of the group.\<close>

definition storage_physical_volume_update :: "pv_iface \<Rightarrow> string option \<Rightarrow> vardict \<Rightarrow> pv_iface" where
  "storage_physical_volume_update self group_path info =
     (let self = self\<lparr>pvi_volume_group := group_path\<rparr>;
          self = (case lookup_t info ''size'' of Some num \<Rightarrow> self\<lparr>pvi_size := num\<rparr> | None \<Rightarrow> self);
          self = (case lookup_t info ''free-size'' of Some num \<Rightarrow> self\<lparr>pvi_free_size := num\<rparr> | None \<Rightarrow> self)
      in self)"

definition drop_physical_volume :: "daemon \<Rightarrow> block \<Rightarrow> daemon \<times> block" where
  "drop_physical_volume d self =
     (case iface_physical_volume self of
        None \<Rightarrow> (d, self)
      | Some pv \<Rightarrow> (unpublish_at d (blk_path self) (pvi_thing pv), self\<lparr>iface_physical_volume := None\<rparr>))"

definition drop_logical_volume :: "daemon \<Rightarrow> block \<Rightarrow> daemon \<times> block" where
  "drop_logical_volume d self =
     (case iface_logical_volume self of
        None \<Rightarrow> (d, self)
      | Some lv \<Rightarrow> (unpublish_at d (blk_path self) (lbi_thing lv), self\<lparr>iface_logical_volume := None\<rparr>))"

definition storage_block_dispose :: "daemon \<Rightarrow> block \<Rightarrow> daemon \<times> block" where
  "storage_block_dispose d self =
     (let (d, self) = drop_physical_volume d self in drop_logical_volume d self)"

text \<open>\<open>lv\<close> is the logical volume's instance, \<open>None\<close> for \<open>NULL\<close>.\<close>

definition storage_block_update_lv :: "daemon \<Rightarrow> block \<Rightarrow> thing option \<Rightarrow> daemon \<times> block" where
  "storage_block_update_lv d self lv =
     (case lv of
        None \<Rightarrow> drop_logical_volume d self
      | Some t \<Rightarrow>
          let logical_volume_path = path_of d t in
          (case iface_logical_volume self of
             Some i \<Rightarrow>
               (d, self\<lparr>iface_logical_volume := Some (i\<lparr>lbi_logical_volume := logical_volume_path\<rparr>)\<rparr>)
           | None \<Rightarrow>
               let (d, n) = new_thing d LvmLogicalVolumeBlockSkeleton
               in (publish_at d (blk_path self) n,
                   self\<lparr>iface_logical_volume :=
                     Some \<lparr>lbi_thing = n, lbi_logical_volume = logical_volume_path\<rparr>\<rparr>)))"

definition storage_block_update_pv ::
  "daemon \<Rightarrow> block \<Rightarrow> thing option \<Rightarrow> vardict \<Rightarrow> daemon \<times> block" where
  "storage_block_update_pv d self grp pv_info =
     (case grp of
        Some g \<Rightarrow>
          (case iface_physical_volume self of
             None \<Rightarrow>
               let (d, n) = new_thing d StoragePhysicalVolume;
                   pv = storage_physical_volume_update (storage_physical_volume_new n) (path_of d g) pv_info
               in (publish_at d (blk_path self) n, self\<lparr>iface_physical_volume := Some pv\<rparr>)
           | Some pv \<Rightarrow>
               (d, self\<lparr>iface_physical_volume :=
                      Some (storage_physical_volume_update pv (path_of d g) pv_info)\<rparr>))
      | None \<Rightarrow> drop_physical_volume d self)"

text \<open>Whether nobody has the device open exclusively; the error otherwise.\<close>

definition storage_block_is_unused :: "os \<Rightarrow> block \<Rightarrow> systrace \<Rightarrow> gerror option \<times> systrace" where
  "storage_block_is_unused os self tr =
     (let (fd, errno) = sys_open os tr (blk_device self) [O_RDONLY, O_EXCL];
          tr = tr @ [EvOpen (blk_device self) [O_RDONLY, O_EXCL]]
      in if fd < 0 then (Some (device_error os ''Error opening device '' (blk_device self) errno), tr)
         else (None, tr @ [EvClose fd]))"

text \<open>
  A write to the \<open>uevent\<close> file of the block's udev device, if it has one; \<open>sysfs\<close> is the path of
  the device below \<open>/sys\<close>. The file is closed whether the write succeeds or not.
\<close>

definition storage_block_trigger_uevent :: "os \<Rightarrow> string \<Rightarrow> block \<Rightarrow> systrace \<Rightarrow> systrace" where
  "storage_block_trigger_uevent os sysfs self tr =
     (case blk_udev self of
        None \<Rightarrow> tr
      | Some _ \<Rightarrow>
          let path = sysfs @ ''/uevent'';
              (fd, errno) = sys_open os tr path [O_WRONLY];
              tr = tr @ [EvOpen path [O_WRONLY]]
          in if fd < 0 then tr
             else let tr = tr @ [EvWrite fd ''change''] in tr @ [EvClose fd])"

section \<open>The invariant of a block\<close>

text \<open>
  At the path of a block the daemon exports exactly the interfaces the block holds, each
  of its type; and instances not made yet are exported nowhere.
\<close>

definition block_things :: "block \<Rightarrow> thing set" where
  "block_things b = pvi_thing ` set_option (iface_physical_volume b) \<union>
     lbi_thing ` set_option (iface_logical_volume b)"

definition block_types_ok :: "block \<Rightarrow> bool" where
  "block_types_ok b \<longleftrightarrow>
     (\<forall>pv \<in> set_option (iface_physical_volume b). thing_type (pvi_thing pv) = StoragePhysicalVolume) \<and>
     (\<forall>lv \<in> set_option (iface_logical_volume b). thing_type (lbi_thing lv) = LvmLogicalVolumeBlockSkeleton)"

definition block_ok :: "daemon \<Rightarrow> block \<Rightarrow> bool" where
  "block_ok d b \<longleftrightarrow> block_types_ok b \<and> interfaces_at d (blk_path b) = block_things b"

definition bus_ok :: "daemon \<Rightarrow> bool" where
  "bus_ok d \<longleftrightarrow> ht_wf (objects d) \<and> (\<forall>q. \<forall>t \<in> interfaces_at d q. thing_id t < next_thing d)"

text \<open>An operation on a block changes what is exported at its path only.\<close>

definition only_at :: "string \<Rightarrow> daemon \<Rightarrow> daemon \<Rightarrow> bool" where
  "only_at p d d' \<longleftrightarrow> (\<forall>q. q \<noteq> p \<longrightarrow> interfaces_at d' q = interfaces_at d q)"

lemma only_at_refl [simp]: "only_at p d d"
  by (simp add: only_at_def)

lemma only_at_trans: "only_at p d d' \<Longrightarrow> only_at p d' d'' \<Longrightarrow> only_at p d d''"
  by (simp add: only_at_def)

lemma only_at_new [simp]: "interfaces_at (fst (new_thing d ty)) q = interfaces_at d q"
  by (simp add: new_thing_def interfaces_at_def)

lemma daemon_unpublish_frame [simp]:
  fixes d :: daemon
  shows "next_thing (unpublish d p x) = next_thing d" "jobs (unpublish d p x) = jobs d"
  by (auto simp: unpublish_def split: option.splits)

text \<open>An operation on a block: its contract, and what follows for a whole list of blocks.\<close>

definition same_device :: "block \<Rightarrow> block \<Rightarrow> bool" where
  "same_device b b' \<longleftrightarrow> blk_path b' = blk_path b \<and> blk_device b' = blk_device b \<and>
     blk_symlinks b' = blk_symlinks b \<and> blk_udev b' = blk_udev b"

definition block_step :: "daemon \<Rightarrow> block \<Rightarrow> daemon \<times> block \<Rightarrow> bool" where
  "block_step d b r \<longleftrightarrow>
     block_ok (fst r) (snd r) \<and> bus_ok (fst r) \<and> only_at (blk_path b) d (fst r) \<and> same_device b (snd r)"

lemma block_step_refl: "block_ok d b \<Longrightarrow> bus_ok d \<Longrightarrow> block_step d b (d, b)"
  by (simp add: block_step_def same_device_def)

lemma block_step_trans:
  "block_step d b (d', b') \<Longrightarrow> block_step d' b' r \<Longrightarrow> block_step d b r"
  by (auto simp: block_step_def same_device_def intro: only_at_trans)

fun each_block ::
  "(daemon \<Rightarrow> block \<Rightarrow> abort + daemon \<times> block) \<Rightarrow> daemon \<Rightarrow> block htab \<Rightarrow> abort + daemon \<times> block htab" where
  "each_block f d [] = Inr (d, [])"
| "each_block f d ((k, b) # bs) =
     ebind (f d b) (\<lambda>(d, b).
     ebind (each_block f d bs) (\<lambda>(d, bs). Inr (d, (k, b) # bs)))"

definition blocks_ok :: "daemon \<Rightarrow> block htab \<Rightarrow> bool" where
  "blocks_ok d bs \<longleftrightarrow>
     distinct (map fst bs) \<and> (\<forall>(k, b) \<in> set bs. blk_path b = k \<and> block_ok d b)"

definition only_blocks :: "block htab \<Rightarrow> daemon \<Rightarrow> daemon \<Rightarrow> bool" where
  "only_blocks bs d d' \<longleftrightarrow> (\<forall>q. q \<notin> fst ` set bs \<longrightarrow> interfaces_at d' q = interfaces_at d q)"

lemma block_ok_only_at:
  "only_at p d d' \<Longrightarrow> blk_path b \<noteq> p \<Longrightarrow> block_ok d' b = block_ok d b"
  by (simp add: block_ok_def only_at_def)

locale block_operation =
  fixes f :: "daemon \<Rightarrow> block \<Rightarrow> abort + daemon \<times> block"
  assumes step: "block_ok d b \<Longrightarrow> bus_ok d \<Longrightarrow> f d b = Inr s \<Longrightarrow> block_step d b s"
begin

lemma blocks_ok_rest:
  assumes ok: "blocks_ok d ((k, b) # bs)" "bus_ok d" and f: "f d b = Inr (d1, b1)"
  shows "block_step d b (d1, b1)" and "blk_path b = k" and "k \<notin> fst ` set bs" and "blocks_ok d1 bs" and "bus_ok d1"
proof -
  have k: "blk_path b = k" "k \<notin> fst ` set bs" "block_ok d b" "blocks_ok d bs"
    using ok by (auto simp: blocks_ok_def)
  show st: "block_step d b (d1, b1)" by (rule step [OF k(3) ok(2) f])
  show "blk_path b = k" "k \<notin> fst ` set bs" by (rule k)+
  have o: "only_at k d d1" using st by (auto simp: block_step_def k(1))
  show "bus_ok d1" using st by (auto simp: block_step_def)
  have "blk_path c = k' \<and> block_ok d1 c" if c: "(k', c) \<in> set bs" for k' c
  proof -
    have "k' \<noteq> k" using c k(2) by force
    moreover have "blk_path c = k'" "block_ok d c" using k(4) c by (auto simp: blocks_ok_def)
    ultimately show ?thesis using block_ok_only_at [OF o] by simp
  qed
  then show "blocks_ok d1 bs" using k(4) by (auto simp: blocks_ok_def)
qed

lemma each_block_ok:
  assumes "blocks_ok d bs" and "bus_ok d" and "each_block f d bs = Inr (d', bs')"
  shows "blocks_ok d' bs' \<and> bus_ok d' \<and> only_blocks bs d d' \<and> map fst bs' = map fst bs"
  using assms
proof (induction bs arbitrary: d d' bs')
  case Nil
  then show ?case by (simp add: only_blocks_def)
next
  case (Cons kb bs)
  obtain k b where kb: "kb = (k, b)" by (cases kb)
  obtain d1 b1 bs2 where f: "f d b = Inr (d1, b1)" and r: "each_block f d1 bs = Inr (d', bs2)" "bs' = (k, b1) # bs2"
    using Cons.prems(3) by (auto simp: kb ebind_Inr)
  note rest = blocks_ok_rest [OF Cons.prems(1) [unfolded kb] Cons.prems(2) f]
  have o: "only_at k d d1" "block_ok d1 b1" "same_device b b1"
    using rest(1,2) by (auto simp: block_step_def)
  from Cons.IH [OF rest(4,5) r(1)]
  have IH: "blocks_ok d' bs2" "bus_ok d'" "only_blocks bs d1 d'" "map fst bs2 = map fst bs" by auto
  have b1: "blk_path b1 = k" using o(3) rest(2) by (simp add: same_device_def)
  have "interfaces_at d' k = interfaces_at d1 k" using IH(3) rest(3) by (simp add: only_blocks_def)
  then have "block_ok d' b1" using o(2) b1 by (simp add: block_ok_def)
  moreover have "k \<notin> fst ` set bs2" using IH(4) rest(3) by (metis list.set_map)
  ultimately have "blocks_ok d' bs'" using IH(1) b1 by (simp add: blocks_ok_def r(2))
  moreover have "only_blocks (kb # bs) d d'"
    using IH(3) o(1) by (simp add: only_blocks_def only_at_def kb)
  ultimately show ?case using IH(2,4) by (simp add: r(2) kb)
qed

text \<open>What each operation achieves while \<open>J\<close> holds of the daemon, all of them achieve.\<close>

lemma each_block_rel:
  assumes "blocks_ok d bs" and "bus_ok d" and "each_block f d bs = Inr (d', bs')" and "J d"
    and R: "\<And>d b d1 b1. block_ok d b \<Longrightarrow> bus_ok d \<Longrightarrow> J d \<Longrightarrow> f d b = Inr (d1, b1) \<Longrightarrow> J d1 \<and> R b b1"
  shows "J d' \<and> (\<forall>k b. map_of bs k = Some b \<longrightarrow> (\<exists>b'. map_of bs' k = Some b' \<and> R b b'))"
  using assms(1-4)
proof (induction bs arbitrary: d d' bs')
  case (Cons kb bs)
  obtain k b where kb: "kb = (k, b)" by (cases kb)
  obtain d1 b1 bs2 where f: "f d b = Inr (d1, b1)" and r: "each_block f d1 bs = Inr (d', bs2)" "bs' = (k, b1) # bs2"
    using Cons.prems(3) by (auto simp: kb ebind_Inr)
  note rest = blocks_ok_rest [OF Cons.prems(1) [unfolded kb] Cons.prems(2) f]
  have "block_ok d b" using Cons.prems(1) by (auto simp: blocks_ok_def kb)
  from R [OF this Cons.prems(2,4) f] have "J d1" "R b b1" by auto
  with Cons.IH [OF rest(4,5) r(1)] show ?case by (auto simp: r(2) kb)
qed simp

end

lemma block_typesD:
  "block_ok d b \<Longrightarrow> iface_physical_volume b = Some pv \<Longrightarrow> thing_type (pvi_thing pv) = StoragePhysicalVolume"
  "block_ok d b \<Longrightarrow> iface_logical_volume b = Some lv \<Longrightarrow> thing_type (lbi_thing lv) = LvmLogicalVolumeBlockSkeleton"
  by (simp_all add: block_ok_def block_types_ok_def)

lemma bus_ok_unpublish:
  "is_dbus_interface t \<Longrightarrow> bus_ok d \<Longrightarrow> bus_ok (unpublish_at d p t)"
  by (auto simp: bus_ok_def interfaces_at_unpublish ht_wf_unpublish)

lemma bus_ok_publish:
  assumes "is_dbus_interface t" and "bus_ok d" and "thing_id t < next_thing d"
  shows "bus_ok (publish_at d p t)"
proof -
  have "next_thing (publish_at d p t) = next_thing d"
    using assms(1) by (simp add: publish_def Let_def)
  then show ?thesis
    using assms by (auto simp: bus_ok_def interfaces_at_publish ht_wf_publish split: if_splits)
qed

lemma bus_ok_new: "bus_ok d \<Longrightarrow> new_thing d ty = (d1, n) \<Longrightarrow> bus_ok d1 \<and> thing_id n < next_thing d1"
  by (auto simp: bus_ok_def new_thing_def interfaces_at_def less_Suc_eq split: option.splits)

lemma drop_physical_volume_step:
  assumes ok: "block_ok d b" and ids: "bus_ok d"
  shows "block_step d b (drop_physical_volume d b)"
proof (cases "iface_physical_volume b")
  case None
  then show ?thesis using block_step_refl [OF ok ids] by (simp add: drop_physical_volume_def)
next
  case (Some pv)
  have t: "thing_type (pvi_thing pv) = StoragePhysicalVolume" by (rule block_typesD(1) [OF ok Some])
  have dbus: "is_dbus_interface (pvi_thing pv)" by (simp add: is_dbus_interface_def t)
  have lv: "lbi_thing lv \<noteq> pvi_thing pv" if "iface_logical_volume b = Some lv" for lv
    using block_typesD(2) [OF ok that] t by auto
  let ?d = "unpublish_at d (blk_path b) (pvi_thing pv)" and ?b = "b\<lparr>iface_physical_volume := None\<rparr>"
  have "interfaces_at ?d (blk_path b) = block_things b - {pvi_thing pv}"
    using ok by (simp add: interfaces_at_unpublish [OF dbus] block_ok_def)
  also have "\<dots> = block_things ?b"
    using Some lv by (cases "iface_logical_volume b") (auto simp: block_things_def)
  finally have "block_ok ?d ?b" using ok by (simp add: block_ok_def block_types_ok_def)
  moreover have "only_at (blk_path b) d ?d" by (simp add: only_at_def interfaces_at_unpublish [OF dbus])
  ultimately show ?thesis
    using bus_ok_unpublish [OF dbus ids] Some
    by (simp add: drop_physical_volume_def block_step_def same_device_def)
qed

lemma drop_logical_volume_step:
  assumes ok: "block_ok d b" and ids: "bus_ok d"
  shows "block_step d b (drop_logical_volume d b)"
proof (cases "iface_logical_volume b")
  case None
  then show ?thesis using block_step_refl [OF ok ids] by (simp add: drop_logical_volume_def)
next
  case (Some lv)
  have t: "thing_type (lbi_thing lv) = LvmLogicalVolumeBlockSkeleton" by (rule block_typesD(2) [OF ok Some])
  have dbus: "is_dbus_interface (lbi_thing lv)" by (simp add: is_dbus_interface_def t)
  have pv: "pvi_thing pv \<noteq> lbi_thing lv" if "iface_physical_volume b = Some pv" for pv
    using block_typesD(1) [OF ok that] t by auto
  let ?d = "unpublish_at d (blk_path b) (lbi_thing lv)" and ?b = "b\<lparr>iface_logical_volume := None\<rparr>"
  have "interfaces_at ?d (blk_path b) = block_things b - {lbi_thing lv}"
    using ok by (simp add: interfaces_at_unpublish [OF dbus] block_ok_def)
  also have "\<dots> = block_things ?b"
    using Some pv by (cases "iface_physical_volume b") (auto simp: block_things_def)
  finally have "block_ok ?d ?b" using ok by (simp add: block_ok_def block_types_ok_def)
  moreover have "only_at (blk_path b) d ?d" by (simp add: only_at_def interfaces_at_unpublish [OF dbus])
  ultimately show ?thesis
    using bus_ok_unpublish [OF dbus ids] Some
    by (simp add: drop_logical_volume_def block_step_def same_device_def)
qed

lemma storage_block_dispose_step:
  assumes "block_ok d b" and "bus_ok d"
  shows "block_step d b (storage_block_dispose d b)"
proof -
  obtain d1 b1 where 1: "drop_physical_volume d b = (d1, b1)" by fastforce
  from drop_physical_volume_step [OF assms] have st: "block_step d b (d1, b1)" by (simp add: 1)
  then have "block_step d1 b1 (drop_logical_volume d1 b1)"
    by (intro drop_logical_volume_step) (auto simp: block_step_def)
  with st show ?thesis by (auto simp: storage_block_dispose_def 1 intro: block_step_trans)
qed

text \<open>A new instance is published at the path of a block that has no interface of the type.\<close>

lemma publish_new_step:
  assumes ok: "block_ok d b" and ids: "bus_ok d" and n: "new_thing d ty = (d1, n)"
    and ty: "ty = StoragePhysicalVolume \<and> iface_physical_volume b = None \<or>
      ty = LvmLogicalVolumeBlockSkeleton \<and> iface_logical_volume b = None"
  shows "interfaces_at (publish_at d1 (blk_path b) n) (blk_path b) = insert n (block_things b)"
    and "bus_ok (publish_at d1 (blk_path b) n)" and "only_at (blk_path b) d (publish_at d1 (blk_path b) n)"
    and "thing_type n = ty"
proof -
  have eq: "n = Thing (next_thing d) ty" "d1 = d\<lparr>next_thing := next_thing d + 1\<rparr>"
    using n by (simp_all add: new_thing_def)
  then have dbus: "is_dbus_interface n" using ty by (auto simp: is_dbus_interface_def)
  have at: "interfaces_at d1 q = interfaces_at d q" for q by (simp add: eq interfaces_at_def)
  have "iface_name i \<noteq> iface_name n" if "i \<in> block_things b" for i
    using that ok ty by (auto simp: block_things_def block_ok_def block_types_ok_def eq)
  then show "interfaces_at (publish_at d1 (blk_path b) n) (blk_path b) = insert n (block_things b)"
    using ok by (auto simp: interfaces_at_publish [OF dbus] at block_ok_def)
  show "only_at (blk_path b) d (publish_at d1 (blk_path b) n)"
    by (simp add: only_at_def interfaces_at_publish [OF dbus] at)
  show "thing_type n = ty" by (simp add: eq)
  show "bus_ok (publish_at d1 (blk_path b) n)"
    using bus_ok_new [OF ids n] by (blast intro: bus_ok_publish [OF dbus])
qed

lemma storage_block_update_lv_step:
  assumes ok: "block_ok d b" and ids: "bus_ok d"
  shows "block_step d b (storage_block_update_lv d b lv)"
proof (cases lv)
  case None
  then show ?thesis using drop_logical_volume_step [OF assms] by (simp add: storage_block_update_lv_def)
next
  case (Some t)
  show ?thesis
  proof (cases "iface_logical_volume b")
    case None
    obtain d1 n where n: "new_thing d LvmLogicalVolumeBlockSkeleton = (d1, n)" by fastforce
    show ?thesis
      using publish_new_step [OF ok ids n] None Some n ok
      by (simp add: storage_block_update_lv_def block_step_def block_ok_def block_types_ok_def
          block_things_def same_device_def)
  next
    case (Some i)
    with \<open>lv = Some t\<close> ok ids show ?thesis
      by (simp add: storage_block_update_lv_def block_step_def block_ok_def block_types_ok_def
          block_things_def same_device_def)
  qed
qed

lemma physical_volume_update_thing [simp]:
  "pvi_thing (storage_physical_volume_update pv p info) = pvi_thing pv"
  "pvi_volume_group (storage_physical_volume_update pv p info) = p"
  by (simp_all add: storage_physical_volume_update_def Let_def split: option.splits)

lemma storage_block_update_pv_step:
  assumes ok: "block_ok d b" and ids: "bus_ok d"
  shows "block_step d b (storage_block_update_pv d b grp info)"
proof (cases grp)
  case None
  then show ?thesis using drop_physical_volume_step [OF assms] by (simp add: storage_block_update_pv_def)
next
  case (Some g)
  show ?thesis
  proof (cases "iface_physical_volume b")
    case None
    obtain d1 n where n: "new_thing d StoragePhysicalVolume = (d1, n)" by fastforce
    have "thing_type n = StoragePhysicalVolume" using n by (auto simp: new_thing_def)
    then show ?thesis
      using publish_new_step [OF ok ids n] None Some n ok
      by (simp add: storage_block_update_pv_def block_step_def block_ok_def block_types_ok_def
          block_things_def same_device_def storage_physical_volume_new_def Let_def)
  next
    case (Some i)
    with \<open>grp = Some g\<close> ok ids show ?thesis
      by (simp add: storage_block_update_pv_def block_step_def block_ok_def block_types_ok_def
          block_things_def same_device_def)
  qed
qed

interpretation dispose: block_operation "\<lambda>d b. Inr (storage_block_dispose d b)"
  by unfold_locales (metis sum.inject(2) storage_block_dispose_step)

interpretation upd_lv: block_operation "\<lambda>d b. Inr (storage_block_update_lv d b lv)" for lv
  by unfold_locales (metis sum.inject(2) storage_block_update_lv_step)

interpretation upd_pv: block_operation "\<lambda>d b. Inr (storage_block_update_pv d b grp info)" for grp info
  by unfold_locales (metis sum.inject(2) storage_block_update_pv_step)

section \<open>Properties\<close>

datatype block_op = UpdateLv "thing option" | UpdatePv "thing option" vardict | DisposeBlock

fun block_op_step :: "daemon \<times> block \<Rightarrow> block_op \<Rightarrow> unit + daemon \<times> block" where
  "block_op_step (d, b) (UpdateLv lv) = Inr (storage_block_update_lv d b lv)"
| "block_op_step (d, b) (UpdatePv grp info) = Inr (storage_block_update_pv d b grp info)"
| "block_op_step (d, b) DisposeBlock = Inr (storage_block_dispose d b)"

lemma block_op_step_ok:
  assumes "block_step d b s"
  shows "\<exists>s'. block_op_step s e = Inr s' \<and> block_step d b s'"
proof -
  obtain d1 b1 where s: "s = (d1, b1)" by (cases s)
  have ok: "block_ok d1 b1" "bus_ok d1" using assms by (auto simp: block_step_def s)
  show ?thesis
    using assms storage_block_update_lv_step [OF ok] storage_block_update_pv_step [OF ok]
      storage_block_dispose_step [OF ok]
    by (cases e) (auto simp: s intro: block_step_trans)
qed

interpretation bm: safe_machine block_op_step "block_step d b" for d b
proof
  show "block_step d b s'" if "block_step d b s" and "block_op_step s e = Inr s'" for s e s'
    using block_op_step_ok [OF that(1), of e] that(2) by auto
  show "\<exists>s'. block_op_step s e = Inr s'" if "block_step d b s" for s e
    using block_op_step_ok [OF that, of e] by blast
qed

text \<open>
  C30: Whatever sequence of updates a block gets as logical and as physical volume, and
  whether or not it is disposed, what the daemon exports at its path afterwards are exactly the
  interfaces the block holds, and nothing changes at any other path.
\<close>

theorem block_interfaces_exact:
  assumes "block_ok d b" and "bus_ok d"
  shows "\<exists>d' b'. run_steps block_op_step (d, b) ops = Inr (d', b') \<and>
    interfaces_at d' (blk_path b) = block_things b' \<and>
    (\<forall>q. q \<noteq> blk_path b \<longrightarrow> interfaces_at d' q = interfaces_at d q)"
  using bm.run_total [OF block_step_refl [OF assms], of ops]
  by (auto simp: block_step_def block_ok_def only_at_def same_device_def)

lemma block_interfaces_exact_witness:
  "\<exists>d' b'. run_steps block_op_step
      (storage_daemon_init True None,
       \<lparr>blk_path = ''/b/sda1'', blk_device = ''/dev/sda1'', blk_symlinks = [], blk_udev = None,
        iface_physical_volume = None, iface_logical_volume = None\<rparr>)
      [UpdatePv (Some (Thing 9 StorageVolumeGroup)) [(''size'', VUint64 5)], UpdateLv None, DisposeBlock]
    = Inr (d', b') \<and> interfaces_at d' ''/b/sda1'' = block_things b'"
  using block_interfaces_exact [of "storage_daemon_init True None"
      "\<lparr>blk_path = ''/b/sda1'', blk_device = ''/dev/sda1'', blk_symlinks = [], blk_udev = None,
        iface_physical_volume = None, iface_logical_volume = None\<rparr>"
      "[UpdatePv (Some (Thing 9 StorageVolumeGroup)) [(''size'', VUint64 5)], UpdateLv None, DisposeBlock]"]
  by (auto simp: block_ok_def block_types_ok_def block_things_def bus_ok_def ht_wf_def storage_daemon_init_def
      interfaces_at_def ht_lookup_def)

end
