(* ===== verification/Logical_Volume.thy ===== *)
theory Logical_Volume
  imports Requests Block_Devices
begin

text \<open>
  Logical volumes, \<open>src/logicalvolume.c\<close>: the interface and its update from what the helper
  says about the volume, its publication below its volume group, and the commands its methods
  run.
\<close>

section \<open>State\<close>

text \<open>
  The instance with the properties of its skeleton that the code sets; a string property is
  \<open>None\<close> before it is set. \<open>lvo_group\<close> is the instance of the volume group.
\<close>

record logical_volume =
  lvo_thing :: thing
  lvo_name :: string
  needs_publish :: bool
  needs_udev_hack :: bool
  lvo_group :: "thing option"
  lvo_uuid :: "string option"
  lvo_size :: u64
  lvo_type :: string
  lvo_active :: bool
  data_allocated_ratio :: gdouble
  metadata_allocated_ratio :: gdouble
  thin_pool :: "string option"
  lvo_origin :: "string option"

definition storage_logical_volume_new :: "thing \<Rightarrow> thing \<Rightarrow> string \<Rightarrow> logical_volume" where
  "storage_logical_volume_new t grp name =
     \<lparr>lvo_thing = t, lvo_name = name, needs_publish = True, needs_udev_hack = True,
      lvo_group = Some grp, lvo_uuid = None, lvo_size = 0, lvo_type = [], lvo_active = False,
      data_allocated_ratio = Fin 0, metadata_allocated_ratio = Fin 0, thin_pool = None,
      lvo_origin = None\<rparr>"

section \<open>Operations\<close>

definition storage_logical_volume_dispose :: "daemon \<Rightarrow> logical_volume \<Rightarrow> daemon \<times> logical_volume" where
  "storage_logical_volume_dispose d self =
     (let self = self\<lparr>needs_publish := False\<rparr>
      in case path_of d (lvo_thing self) of
           None \<Rightarrow> (d, self)
         | Some path \<Rightarrow> (unpublish_at d path (lvo_thing self), self))"

text \<open>
  The attribute string: the kind of volume, whether it is active, and whether it needs polling.
  A string of six characters or less says nothing.
\<close>

definition parse_lv_attr :: "vardict \<Rightarrow> string \<times> bool \<times> bool" where
  "parse_lv_attr info =
     (case lookup_s info ''lv_attr'' of
        None \<Rightarrow> (''block'', False, False)
      | Some str \<Rightarrow>
          if 6 < length str then
            let volume_type = str ! 0; state = str ! 4; target_type = str ! 6
            in (if target_type = CHR ''t'' \<and> volume_type = CHR ''t'' then ''pool'' else ''block'',
                state = CHR ''a'', target_type = CHR ''t'')
          else (''block'', False, False))"

text \<open>A percentage in millionths, if there is one and it is not negative as a signed number.\<close>

definition percent_ratio :: "vardict \<Rightarrow> string \<Rightarrow> gdouble \<Rightarrow> gdouble" where
  "percent_ratio info key old =
     (case lookup_t info key of
        Some num \<Rightarrow> if 0 \<le> sint num then lvm_ratio num else old
      | None \<Rightarrow> old)"

text \<open>The object path of the volume a property names, \<open>/\<close> when there is none.\<close>

definition related_path :: "daemon \<Rightarrow> logical_volume htab \<Rightarrow> vardict \<Rightarrow> string \<Rightarrow> string option" where
  "related_path d volumes info key =
     (case lookup_s info key of
        Some (c # cs) \<Rightarrow>
          (case ht_lookup volumes (c # cs) of
             Some v \<Rightarrow> path_of d (lvo_thing v)
           | None \<Rightarrow> Some ''/'')
      | _ \<Rightarrow> Some ''/'')"

definition set_props :: "daemon \<Rightarrow> logical_volume htab \<Rightarrow> thing \<Rightarrow> vardict \<Rightarrow> logical_volume \<Rightarrow> logical_volume" where
  "set_props d volumes grp info self =
     (let self = (case lookup_s info ''uuid'' of Some str \<Rightarrow> self\<lparr>lvo_uuid := Some str\<rparr> | None \<Rightarrow> self);
          self = (case lookup_t info ''size'' of Some num \<Rightarrow> self\<lparr>lvo_size := num\<rparr> | None \<Rightarrow> self);
          (ty, active, _) = parse_lv_attr info;
          self = self\<lparr>lvo_type := ty, lvo_active := active\<rparr>;
          self = self\<lparr>data_allocated_ratio := percent_ratio info ''data_percent'' (data_allocated_ratio self)\<rparr>;
          self = self\<lparr>metadata_allocated_ratio :=
                        percent_ratio info ''metadata_percent'' (metadata_allocated_ratio self)\<rparr>;
          self = self\<lparr>thin_pool := related_path d volumes info ''pool_lv''\<rparr>;
          self = self\<lparr>lvo_origin := related_path d volumes info ''origin''\<rparr>
      in self\<lparr>lvo_group := Some grp\<rparr>)"

text \<open>
  The update: \<open>volumes\<close> is the group's table, for the volumes the properties name; the result
  adds the trace of system calls and whether polling is needed.
\<close>

definition storage_logical_volume_update ::
  "os \<Rightarrow> logical_volume htab \<Rightarrow> thing \<Rightarrow> vardict \<Rightarrow> daemon \<Rightarrow> systrace \<Rightarrow> bool \<Rightarrow> logical_volume \<Rightarrow>
   daemon \<times> systrace \<times> bool \<times> logical_volume" where
  "storage_logical_volume_update os volumes grp info d tr needs_polling self =
     (let self = set_props d volumes grp info self;
          needs_polling = (needs_polling \<or> snd (snd (parse_lv_attr info)));
          (tr, self) =
            (case (needs_udev_hack self, lookup_s info ''lv_path'') of
               (True, Some dev_file) \<Rightarrow>
                 (trigger_udev os dev_file tr, self\<lparr>needs_udev_hack := False\<rparr>)
             | _ \<Rightarrow> (tr, self));
          (d, self) =
            (if needs_publish self
             then (publish d (build_object_path (path_of d grp) [lvo_name self]) False (lvo_thing self),
                   self\<lparr>needs_publish := False\<rparr>)
             else (d, self))
      in (d, tr, needs_polling, self))"

section \<open>Methods\<close>

definition lv_delete :: "string \<Rightarrow> string \<Rightarrow> command" where
  "lv_delete vg lv = \<lparr>cmd_operation = ''lvm-lvol-delete'', cmd_argv = [''lvremove'', ''-f'', full_name vg lv]\<rparr>"

definition lv_rename :: "string \<Rightarrow> string \<Rightarrow> string \<Rightarrow> command" where
  "lv_rename vg lv new_name =
     \<lparr>cmd_operation = ''lvm-vg-rename'', cmd_argv = [''lvrename'', full_name vg lv, new_name]\<rparr>"

definition lv_resize :: "string \<Rightarrow> string \<Rightarrow> u64 \<Rightarrow> vardict \<Rightarrow> command" where
  "lv_resize vg lv new_size options =
     (let resize_fsys = (case lookup_b options ''resize_fsys'' of Some b \<Rightarrow> b | None \<Rightarrow> False)
      in \<lparr>cmd_operation = ''lvm-vg-resize'',
          cmd_argv = [''lvresize'', full_name vg lv, size_arg (round_512 new_size)] @
            (if resize_fsys then [''-r''] else [])\<rparr>)"

definition lv_activate :: "string \<Rightarrow> string \<Rightarrow> command" where
  "lv_activate vg lv =
     \<lparr>cmd_operation = ''lvm-lvol-activate'',
      cmd_argv = [''lvchange'', full_name vg lv, ''-ay'', ''-K'', ''--yes'']\<rparr>"

definition lv_deactivate :: "string \<Rightarrow> string \<Rightarrow> command" where
  "lv_deactivate vg lv =
     \<lparr>cmd_operation = ''lvm-lvol-deactivate'',
      cmd_argv = [''lvchange'', full_name vg lv, ''-an'', ''-K'', ''--yes'']\<rparr>"

definition lv_create_snapshot :: "string \<Rightarrow> string \<Rightarrow> string \<Rightarrow> u64 \<Rightarrow> command" where
  "lv_create_snapshot vg lv name sz =
     \<lparr>cmd_operation = ''lvm-lvol-snapshot'',
      cmd_argv = [''lvcreate'', ''-s'', full_name vg lv, ''-n'', name] @
        (if 0 < sz then [size_arg (round_512 sz)] else [])\<rparr>"

text \<open>A method of a volume launches its command as a job about the volume.\<close>

definition launch_command ::
  "(thing \<Rightarrow> string option) \<Rightarrow> (string list \<Rightarrow> gerror + nat) \<Rightarrow> daemon \<Rightarrow> thing \<Rightarrow> u32 \<Rightarrow> command \<Rightarrow> daemon \<times> thing" where
  "launch_command get_path spawn d self uid c =
     storage_daemon_launch_spawned_jobv get_path spawn d (Some self) (cmd_operation c) uid False 0 0 None
       (cmd_argv c)"

text \<open>The handlers; \<open>vg\<close> is the name of the volume's group.\<close>

definition lv_handle_delete ::
  "(string list \<Rightarrow> gerror + nat) \<Rightarrow> u32 \<Rightarrow> string \<Rightarrow> daemon \<Rightarrow> logical_volume \<Rightarrow> daemon \<times> handled" where
  "lv_handle_delete spawn uid vg d self =
     (let (d, job) = launch_command (path_of d) spawn d (lvo_thing self) uid (lv_delete vg (lvo_name self))
      in (d, AnswersOnJob job ''Error deleting logical volume: ''))"

definition lv_handle_rename ::
  "(string list \<Rightarrow> gerror + nat) \<Rightarrow> u32 \<Rightarrow> string \<Rightarrow> daemon \<Rightarrow> logical_volume \<Rightarrow> string \<Rightarrow> daemon \<times> handled" where
  "lv_handle_rename spawn uid vg d self new_name =
     (let (d, job) = launch_command (path_of d) spawn d (lvo_thing self) uid (lv_rename vg (lvo_name self) new_name)
      in (d, AnswersOnObject job ''Error renaming logical volume: ''))"

definition lv_handle_resize ::
  "(string list \<Rightarrow> gerror + nat) \<Rightarrow> u32 \<Rightarrow> string \<Rightarrow> daemon \<Rightarrow> logical_volume \<Rightarrow> u64 \<Rightarrow> vardict \<Rightarrow> daemon \<times> handled" where
  "lv_handle_resize spawn uid vg d self new_size options =
     (let (d, job) = launch_command (path_of d) spawn d (lvo_thing self) uid (lv_resize vg (lvo_name self) new_size options)
      in (d, AnswersOnJob job ''Error resizing logical volume: ''))"

definition lv_handle_activate ::
  "(string list \<Rightarrow> gerror + nat) \<Rightarrow> u32 \<Rightarrow> string \<Rightarrow> daemon \<Rightarrow> logical_volume \<Rightarrow> daemon \<times> handled" where
  "lv_handle_activate spawn uid vg d self =
     (let (d, job) = launch_command (path_of d) spawn d (lvo_thing self) uid (lv_activate vg (lvo_name self))
      in (d, AnswersOnObject job ''Error activating logical volume: ''))"

definition lv_handle_deactivate ::
  "(string list \<Rightarrow> gerror + nat) \<Rightarrow> u32 \<Rightarrow> string \<Rightarrow> daemon \<Rightarrow> logical_volume \<Rightarrow> daemon \<times> handled" where
  "lv_handle_deactivate spawn uid vg d self =
     (let (d, job) = launch_command (path_of d) spawn d (lvo_thing self) uid (lv_deactivate vg (lvo_name self))
      in (d, AnswersOnJob job ''Error deactivating logical volume: ''))"

definition lv_handle_create_snapshot ::
  "(string list \<Rightarrow> gerror + nat) \<Rightarrow> u32 \<Rightarrow> string \<Rightarrow> daemon \<Rightarrow> logical_volume \<Rightarrow> string \<Rightarrow> u64 \<Rightarrow> daemon \<times> handled" where
  "lv_handle_create_snapshot spawn uid vg d self name sz =
     (let (d, job) = launch_command (path_of d) spawn d (lvo_thing self) uid (lv_create_snapshot vg (lvo_name self) name sz)
      in (d, AnswersOnObject job ''Error creating snapshot: ''))"

section \<open>What an update changes\<close>

lemma set_props_frame [simp]:
  "lvo_thing (set_props d vs g i self) = lvo_thing self"
  "lvo_name (set_props d vs g i self) = lvo_name self"
  "needs_publish (set_props d vs g i self) = needs_publish self"
  "needs_udev_hack (set_props d vs g i self) = needs_udev_hack self"
  "lvo_group (set_props d vs g i self) = Some g"
  "lvo_type (set_props d vs g i self) = fst (parse_lv_attr i)"
  "lvo_active (set_props d vs g i self) = fst (snd (parse_lv_attr i))"
  by (simp_all add: set_props_def Let_def split_beta split: option.split)

lemma update_eq:
  "storage_logical_volume_update os vs g i d tr np self =
     (if needs_publish self
      then publish d (build_object_path (path_of d g) [lvo_name self]) False (lvo_thing self) else d,
      if needs_udev_hack self
      then case lookup_s i ''lv_path'' of Some dev \<Rightarrow> trigger_udev os dev tr | None \<Rightarrow> tr else tr,
      np \<or> snd (snd (parse_lv_attr i)),
      (set_props d vs g i self)\<lparr>needs_publish := False,
        needs_udev_hack := needs_udev_hack self \<and> lookup_s i ''lv_path'' = None\<rparr>)"
  by (cases "needs_udev_hack self"; cases "needs_publish self"; cases "lookup_s i ''lv_path''")
    (simp_all add: storage_logical_volume_update_def Let_def)

lemma update_simps:
  assumes "storage_logical_volume_update os vs g i d tr np self = (d', tr', np', self')"
  shows "lvo_thing self' = lvo_thing self" and "lvo_name self' = lvo_name self"
    and "\<not> needs_publish self'"
    and "d' = (if needs_publish self
               then publish d (build_object_path (path_of d g) [lvo_name self]) False (lvo_thing self) else d)"
    and "tr' = (if needs_udev_hack self
                then case lookup_s i ''lv_path'' of Some dev \<Rightarrow> trigger_udev os dev tr | None \<Rightarrow> tr else tr)"
    and "needs_udev_hack self' \<longleftrightarrow> needs_udev_hack self \<and> lookup_s i ''lv_path'' = None"
    and "np' \<longleftrightarrow> np \<or> snd (snd (parse_lv_attr i))"
    and "lvo_type self' = fst (parse_lv_attr i)" and "lvo_active self' = fst (snd (parse_lv_attr i))"
    and "lvo_group self' = Some g"
  using assms unfolding update_eq by auto

lemma parse_lv_attr_iff:
  "parse_lv_attr i = (ty, active, polling) \<longleftrightarrow>
     (\<exists>s. lookup_s i ''lv_attr'' = Some s \<and> 6 < length s \<and>
        ty = (if s ! 6 = CHR ''t'' \<and> s ! 0 = CHR ''t'' then ''pool'' else ''block'') \<and>
        active = (s ! 4 = CHR ''a'') \<and> polling = (s ! 6 = CHR ''t'')) \<or>
     ((\<forall>s. lookup_s i ''lv_attr'' = Some s \<longrightarrow> length s \<le> 6) \<and>
        ty = ''block'' \<and> \<not> active \<and> \<not> polling)"
  by (auto simp: parse_lv_attr_def Let_def split: option.splits)

text \<open>A volume and its successive updates, with the daemon, the trace and the polling flag.\<close>

fun updates ::
  "os \<Rightarrow> logical_volume htab \<Rightarrow> thing \<Rightarrow> vardict list \<Rightarrow> daemon \<times> systrace \<times> bool \<times> logical_volume \<Rightarrow>
   daemon \<times> systrace \<times> bool \<times> logical_volume" where
  "updates os vs g [] s = s"
| "updates os vs g (i # is) (d, tr, np, self) =
     updates os vs g is (storage_logical_volume_update os vs g i d tr np self)"

text \<open>The device of the first report that has one.\<close>

fun first_device :: "vardict list \<Rightarrow> string option" where
  "first_device [] = None"
| "first_device (i # is) =
     (case lookup_s i ''lv_path'' of Some dev \<Rightarrow> Some dev | None \<Rightarrow> first_device is)"

definition opened_for :: "os \<Rightarrow> string option \<Rightarrow> systrace \<Rightarrow> systrace" where
  "opened_for os dev tr = (case dev of None \<Rightarrow> tr | Some dev \<Rightarrow> trigger_udev os dev tr)"

lemma updates_published:
  assumes "\<not> needs_publish self" and "updates os vs g is (d, tr, np, self) = (d', tr', np', self')"
  shows "d' = d \<and> tr' = (if needs_udev_hack self then opened_for os (first_device is) tr else tr) \<and>
    lvo_thing self' = lvo_thing self"
  using assms
proof (induction "is" arbitrary: d tr np self)
  case (Cons i "is")
  obtain d1 tr1 np1 self1 where u: "storage_logical_volume_update os vs g i d tr np self = (d1, tr1, np1, self1)"
    by (cases "storage_logical_volume_update os vs g i d tr np self") auto
  note f = update_simps [OF u]
  from Cons.IH [OF f(3), of d1 tr1 np1] Cons.prems(2) u
  have "d' = d1" "tr' = (if needs_udev_hack self1 then opened_for os (first_device is) tr1 else tr1)"
    "lvo_thing self' = lvo_thing self1" by simp_all
  with f(1,4,5,6) Cons.prems(1) show ?case
    by (auto simp: opened_for_def split: option.splits)
qed (simp add: opened_for_def)

section \<open>Properties\<close>

text \<open>
  However often a new volume is updated, it is announced on the bus once, at the path of its
  name below its group (not at all when the group has no path), and its device is opened for
  udev once, as soon as a report names it.
\<close>

theorem volume_announced_once:
  assumes "updates os vs g (i # is) (d, tr, np, storage_logical_volume_new t g name) = (d', tr', np', self')"
    and "thing_type t = StorageLogicalVolume"
  shows "emitted d' = emitted d @ (case build_object_path (path_of d g) [name] of
           None \<Rightarrow> [] | Some p \<Rightarrow> [Published t p]) \<and>
    tr' = opened_for os (first_device (i # is)) tr"
proof -
  let ?v = "storage_logical_volume_new t g name"
  obtain d1 tr1 np1 v1 where u: "storage_logical_volume_update os vs g i d tr np ?v = (d1, tr1, np1, v1)"
    by (cases "storage_logical_volume_update os vs g i d tr np ?v") auto
  note f = update_simps [OF u]
  have r: "d' = d1 \<and> tr' = (if needs_udev_hack v1 then opened_for os (first_device is) tr1 else tr1) \<and>
      lvo_thing self' = lvo_thing v1"
    using updates_published [OF f(3)] assms(1) u by simp
  have t: "is_dbus_interface t" using assms(2) by (simp add: is_dbus_interface_def)
  have "tr' = opened_for os (first_device (i # is)) tr"
    using r f(5,6) by (auto simp: storage_logical_volume_new_def opened_for_def split: option.splits)
  moreover have "emitted d' = emitted d @ (case build_object_path (path_of d g) [name] of
           None \<Rightarrow> [] | Some p \<Rightarrow> [Published t p])"
    using r f(4) emitted_publish [OF t]
    by (auto simp: storage_logical_volume_new_def split: option.splits)
  ultimately show ?thesis by simp
qed

lemma volume_announced_once_witness:
  "\<exists>d' tr' np' self'. updates agreeing_os [] (Thing 0 StorageVolumeGroup)
      [[], [(''lv_path'', VString ''/dev/vg/a'')], [(''lv_path'', VString ''/dev/vg/b'')]]
      (publish (storage_daemon_init True None) (Some ''/vg'') False (Thing 0 StorageVolumeGroup), [], False,
       storage_logical_volume_new (Thing 1 StorageLogicalVolume) (Thing 0 StorageVolumeGroup) ''a'') =
     (d', tr', np', self') \<and> tr' = [EvOpen ''/dev/vg/a'' [O_RDWR], EvClose 3]"
proof -
  obtain d' tr' np' self' where u: "updates agreeing_os [] (Thing 0 StorageVolumeGroup)
      [[], [(''lv_path'', VString ''/dev/vg/a'')], [(''lv_path'', VString ''/dev/vg/b'')]]
      (publish (storage_daemon_init True None) (Some ''/vg'') False (Thing 0 StorageVolumeGroup), [], False,
       storage_logical_volume_new (Thing 1 StorageLogicalVolume) (Thing 0 StorageVolumeGroup) ''a'') =
     (d', tr', np', self')"
    by (metis prod_cases4)
  from volume_announced_once [OF u] have "tr' = [EvOpen ''/dev/vg/a'' [O_RDWR], EvClose 3]"
    by (simp add: opened_for_def lookup_s_def trigger_udev_def agreeing_os_def)
  with u show ?thesis by blast
qed

end
