(* ===== verification/Volume_Group.thy ===== *)
theory Volume_Group
  imports Logical_Volume
begin

text \<open>
  Volume groups, \<open>src/volumegroup.c\<close>: the update of a group, its volumes and the block
  devices from what the helper says, the progress of moves, and the disposal of a group. What
  they achieve is proved in \<open>Group_Update\<close>; polling is in \<open>Group_Polling\<close> and the methods
  in \<open>Group_Methods\<close>.
\<close>

section \<open>State\<close>

text \<open>
  \<open>poll_pid\<close> is 0 when no helper polls; \<open>poll_timeout_id\<close> is true for a non-zero id. The
  last fields are the properties of the skeleton that the code sets.
\<close>

record volume_group =
  vgo_thing :: thing
  vgo_name :: string
  need_publish :: bool
  last_info :: "vardict option"
  logical_volumes :: "logical_volume htab"
  physical_volumes :: "vardict htab"
  poll_pid :: nat
  poll_timeout_id :: bool
  poll_requested :: bool
  vgo_uuid :: "string option"
  vgo_size :: u64
  vgo_free_size :: u64
  vgo_extent_size :: u64
  needs_polling :: bool

definition storage_volume_group_new :: "thing \<Rightarrow> string \<Rightarrow> volume_group" where
  "storage_volume_group_new t name =
     \<lparr>vgo_thing = t, vgo_name = name, need_publish = True, last_info = None, logical_volumes = [],
      physical_volumes = [], poll_pid = 0, poll_timeout_id = False, poll_requested = False,
      vgo_uuid = None, vgo_size = 0, vgo_free_size = 0, vgo_extent_size = 0, needs_polling = False\<rparr>"

text \<open>What a group works on beside itself: the daemon, the manager's blocks, the system calls.\<close>

record world =
  the_daemon :: daemon
  the_blocks :: "block htab"
  the_calls :: systrace

text \<open>
  What the updates get from outside: the directories of the build, the kernel, and how GLib reads
  the bytes of a helper's answer as a dictionary or as a list of names.
\<close>

record env =
  env_lib :: string
  env_data :: string
  env_os :: os
  env_parse :: "string \<Rightarrow> vardict"
  env_names :: "string \<Rightarrow> string list"

fun answer_of :: "env \<Rightarrow> reader_result \<Rightarrow> gerror + vardict" where
  "answer_of env (ReaderError e) = Inl e"
| "answer_of env (ReaderData data) = Inr (env_parse env data)"

fun names_of :: "env \<Rightarrow> reader_result \<Rightarrow> gerror + string list" where
  "names_of env (ReaderError e) = Inl e"
| "names_of env (ReaderData data) = Inr (env_names env data)"

section \<open>The properties and the names\<close>

definition volume_group_update_props :: "volume_group \<Rightarrow> vardict \<Rightarrow> volume_group" where
  "volume_group_update_props self info =
     (let self = (case lookup_s info ''uuid'' of Some str \<Rightarrow> self\<lparr>vgo_uuid := Some str\<rparr> | None \<Rightarrow> self);
          self = (case lookup_t info ''size'' of Some num \<Rightarrow> self\<lparr>vgo_size := num\<rparr> | None \<Rightarrow> self);
          self = (case lookup_t info ''free-size'' of Some num \<Rightarrow> self\<lparr>vgo_free_size := num\<rparr> | None \<Rightarrow> self);
          self = (case lookup_t info ''extent-size'' of Some num \<Rightarrow> self\<lparr>vgo_extent_size := num\<rparr> | None \<Rightarrow> self)
      in self)"

definition lv_is_pvmove_volume :: "string \<Rightarrow> bool" where
  "lv_is_pvmove_volume name \<longleftrightarrow> has_prefix name ''pvmove''"

definition lv_is_visible :: "string \<Rightarrow> bool" where
  "lv_is_visible name \<longleftrightarrow> \<not> lvm_name_is_reserved name"

section \<open>The progress of a move\<close>

text \<open>
  Setting the progress of a job runs the handler of its estimate, if it is connected, at the
  time \<open>now\<close>.
\<close>

definition set_progress :: "int \<Rightarrow> gdouble \<Rightarrow> 'a job_scheme \<Rightarrow> abort + 'a job_scheme" where
  "set_progress now p self =
     (let self = self\<lparr>progress := p\<rparr> in
      ebind (if handler_connected self then on_notify_progress self now else Inr self)
        (\<lambda>self. Inr (self\<lparr>progress_valid := True\<rparr>)))"

fun report_progress :: "int \<Rightarrow> gdouble \<Rightarrow> any_job \<Rightarrow> abort + any_job" where
  "report_progress now p (SpawnedJob j) = map_sum id SpawnedJob (set_progress now p j)"
| "report_progress now p (ThreadedJob j) = map_sum id ThreadedJob (set_progress now p j)"

fun job_about :: "any_job \<Rightarrow> string \<times> string list" where
  "job_about (SpawnedJob j) = (operation j, job_objects j)"
| "job_about (ThreadedJob j) = (operation j, job_objects j)"

definition is_device :: "block \<Rightarrow> string \<Rightarrow> bool" where
  "is_device b dev \<longleftrightarrow> blk_device b = dev \<or> dev \<in> set (blk_symlinks b)"

text \<open>One report for each object of the job that is a block with that device.\<close>

fun report_objects ::
  "int \<Rightarrow> block htab \<Rightarrow> string \<Rightarrow> gdouble \<Rightarrow> string list \<Rightarrow> any_job \<Rightarrow> abort + any_job" where
  "report_objects now bs dev p [] job = Inr job"
| "report_objects now bs dev p (path # paths) job =
     ebind (case ht_lookup bs path of
              Some b \<Rightarrow> if is_device b dev then report_progress now p job else Inr job
            | None \<Rightarrow> Inr job)
       (report_objects now bs dev p paths)"

fun report_jobs ::
  "int \<Rightarrow> block htab \<Rightarrow> string \<Rightarrow> string \<Rightarrow> gdouble \<Rightarrow> thing list \<Rightarrow> daemon \<Rightarrow> abort + daemon" where
  "report_jobs now bs op dev p [] d = Inr d"
| "report_jobs now bs op dev p (t # ts) d =
     ebind (case find_job d t of
              None \<Rightarrow> Inr d
            | Some job \<Rightarrow>
                if fst (job_about job) \<noteq> op then Inr d
                else ebind (report_objects now bs dev p (snd (job_about job)) job)
                  (\<lambda>job. Inr (d\<lparr>jobs := set_job t job (jobs d)\<rparr>)))
       (report_jobs now bs op dev p ts)"

definition update_progress_for_device ::
  "int \<Rightarrow> string \<Rightarrow> string \<Rightarrow> gdouble \<Rightarrow> world \<Rightarrow> abort + world" where
  "update_progress_for_device now op dev p w =
     ebind (report_jobs now (the_blocks w) op dev p (get_jobs (the_daemon w)) (the_daemon w))
       (\<lambda>d. Inr (w\<lparr>the_daemon := d\<rparr>))"

definition update_operations ::
  "int \<Rightarrow> string \<Rightarrow> vardict \<Rightarrow> world \<Rightarrow> bool \<Rightarrow> abort + world \<times> bool" where
  "update_operations now name info w polling =
     (if lv_is_pvmove_volume name then
        (case (lookup_s info ''move_pv'', lookup_t info ''copy_percent'') of
           (Some move_pv, Some copy_percent) \<Rightarrow>
             ebind (update_progress_for_device now ''lvm-vg-empty-device'' move_pv (lvm_ratio copy_percent) w)
               (\<lambda>w. Inr (w, True))
         | _ \<Rightarrow> Inr (w, polling))
      else Inr (w, polling))"

section \<open>The block devices\<close>

text \<open>What is known of a block as a physical volume: by its device, then by its first symlink known.\<close>

definition find_pv_info :: "volume_group \<Rightarrow> block \<Rightarrow> vardict option" where
  "find_pv_info self block =
     (case ht_lookup (physical_volumes self) (blk_device block) of
        Some info \<Rightarrow> Some info
      | None \<Rightarrow>
          (case find (\<lambda>s. ht_lookup (physical_volumes self) s \<noteq> None) (blk_symlinks block) of
             Some s \<Rightarrow> ht_lookup (physical_volumes self) s
           | None \<Rightarrow> None))"

text \<open>Looking up a \<open>NULL\<close> name in a table of strings is a crash.\<close>

definition update_block_lv :: "volume_group \<Rightarrow> daemon \<Rightarrow> block \<Rightarrow> abort + daemon \<times> block" where
  "update_block_lv self d block =
     (if blk_udev block \<noteq> None \<and> strcmp0_eq (udev_property block ''DM_VG_NAME'') (Some (vgo_name self))
      then case udev_property block ''DM_LV_NAME'' of
             None \<Rightarrow> Inl (NullDereference ''block_lv_name'')
           | Some name \<Rightarrow>
               Inr (storage_block_update_lv d block
                      (map_option lvo_thing (ht_lookup (logical_volumes self) name)))
      else Inr (d, block))"

definition update_block_pv :: "volume_group \<Rightarrow> daemon \<Rightarrow> block \<Rightarrow> daemon \<times> block" where
  "update_block_pv self d block =
     (case find_pv_info self block of
        Some pv_info \<Rightarrow> storage_block_update_pv d block (Some (vgo_thing self)) pv_info
      | None \<Rightarrow>
          (case iface_physical_volume block of
             Some pv \<Rightarrow>
               if strcmp0_eq (pvi_volume_group pv) (path_of d (vgo_thing self))
               then storage_block_update_pv d block None [] else (d, block)
           | None \<Rightarrow> (d, block)))"

definition storage_volume_group_update_block ::
  "volume_group \<Rightarrow> daemon \<Rightarrow> block \<Rightarrow> abort + daemon \<times> block" where
  "storage_volume_group_update_block self d block =
     ebind (update_block_lv self d block) (\<lambda>(d, block). Inr (update_block_pv self d block))"

definition update_all_blocks :: "volume_group \<Rightarrow> world \<Rightarrow> abort + world" where
  "update_all_blocks self w =
     ebind (each_block (storage_volume_group_update_block self) (the_daemon w) (the_blocks w))
       (\<lambda>(d, bs). Inr (w\<lparr>the_daemon := d, the_blocks := bs\<rparr>))"

section \<open>The update\<close>

text \<open>A volume of the report. \<open>new_lvs\<close> are the names seen so far.\<close>

definition update_volume ::
  "os \<Rightarrow> int \<Rightarrow> vardict \<Rightarrow> world \<times> volume_group \<times> bool \<times> string list \<Rightarrow>
   abort + world \<times> volume_group \<times> bool \<times> string list" where
  "update_volume os now lv_info s =
     (case s of (w, self, polling, new_lvs) \<Rightarrow>
      case lookup_s lv_info ''name'' of
        None \<Rightarrow> Inl (UninitialisedRead ''name'')
      | Some name \<Rightarrow>
          ebind (update_operations now name lv_info w polling) (\<lambda>(w, polling).
          let polling = (polling \<or> lv_is_pvmove_volume name) in
          if \<not> lv_is_visible name then Inr (w, self, polling, new_lvs)
          else
            let (d, volume) =
                  (case ht_lookup (logical_volumes self) name of
                     None \<Rightarrow>
                       let (d, t) = new_thing (the_daemon w) StorageLogicalVolume
                       in (d, storage_logical_volume_new t (vgo_thing self) name)
                   | Some volume \<Rightarrow> (the_daemon w, volume));
                (d, tr, polling, volume) =
                  storage_logical_volume_update os (logical_volumes self) (vgo_thing self) lv_info d
                    (the_calls w) polling volume
            in Inr (w\<lparr>the_daemon := d, the_calls := tr\<rparr>,
                    self\<lparr>logical_volumes := ht_insert (logical_volumes self) name volume\<rparr>,
                    polling, new_lvs @ [name])))"

fun update_volumes ::
  "os \<Rightarrow> int \<Rightarrow> vardict list \<Rightarrow> world \<times> volume_group \<times> bool \<times> string list \<Rightarrow>
   abort + world \<times> volume_group \<times> bool \<times> string list" where
  "update_volumes os now [] s = Inr s"
| "update_volumes os now (i # is) s = ebind (update_volume os now i s) (update_volumes os now is)"

text \<open>Volumes that are no longer reported are disposed, which unpublishes them.\<close>

fun drop_stale_volumes ::
  "string set \<Rightarrow> daemon \<Rightarrow> logical_volume htab \<Rightarrow> daemon \<times> logical_volume htab" where
  "drop_stale_volumes new_lvs d [] = (d, [])"
| "drop_stale_volumes new_lvs d ((name, volume) # vs) =
     (if name \<in> new_lvs
      then let (d, vs) = drop_stale_volumes new_lvs d vs in (d, (name, volume) # vs)
      else drop_stale_volumes new_lvs (fst (storage_logical_volume_dispose d volume)) vs)"

definition read_physical_volumes :: "vardict list \<Rightarrow> vardict htab" where
  "read_physical_volumes pvs =
     fold (\<lambda>pv t. case lookup_s pv ''device'' of Some name \<Rightarrow> ht_insert t name pv | None \<Rightarrow> t) pvs []"

definition dicts_of :: "vardict \<Rightarrow> string \<Rightarrow> vardict list" where
  "dicts_of info key = (case lookup_dicts info key of Some l \<Rightarrow> l | None \<Rightarrow> [])"

text \<open>
  The callback of the helper that shows the group. The truth value says whether the callback of
  the update, \<open>done\<close>, was called.
\<close>

definition update_with_variant ::
  "os \<Rightarrow> int \<Rightarrow> gerror + vardict \<Rightarrow> world \<Rightarrow> volume_group \<Rightarrow> abort + world \<times> volume_group \<times> bool" where
  "update_with_variant os now answer w self =
     (let self = (case answer of Inr info \<Rightarrow> volume_group_update_props self info | Inl _ \<Rightarrow> self);
          (w, self) =
            (if need_publish self
             then (w\<lparr>the_daemon := publish (the_daemon w)
                      (build_object_path (Some ''/org/freedesktop/UDisks2/lvm'') [vgo_name self])
                      False (vgo_thing self)\<rparr>,
                   self\<lparr>need_publish := False\<rparr>)
             else (w, self))
      in case answer of
           Inl _ \<Rightarrow> Inr (w, self, False)
         | Inr info \<Rightarrow>
             if last_info self = Some info then Inr (w, self, False)
             else
               ebind (update_volumes os now (dicts_of info ''lvs'')
                        (w, self\<lparr>last_info := Some info\<rparr>, False, []))
                 (\<lambda>(w, self, polling, new_lvs).
                  let (d, vs) = drop_stale_volumes (set new_lvs) (the_daemon w) (logical_volumes self);
                      self = self\<lparr>logical_volumes := vs, needs_polling := polling,
                                  physical_volumes := read_physical_volumes (dicts_of info ''pvs'')\<rparr>
                  in ebind (update_all_blocks self (w\<lparr>the_daemon := d\<rparr>))
                       (\<lambda>w. Inr (w, self, True))))"

definition storage_volume_group_update :: "volume_group \<Rightarrow> bool \<Rightarrow> string list" where
  "storage_volume_group_update self ignore_locks =
     [''storaged-lvm-helper'', ''-b''] @ (if ignore_locks then [''-f''] else []) @
     [''show'', vgo_name self]"

section \<open>Disposal\<close>

definition storage_volume_group_dispose :: "world \<Rightarrow> volume_group \<Rightarrow> abort + world \<times> volume_group" where
  "storage_volume_group_dispose w self =
     (let self = self\<lparr>need_publish := False\<rparr>;
          d = fold (\<lambda>(_, v) d. fst (storage_logical_volume_dispose d v)) (logical_volumes self) (the_daemon w);
          self = self\<lparr>logical_volumes := [], physical_volumes := [], last_info := None\<rparr>
      in ebind (update_all_blocks self (w\<lparr>the_daemon := d\<rparr>)) (\<lambda>w.
           Inr (case path_of (the_daemon w) (vgo_thing self) of
                  None \<Rightarrow> (w, self)
                | Some path \<Rightarrow>
                    (w\<lparr>the_daemon := unpublish_at (the_daemon w) path (vgo_thing self)\<rparr>, self))))"

section \<open>What progress leaves alone\<close>

text \<open>Setting the progress of jobs changes nothing on the bus.\<close>

definition same_bus :: "daemon \<Rightarrow> daemon \<Rightarrow> bool" where
  "same_bus d d' \<longleftrightarrow> objects d' = objects d \<and> next_thing d' = next_thing d \<and> emitted d' = emitted d"

lemma report_jobs_same_bus: "report_jobs now bs op dev p ts d = Inr d' \<Longrightarrow> same_bus d d'"
proof (induction ts arbitrary: d)
  case (Cons t ts)
  then obtain d1 where "report_jobs now bs op dev p ts d1 = Inr d'" and "same_bus d d1"
    by (fastforce simp: ebind_Inr same_bus_def split: option.splits if_splits)
  with Cons.IH show ?case by (fastforce simp: same_bus_def)
qed (simp add: same_bus_def)

lemma update_operations_world:
  assumes "update_operations now name i w polling = Inr (w', polling')"
  shows "same_bus (the_daemon w) (the_daemon w') \<and> the_blocks w' = the_blocks w \<and> the_calls w' = the_calls w \<and>
    (polling' \<longrightarrow> polling \<or> lv_is_pvmove_volume name) \<and> (polling \<longrightarrow> polling')"
  using assms report_jobs_same_bus
  by (fastforce simp: update_operations_def update_progress_for_device_def ebind_Inr same_bus_def
      split: if_splits option.splits)

end
