(* ===== verification/Group_Polling.thy ===== *)
theory Group_Polling
  imports Volume_Group
begin

text \<open>
  The polling of a volume group, \<open>src/volumegroup.c\<close>: a request starts a helper in the main
  loop, at most one per interval of the timer; a new helper supersedes the last one. The log
  records what the outside sees.
\<close>

section \<open>State\<close>

datatype poll_action = TimerFired | HelperStarted nat | HelperFailed | HelperKilled nat | HelperEnded nat

text \<open>\<open>queued\<close> are the idle callbacks not run yet.\<close>

record poll_state =
  polled :: volume_group
  poll_world :: world
  queued :: nat
  poll_log :: "poll_action list"

definition poll_new :: "volume_group \<Rightarrow> world \<Rightarrow> poll_state" where
  "poll_new g w = \<lparr>polled = g, poll_world = w, queued = 0, poll_log = []\<rparr>"

section \<open>Operations\<close>

text \<open>Whether polling is needed is not read here, although it is computed.\<close>

definition poll_volume :: "os \<Rightarrow> int \<Rightarrow> vardict \<Rightarrow> world \<times> volume_group \<Rightarrow> abort + world \<times> volume_group" where
  "poll_volume os now lv_info s =
     (case s of (w, self) \<Rightarrow>
      case lookup_s lv_info ''name'' of
        None \<Rightarrow> Inl (UninitialisedRead ''name'')
      | Some name \<Rightarrow>
          ebind (update_operations now name lv_info w False) (\<lambda>(w, polling).
          case ht_lookup (logical_volumes self) name of
            None \<Rightarrow> Inr (w, self)
          | Some volume \<Rightarrow>
              let (d, tr, _, volume) =
                    storage_logical_volume_update os (logical_volumes self) (vgo_thing self) lv_info
                      (the_daemon w) (the_calls w) polling volume
              in Inr (w\<lparr>the_daemon := d, the_calls := tr\<rparr>,
                      self\<lparr>logical_volumes := ht_insert (logical_volumes self) name volume\<rparr>)))"

fun poll_volumes :: "os \<Rightarrow> int \<Rightarrow> vardict list \<Rightarrow> world \<times> volume_group \<Rightarrow> abort + world \<times> volume_group" where
  "poll_volumes os now [] s = Inr s"
| "poll_volumes os now (i # is) s = ebind (poll_volume os now i s) (poll_volumes os now is)"

definition poll_with_variant ::
  "os \<Rightarrow> int \<Rightarrow> nat \<Rightarrow> gerror + vardict \<Rightarrow> world \<times> volume_group \<Rightarrow> abort + world \<times> volume_group" where
  "poll_with_variant os now pid answer s =
     (case s of (w, self) \<Rightarrow>
      if pid \<noteq> poll_pid self then Inr (w, self)
      else
        let self = self\<lparr>poll_pid := 0\<rparr> in
        case answer of
          Inl _ \<Rightarrow> Inr (w, self)
        | Inr info \<Rightarrow> poll_volumes os now (dicts_of info ''lvs'') (w, volume_group_update_props self info))"

definition poll_argv :: "volume_group \<Rightarrow> string list" where
  "poll_argv self = [''storaged-lvm-helper'', ''-b'', ''show'', vgo_name self]"

text \<open>
  The timer is armed, a helper that still runs is killed, and a new one is started; when that
  fails, the callback gets the error before the process id is set.
\<close>

definition poll_now :: "env \<Rightarrow> int \<Rightarrow> (string list \<Rightarrow> gerror + nat) \<Rightarrow> poll_state \<Rightarrow> abort + poll_state" where
  "poll_now env now spawn s =
     (let self = (polled s)\<lparr>poll_timeout_id := True\<rparr>; w = poll_world s;
          log = poll_log s @ (if poll_pid self \<noteq> 0 then [HelperKilled (poll_pid self)] else [])
      in case storage_daemon_spawn_for_variant (env_lib env) (env_data env) (the_daemon w) spawn (poll_argv self) of
           Inl failure \<Rightarrow>
             ebind (poll_with_variant (env_os env) now 0 (answer_of env failure) (w, self)) (\<lambda>(w, self).
             Inr (s\<lparr>polled := self\<lparr>poll_pid := 0\<rparr>, poll_world := w, poll_log := log @ [HelperFailed]\<rparr>))
         | Inr reader \<Rightarrow>
             Inr (s\<lparr>polled := self\<lparr>poll_pid := reader_pid reader\<rparr>,
                    poll_log := log @ [HelperStarted (reader_pid reader)]\<rparr>))"

definition poll_in_main :: "env \<Rightarrow> int \<Rightarrow> (string list \<Rightarrow> gerror + nat) \<Rightarrow> poll_state \<Rightarrow> abort + poll_state" where
  "poll_in_main env now spawn s =
     (if poll_timeout_id (polled s) then Inr (s\<lparr>polled := (polled s)\<lparr>poll_requested := True\<rparr>\<rparr>)
      else poll_now env now spawn s)"

definition poll_timeout :: "env \<Rightarrow> int \<Rightarrow> (string list \<Rightarrow> gerror + nat) \<Rightarrow> poll_state \<Rightarrow> abort + poll_state" where
  "poll_timeout env now spawn s =
     (let s = s\<lparr>polled := (polled s)\<lparr>poll_timeout_id := False\<rparr>, poll_log := poll_log s @ [TimerFired]\<rparr>
      in if poll_requested (polled s)
         then poll_now env now spawn (s\<lparr>polled := (polled s)\<lparr>poll_requested := False\<rparr>\<rparr>)
         else Inr s)"

definition storage_volume_group_poll :: "poll_state \<Rightarrow> poll_state" where
  "storage_volume_group_poll s = s\<lparr>queued := queued s + 1\<rparr>"

text \<open>The method of the interface answers at once, before anything is polled.\<close>

definition handle_poll :: "poll_state \<Rightarrow> poll_state \<times> reply" where
  "handle_poll self = (storage_volume_group_poll self, Return [])"

lemma handle_poll_fst [simp]: "fst (handle_poll s) = storage_volume_group_poll s"
  by (simp add: handle_poll_def)

text \<open>
  The events: a request, an idle callback that is queued, the timer if it is armed, and the end of
  a helper with what the reader made of its output.
\<close>

datatype poll_event =
    PollCalled
  | PollIdle int "string list \<Rightarrow> gerror + nat"
  | PollTimer int "string list \<Rightarrow> gerror + nat"
  | HelperDone int nat reader_result

fun poll_step :: "env \<Rightarrow> poll_state \<Rightarrow> poll_event \<Rightarrow> abort + poll_state" where
  "poll_step env s PollCalled = Inr (fst (handle_poll s))"
| "poll_step env s (PollIdle now spawn) =
     (if queued s = 0 then Inr s else poll_in_main env now spawn (s\<lparr>queued := queued s - 1\<rparr>))"
| "poll_step env s (PollTimer now spawn) =
     (if poll_timeout_id (polled s) then poll_timeout env now spawn s else Inr s)"
| "poll_step env s (HelperDone now pid result) =
     ebind (poll_with_variant (env_os env) now pid (answer_of env result) (poll_world s, polled s))
       (\<lambda>(w, self). Inr (s\<lparr>polled := self, poll_world := w, poll_log := poll_log s @ [HelperEnded pid]\<rparr>))"

section \<open>What a poll touches\<close>

text \<open>
  Polling refreshes the properties of the group and of the volumes it has.
\<close>

definition same_flags :: "volume_group \<Rightarrow> volume_group \<Rightarrow> bool" where
  "same_flags g g' \<longleftrightarrow>
     poll_pid g' = poll_pid g \<and> poll_timeout_id g' = poll_timeout_id g \<and> poll_requested g' = poll_requested g"

definition same_shape :: "volume_group \<Rightarrow> volume_group \<Rightarrow> bool" where
  "same_shape g g' \<longleftrightarrow>
     vgo_thing g' = vgo_thing g \<and> vgo_name g' = vgo_name g \<and> physical_volumes g' = physical_volumes g \<and>
     last_info g' = last_info g \<and> needs_polling g' = needs_polling g \<and>
     (\<forall>k. map_option lvo_thing (ht_lookup (logical_volumes g') k) = map_option lvo_thing (ht_lookup (logical_volumes g) k))"

lemma same_shape_refl [simp]: "same_shape g g" and same_flags_refl [simp]: "same_flags g g"
  by (simp_all add: same_shape_def same_flags_def)

lemma same_shape_trans: "same_shape g h \<Longrightarrow> same_shape h i \<Longrightarrow> same_shape g i"
  and same_flags_trans: "same_flags g h \<Longrightarrow> same_flags h i \<Longrightarrow> same_flags g i"
  by (simp_all add: same_shape_def same_flags_def)

definition published_volumes :: "volume_group \<Rightarrow> bool" where
  "published_volumes g \<longleftrightarrow> (\<forall>k v. ht_lookup (logical_volumes g) k = Some v \<longrightarrow> \<not> needs_publish v)"

definition same_world :: "world \<Rightarrow> world \<Rightarrow> bool" where
  "same_world w w' \<longleftrightarrow>
     same_bus (the_daemon w) (the_daemon w') \<and> the_blocks w' = the_blocks w"

lemma poll_volume_frame:
  assumes "poll_volume os now i (w, g) = Inr (w', g')"
  shows "same_flags g g' \<and> same_shape g g' \<and>
    (published_volumes g \<longrightarrow> published_volumes g' \<and> same_world w w')"
proof -
  obtain name w1 p1 where n: "lookup_s i ''name'' = Some name"
    and o: "update_operations now name i w False = Inr (w1, p1)"
    using assms by (auto simp: poll_volume_def ebind_Inr split: option.splits)
  have w1: "same_world w w1" using update_operations_world [OF o] by (simp add: same_world_def)
  show ?thesis
  proof (cases "ht_lookup (logical_volumes g) name")
    case None
    with assms n o w1 show ?thesis by (simp add: poll_volume_def)
  next
    case (Some v)
    with assms n o w1 show ?thesis
      by (auto simp: poll_volume_def update_eq same_flags_def same_shape_def published_volumes_def same_world_def
          ht.lookup_ins split: if_splits)
  qed
qed

lemma poll_volumes_frame:
  assumes "poll_volumes os now is (w, g) = Inr (w', g')"
  shows "same_flags g g' \<and> same_shape g g' \<and>
    (published_volumes g \<longrightarrow> published_volumes g' \<and> same_world w w')"
  using assms
proof (induction "is" arbitrary: w g)
  case (Cons i "is")
  then obtain w1 g1 where 1: "poll_volume os now i (w, g) = Inr (w1, g1)" and "poll_volumes os now is (w1, g1) = Inr (w', g')"
    by (auto simp: ebind_Inr)
  with Cons.IH have "same_flags g1 g' \<and> same_shape g1 g' \<and> (published_volumes g1 \<longrightarrow> published_volumes g' \<and> same_world w1 w')"
    by blast
  with poll_volume_frame [OF 1] show ?case
    by (auto intro: same_flags_trans same_shape_trans simp: same_world_def same_bus_def)
qed (simp add: same_world_def same_bus_def)

lemma poll_answer_frame:
  assumes "poll_with_variant os now pid answer (w, g) = Inr (w', g')"
  shows "same_shape g g'" and "poll_timeout_id g' = poll_timeout_id g" and "poll_requested g' = poll_requested g"
    and "poll_pid g' = (if pid = poll_pid g then 0 else poll_pid g)"
    and "published_volumes g \<Longrightarrow> published_volumes g' \<and> same_world w w'"
proof -
  have "same_shape g g' \<and> poll_timeout_id g' = poll_timeout_id g \<and> poll_requested g' = poll_requested g \<and>
      poll_pid g' = (if pid = poll_pid g then 0 else poll_pid g) \<and>
      (published_volumes g \<longrightarrow> published_volumes g' \<and> same_world w w')"
  proof (cases "pid = poll_pid g \<and> (\<exists>info. answer = Inr info)")
    case False
    with assms show ?thesis
      by (cases answer) (auto simp: poll_with_variant_def same_shape_def published_volumes_def same_world_def
          same_bus_def Let_def split: if_splits)
  next
    case True
    then obtain info where pid: "pid = poll_pid g" and info: "answer = Inr info" by blast
    let ?g = "volume_group_update_props (g\<lparr>poll_pid := 0\<rparr>) info"
    have "poll_volumes os now (dicts_of info ''lvs'') (w, ?g) = Inr (w', g')"
      using assms by (simp add: poll_with_variant_def pid info)
    note f = poll_volumes_frame [OF this]
    have "same_shape g ?g" "poll_pid ?g = 0" "poll_timeout_id ?g = poll_timeout_id g"
      "poll_requested ?g = poll_requested g" "published_volumes ?g = published_volumes g"
      by (simp_all add: same_shape_def volume_group_update_props_def published_volumes_def Let_def split: option.split)
    with f pid show ?thesis by (auto simp: same_flags_def intro: same_shape_trans)
  qed
  then show "same_shape g g'" "poll_timeout_id g' = poll_timeout_id g" "poll_requested g' = poll_requested g"
    "poll_pid g' = (if pid = poll_pid g then 0 else poll_pid g)"
    "published_volumes g \<Longrightarrow> published_volumes g' \<and> same_world w w'" by blast+
qed

section \<open>The invariant of polling\<close>

text \<open>
  The log read as an automaton: a helper is started only while the timer is not armed, and arms
  it; the timer disarms itself. The helper whose answer counts is the last one started.
\<close>

fun armed :: "bool \<Rightarrow> poll_action list \<Rightarrow> bool" where
  "armed b [] = b"
| "armed b (TimerFired # l) = armed False l"
| "armed b (HelperStarted pid # l) = armed True l"
| "armed b (HelperFailed # l) = armed True l"
| "armed b (HelperKilled pid # l) = armed b l"
| "armed b (HelperEnded pid # l) = armed b l"

fun spaced :: "bool \<Rightarrow> poll_action list \<Rightarrow> bool" where
  "spaced b [] = True"
| "spaced b (TimerFired # l) = (b \<and> spaced False l)"
| "spaced b (HelperStarted pid # l) = (\<not> b \<and> spaced True l)"
| "spaced b (HelperFailed # l) = (\<not> b \<and> spaced True l)"
| "spaced b (HelperKilled pid # l) = spaced b l"
| "spaced b (HelperEnded pid # l) = spaced b l"

fun latest :: "nat \<Rightarrow> poll_action list \<Rightarrow> nat" where
  "latest n [] = n"
| "latest n (HelperStarted pid # l) = latest pid l"
| "latest n (HelperFailed # l) = latest 0 l"
| "latest n (_ # l) = latest n l"

text \<open>
  The helpers that run, neither killed nor ended; no process has the number 0. A helper
  may be started only when none runs.
\<close>

fun running :: "nat set \<Rightarrow> poll_action list \<Rightarrow> nat set" where
  "running A [] = A"
| "running A (HelperStarted pid # l) = running (A \<union> ({pid} - {0})) l"
| "running A (HelperKilled pid # l) = running (A - {pid}) l"
| "running A (HelperEnded pid # l) = running (A - {pid}) l"
| "running A (_ # l) = running A l"

fun superseded :: "nat set \<Rightarrow> poll_action list \<Rightarrow> bool" where
  "superseded A [] = True"
| "superseded A (a # l) = ((\<forall>pid. a = HelperStarted pid \<longrightarrow> A = {}) \<and> superseded (running A [a]) l)"

lemma running_append [simp]: "running A (l @ m) = running (running A l) m"
  by (induction A l rule: running.induct) simp_all

lemma superseded_append [simp]: "superseded A (l @ m) \<longleftrightarrow> superseded A l \<and> superseded (running A l) m"
proof (induction l arbitrary: A)
  case (Cons a l)
  have "running (running A [a]) l = running A (a # l)" using running_append [of A "[a]" l] by simp
  with Cons show ?case by simp
qed simp

lemma armed_append [simp]: "armed b (l @ m) = armed (armed b l) m"
  by (induction b l rule: armed.induct) simp_all

lemma spaced_append [simp]: "spaced b (l @ m) \<longleftrightarrow> spaced b l \<and> spaced (armed b l) m"
  by (induction b l rule: spaced.induct) auto

lemma latest_append [simp]: "latest n (l @ m) = latest (latest n l) m"
  by (induction n l rule: latest.induct) simp_all

definition poll_ok :: "poll_state \<Rightarrow> bool" where
  "poll_ok s \<longleftrightarrow>
     spaced False (poll_log s) \<and> armed False (poll_log s) = poll_timeout_id (polled s) \<and>
     (poll_requested (polled s) \<longrightarrow> poll_timeout_id (polled s)) \<and>
     poll_pid (polled s) \<in> {0, latest 0 (poll_log s)} \<and>
     superseded {} (poll_log s) \<and> running {} (poll_log s) \<subseteq> {poll_pid (polled s)} - {0}"

definition starts :: "poll_action \<Rightarrow> bool" where
  "starts a \<longleftrightarrow> a = HelperFailed \<or> (\<exists>pid. a = HelperStarted pid)"

lemma poll_now_effect:
  assumes "poll_now env now spawn s = Inr s'"
  shows "\<exists>a. starts a \<and> poll_timeout_id (polled s') \<and> poll_requested (polled s') = poll_requested (polled s) \<and>
    queued s' = queued s \<and>
    poll_log s' = poll_log s @ (if poll_pid (polled s) \<noteq> 0 then [HelperKilled (poll_pid (polled s))] else []) @ [a] \<and>
    poll_pid (polled s') = latest 0 [a] \<and> same_shape (polled s) (polled s')"
proof (cases "storage_daemon_spawn_for_variant (env_lib env) (env_data env) (the_daemon (poll_world s)) spawn
    (poll_argv ((polled s)\<lparr>poll_timeout_id := True\<rparr>))")
  case (Inl failure)
  let ?g = "(polled s)\<lparr>poll_timeout_id := True\<rparr>"
  obtain w g where p: "poll_with_variant (env_os env) now 0 (answer_of env failure) (poll_world s, ?g) = Inr (w, g)"
    and s': "s' = s\<lparr>polled := g\<lparr>poll_pid := 0\<rparr>, poll_world := w, poll_log := poll_log s @
      (if poll_pid (polled s) \<noteq> 0 then [HelperKilled (poll_pid (polled s))] else []) @ [HelperFailed]\<rparr>"
    using assms Inl by (auto simp: poll_now_def Let_def ebind_Inr)
  note f = poll_answer_frame [OF p]
  have "same_shape (polled s) (g\<lparr>poll_pid := 0\<rparr>)" using f(1) by (simp add: same_shape_def)
  with f(2,3) show ?thesis by (intro exI [of _ HelperFailed]) (simp add: s' starts_def)
next
  case (Inr reader)
  with assms show ?thesis
    by (intro exI [of _ "HelperStarted (reader_pid reader)"]) (auto simp: poll_now_def Let_def starts_def same_shape_def)
qed

lemma poll_now_ok:
  assumes "poll_now env now spawn s = Inr s'" and "spaced False (poll_log s)" "\<not> armed False (poll_log s)"
    and "superseded {} (poll_log s)" "running {} (poll_log s) \<subseteq> {poll_pid (polled s)} - {0}"
  shows "poll_ok s'"
proof -
  obtain a where a: "starts a" "poll_timeout_id (polled s')"
      "poll_log s' = poll_log s @ (if poll_pid (polled s) \<noteq> 0 then [HelperKilled (poll_pid (polled s))] else []) @ [a]"
      "poll_pid (polled s') = latest 0 [a]"
    using poll_now_effect [OF assms(1)] by blast
  from a(1) consider "a = HelperFailed" | pid where "a = HelperStarted pid" by (auto simp: starts_def)
  then show ?thesis using assms(2-5) a(2-) by cases (auto simp: poll_ok_def)
qed

lemma poll_step_ok: "poll_ok s \<Longrightarrow> poll_step env s e = Inr s' \<Longrightarrow> poll_ok s'"
proof (cases e)
  case PollCalled
  then show "poll_ok s \<Longrightarrow> poll_step env s e = Inr s' \<Longrightarrow> poll_ok s'"
    by (auto simp: storage_volume_group_poll_def poll_ok_def)
next
  case (PollIdle now spawn)
  then show "poll_ok s \<Longrightarrow> poll_step env s e = Inr s' \<Longrightarrow> poll_ok s'"
    using poll_now_ok [of env now spawn "s\<lparr>queued := queued s - 1\<rparr>" s']
    by (auto simp: poll_in_main_def poll_ok_def split: if_splits)
next
  case (PollTimer now spawn)
  let ?s = "s\<lparr>poll_log := poll_log s @ [TimerFired], polled := (polled s)\<lparr>poll_timeout_id := False, poll_requested := False\<rparr>\<rparr>"
  show "poll_ok s'" if "poll_ok s" "poll_step env s e = Inr s'"
    using that PollTimer poll_now_ok [of env now spawn ?s s']
    by (auto simp: poll_timeout_def poll_ok_def Let_def split: if_splits)
next
  case (HelperDone now pid result)
  show "poll_ok s'" if ok: "poll_ok s" and st: "poll_step env s e = Inr s'"
  proof -
    obtain w g where p: "poll_with_variant (env_os env) now pid (answer_of env result) (poll_world s, polled s) = Inr (w, g)"
      and s': "s' = s\<lparr>polled := g, poll_world := w, poll_log := poll_log s @ [HelperEnded pid]\<rparr>"
      using st HelperDone by (auto simp: ebind_Inr)
    from poll_answer_frame [OF p] ok show ?thesis by (auto simp: poll_ok_def s')
  qed
qed

interpretation pm: guarded_machine "poll_step env" poll_ok for env
  by unfold_locales (rule poll_step_ok)

lemma poll_new_ok:
  "poll_pid g = 0 \<Longrightarrow> \<not> poll_timeout_id g \<Longrightarrow> \<not> poll_requested g \<Longrightarrow> poll_ok (poll_new g w)"
  by (simp add: poll_ok_def poll_new_def)

section \<open>Properties\<close>

text \<open>
  C28: However often polling is requested and however helpers end, from a group that does not poll,
  between two starts of a helper the timer has fired, a helper is started only when every one before
  it has ended or was killed, and the answer of a helper that is not the last one started changes
  nothing.
\<close>

theorem polling_rate_limited:
  assumes "poll_pid g = 0" and "\<not> poll_timeout_id g" and "\<not> poll_requested g"
    and "run_steps (poll_step env) (poll_new g w) es = Inr s"
  shows "spaced False (poll_log s) \<and> superseded {} (poll_log s) \<and>
    (\<forall>now pid result. pid \<noteq> latest 0 (poll_log s) \<longrightarrow> pid \<noteq> 0 \<longrightarrow>
       poll_step env s (HelperDone now pid result) = Inr (s\<lparr>poll_log := poll_log s @ [HelperEnded pid]\<rparr>))"
proof -
  have "poll_ok s" by (rule pm.run_inv [OF poll_new_ok [OF assms(1-3)] assms(4)])
  then show ?thesis by (auto simp: poll_ok_def poll_with_variant_def)
qed

definition demo_env :: env where
  "demo_env = \<lparr>env_lib = ''/usr/lib'', env_data = ''/usr/share'', env_os = agreeing_os, env_parse = (\<lambda>_. []), env_names = (\<lambda>_. [])\<rparr>"

definition idle_group :: volume_group where
  "idle_group = storage_volume_group_new (Thing 0 StorageVolumeGroup) ''vg0''"

definition bare_world :: world where
  "bare_world = \<lparr>the_daemon = storage_daemon_init True None, the_blocks = [], the_calls = []\<rparr>"

lemmas poll_eval = poll_in_main_def poll_timeout_def poll_now_def storage_volume_group_poll_def Let_def
  storage_daemon_spawn_for_variant_def poll_new_def idle_group_def bare_world_def storage_volume_group_new_def

lemma polling_rate_limited_witness:
  "\<exists>s. run_steps (poll_step demo_env) (poll_new idle_group bare_world)
      [PollCalled, PollCalled, PollIdle 0 (\<lambda>_. Inr 7), PollIdle 0 (\<lambda>_. Inr 8), PollTimer 5 (\<lambda>_. Inr 9)] = Inr s \<and>
    poll_log s = [HelperStarted 7, TimerFired, HelperKilled 7, HelperStarted 9] \<and> superseded {} (poll_log s)"
proof -
  obtain s where s: "run_steps (poll_step demo_env) (poll_new idle_group bare_world)
      [PollCalled, PollCalled, PollIdle 0 (\<lambda>_. Inr 7), PollIdle 0 (\<lambda>_. Inr 8), PollTimer 5 (\<lambda>_. Inr 9)] = Inr s"
    "poll_log s = [HelperStarted 7, TimerFired, HelperKilled 7, HelperStarted 9]"
    by (simp add: poll_eval)
  have "superseded {} (poll_log s)"
    using polling_rate_limited [OF _ _ _ s(1)] by (simp add: idle_group_def storage_volume_group_new_def)
  with s show ?thesis by blast
qed

definition served :: "poll_state \<Rightarrow> poll_state \<Rightarrow> bool" where
  "served s t \<longleftrightarrow>
     (\<exists>l. poll_log t = poll_log s @ l \<and>
       ((\<exists>a \<in> set l. starts a) \<or> poll_requested (polled t) \<and> poll_timeout_id (polled t)))"

lemma poll_step_grows:
  assumes "poll_step env s e = Inr s'"
  shows "\<exists>l. poll_log s' = poll_log s @ l \<and>
    (poll_requested (polled s) \<and> poll_timeout_id (polled s) \<longrightarrow>
      (\<exists>a \<in> set l. starts a) \<or> poll_requested (polled s') \<and> poll_timeout_id (polled s'))"
proof (cases e)
  case PollCalled
  with assms show ?thesis by (auto simp: storage_volume_group_poll_def)
next
  case (PollIdle now spawn)
  with assms show ?thesis
    using poll_now_effect [of env now spawn "s\<lparr>queued := queued s - 1\<rparr>" s']
    by (auto simp: poll_in_main_def split: if_splits)
next
  case (PollTimer now spawn)
  let ?s = "s\<lparr>poll_log := poll_log s @ [TimerFired], polled := (polled s)\<lparr>poll_timeout_id := False, poll_requested := False\<rparr>\<rparr>"
  show ?thesis
    using assms PollTimer poll_now_effect [of env now spawn ?s s']
    by (auto simp: poll_timeout_def Let_def split: if_splits)
next
  case (HelperDone now pid result)
  then obtain w g where p: "poll_with_variant (env_os env) now pid (answer_of env result) (poll_world s, polled s) = Inr (w, g)"
    and s': "s' = s\<lparr>polled := g, poll_world := w, poll_log := poll_log s @ [HelperEnded pid]\<rparr>"
    using assms by (auto simp: ebind_Inr)
  from poll_answer_frame(2,3) [OF p] show ?thesis by (simp add: s')
qed

lemma served_step:
  assumes "served s t" and "poll_step env t e = Inr t'"
  shows "served s t'"
  using assms(1) poll_step_grows [OF assms(2)] by (fastforce simp: served_def)

interpretation sm: guarded_machine "poll_step env" "served s" for env s
  by unfold_locales (rule served_step)

lemma idle_serves:
  assumes "0 < queued s" and "poll_step env s (PollIdle now spawn) = Inr s'"
  shows "served s s'"
  using assms poll_now_effect [of env now spawn "s\<lparr>queued := queued s - 1\<rparr>" s']
  by (auto simp: served_def poll_in_main_def split: if_splits)

lemma timer_serves:
  assumes "served s t" and "poll_step env t (PollTimer now spawn) = Inr t'"
  shows "\<exists>l. poll_log t' = poll_log s @ l \<and> (\<exists>a \<in> set l. starts a)"
proof -
  let ?t = "t\<lparr>poll_log := poll_log t @ [TimerFired], polled := (polled t)\<lparr>poll_timeout_id := False, poll_requested := False\<rparr>\<rparr>"
  obtain l where l: "poll_log t = poll_log s @ l"
      "(\<exists>a \<in> set l. starts a) \<or> poll_requested (polled t) \<and> poll_timeout_id (polled t)"
    using assms(1) by (auto simp: served_def)
  from l(2) show ?thesis
  proof
    assume "\<exists>a \<in> set l. starts a"
    with poll_step_grows [OF assms(2)] l(1) show ?thesis by fastforce
  next
    assume "poll_requested (polled t) \<and> poll_timeout_id (polled t)"
    then have "poll_now env now spawn ?t = Inr t'" using assms(2) by (simp add: poll_timeout_def Let_def)
    from poll_now_effect [OF this] l(1) show ?thesis by auto
  qed
qed

text \<open>
  C29: No request is lost: once the main loop has run the callback of a request, a helper has been
  started by the time the timer has next fired, whatever happens in between.
\<close>

theorem poll_request_served:
  assumes "0 < queued s" and "run_steps (poll_step env) s (PollIdle now spawn # es @ [PollTimer now' spawn']) = Inr s'"
  shows "\<exists>l. poll_log s' = poll_log s @ l \<and> (\<exists>a \<in> set l. starts a)"
proof -
  obtain s1 s2 where 1: "poll_step env s (PollIdle now spawn) = Inr s1" and 2: "run_steps (poll_step env) s1 es = Inr s2"
    and 3: "poll_step env s2 (PollTimer now' spawn') = Inr s'"
    using assms(2) by (auto simp: run_steps_append simp del: poll_step.simps split: sum.splits)
  have "served s s2" by (rule sm.run_inv [OF idle_serves [OF assms(1) 1] 2])
  then show ?thesis by (rule timer_serves [OF _ 3])
qed

lemma poll_request_served_witness:
  "\<exists>s'. run_steps (poll_step demo_env) (storage_volume_group_poll (poll_new idle_group bare_world))
      (PollIdle 0 (\<lambda>_. Inr 7) # [PollCalled] @ [PollTimer 5 (\<lambda>_. Inr 9)]) = Inr s' \<and>
    (\<exists>l. poll_log s' = poll_log (storage_volume_group_poll (poll_new idle_group bare_world)) @ l \<and>
       (\<exists>a \<in> set l. starts a))"
proof -
  have q: "0 < queued (storage_volume_group_poll (poll_new idle_group bare_world))"
    by (simp add: storage_volume_group_poll_def)
  obtain s' where "run_steps (poll_step demo_env) (storage_volume_group_poll (poll_new idle_group bare_world))
      (PollIdle 0 (\<lambda>_. Inr 7) # [PollCalled] @ [PollTimer 5 (\<lambda>_. Inr 9)]) = Inr s'"
    by (simp add: poll_eval)
  with poll_request_served [OF q this] show ?thesis by blast
qed

text \<open>
  An answer to a poll only refreshes: the group keeps its volumes, its physical volumes and
  the report of its last update; and when its volumes are published, nothing is published and the
  blocks stay as they are.
\<close>

theorem poll_only_refreshes:
  assumes "poll_with_variant os now pid answer (w, g) = Inr (w', g')"
  shows "same_shape g g' \<and> ht_keys (logical_volumes g') = ht_keys (logical_volumes g) \<and>
    ((\<forall>k v. ht_lookup (logical_volumes g) k = Some v \<longrightarrow> \<not> needs_publish v) \<longrightarrow>
       objects (the_daemon w') = objects (the_daemon w) \<and> emitted (the_daemon w') = emitted (the_daemon w) \<and>
       the_blocks w' = the_blocks w)"
proof -
  note f = poll_answer_frame [OF assms]
  have "ht_lookup (logical_volumes g') k = None \<longleftrightarrow> ht_lookup (logical_volumes g) k = None" for k
    using f(1) by (metis map_option_is_None same_shape_def)
  then have "ht_keys (logical_volumes g') = ht_keys (logical_volumes g)"
    by (auto simp: ht.keys_dom dom_def)
  with f(1,5) show ?thesis by (auto simp: published_volumes_def same_world_def same_bus_def)
qed

lemma poll_only_refreshes_witness:
  "\<exists>w' g'. poll_with_variant agreeing_os 0 7
      (Inr [(''size'', VUint64 9), (''lvs'', VDictArray [[(''name'', VString ''a'')]])])
      (bare_world, idle_group\<lparr>poll_pid := 7\<rparr>) = Inr (w', g') \<and> ht_keys (logical_volumes g') = {} \<and> vgo_size g' = 9"
proof -
  obtain w' g' where p: "poll_with_variant agreeing_os 0 7
      (Inr [(''size'', VUint64 9), (''lvs'', VDictArray [[(''name'', VString ''a'')]])])
      (bare_world, idle_group\<lparr>poll_pid := 7\<rparr>) = Inr (w', g')" and "vgo_size g' = 9"
    by (simp add: poll_with_variant_def Let_def dicts_of_def lookup_defs poll_volume_def update_operations_def
        lv_is_pvmove_volume_def idle_group_def storage_volume_group_new_def ht_lookup_def volume_group_update_props_def)
  with poll_only_refreshes [OF p] show ?thesis
    by (auto simp: idle_group_def storage_volume_group_new_def ht_keys_def)
qed

end
