(* ===== verification/Group_Update.thy ===== *)
theory Group_Update
  imports Volume_Group
begin

text \<open>
  What an update and the disposal of a volume group achieve: the invariant of a group and of the
  blocks, its preservation by every part of \<open>update_with_variant\<close>, and the properties of
  whole updates.
\<close>

section \<open>Where things are exported\<close>

lemma places_iff: "p \<in> places (objects d) t \<longleftrightarrow> t \<in> interfaces_at d p"
  by (auto simp: places_def interfaces_at_def split: option.splits)

lemma group_places_publish:
  assumes "is_dbus_interface t"
  shows "places (objects (publish d (Some p) False t)) u =
    (if u = t then insert p (places (objects d) t)
     else if iface_name u = iface_name t then places (objects d) u - {p} else places (objects d) u)"
  by (auto simp: places_iff interfaces_at_publish [OF assms] split: if_splits)

lemma places_unpublish:
  assumes "is_dbus_interface t"
  shows "places (objects (unpublish_at d p t)) u =
    (if u = t then places (objects d) t - {p} else places (objects d) u)"
  by (auto simp: places_iff interfaces_at_unpublish [OF assms] split: if_splits)

lemma places_new [simp]: "objects (fst (new_thing d ty)) = objects d"
  by (simp add: new_thing_def)

lemma fresh_place: "bus_ok d \<Longrightarrow> next_thing d \<le> thing_id t \<Longrightarrow> places (objects d) t = {}"
  by (auto simp: places_iff bus_ok_def) (meson leD)

text \<open>A thing that is no interface of a block is not touched by what happens to the blocks.\<close>

definition block_type :: "gtype \<Rightarrow> bool" where
  "block_type ty \<longleftrightarrow> ty = StoragePhysicalVolume \<or> ty = LvmLogicalVolumeBlockSkeleton"

lemma not_at_block:
  assumes "blocks_ok d bs" and "p \<in> fst ` set bs" and "t \<in> interfaces_at d p"
  shows "block_type (thing_type t)"
proof -
  obtain b where b: "(p, b) \<in> set bs" using assms(2) by auto
  then have "blk_path b = p" "block_ok d b" using assms(1) by (auto simp: blocks_ok_def)
  with assms(3) show ?thesis
    by (auto simp: block_ok_def block_types_ok_def block_things_def block_type_def)
qed

lemma places_blocks:
  assumes "blocks_ok d bs" and "blocks_ok d' bs'" and "map fst bs' = map fst bs" and "only_blocks bs d d'"
    and "\<not> block_type (thing_type t)"
  shows "places (objects d') t = places (objects d) t"
proof (rule set_eqI)
  fix p
  have "fst ` set bs' = fst ` set bs" using assms(3) by (metis list.set_map)
  then show "p \<in> places (objects d') t \<longleftrightarrow> p \<in> places (objects d) t"
    using assms not_at_block [of d bs p t] not_at_block [of d' bs' p t]
    by (cases "p \<in> fst ` set bs") (auto simp: places_iff only_blocks_def)
qed

section \<open>Paths\<close>

definition group_path :: "string \<Rightarrow> string" where
  "group_path name = ''/org/freedesktop/UDisks2/lvm/'' @ escape name"

definition volume_path :: "string \<Rightarrow> string \<Rightarrow> string" where
  "volume_path vg name = group_path vg @ ''/'' @ escape name"

lemma last_escape: "name \<noteq> [] \<Longrightarrow> last (escape name) \<noteq> CHR ''/''"
proof -
  assume "name \<noteq> []"
  then have "last (escape name) \<in> set (escape name)" by simp
  then have "path_char (last (escape name))" using escape_chars [of name] by (simp add: list_all_iff)
  then show ?thesis by (auto simp: path_char_def)
qed

lemma no_suffix: "ys \<noteq> [] \<Longrightarrow> last ys \<noteq> c \<Longrightarrow> \<not> suffix [c] (xs @ ys)"
  by (auto simp: suffix_def) (metis last_appendR last_snoc)

lemma group_path_build [simp]:
  "build_object_path (Some ''/org/freedesktop/UDisks2/lvm'') [name] = Some (group_path name)"
  by (simp add: build_object_path_Some group_path_def suffix_def)

lemma volume_path_build [simp]:
  "vg \<noteq> [] \<Longrightarrow> build_object_path (Some (group_path vg)) [name] = Some (volume_path vg name)"
proof -
  assume vg: "vg \<noteq> []"
  have "\<not> suffix ''/'' (group_path vg)"
    unfolding group_path_def using vg by (intro no_suffix last_escape) simp_all
  then show ?thesis by (simp add: build_object_path_Some volume_path_def)
qed

lemma volume_path_inj: "volume_path vg a = volume_path vg b \<longleftrightarrow> escape a = escape b"
  by (simp add: volume_path_def)

definition block_path :: "string \<Rightarrow> bool" where
  "block_path p \<longleftrightarrow> has_prefix p ''/org/freedesktop/UDisks2/block_devices/''"

lemma not_block_path [simp]: "\<not> block_path (group_path vg)" "\<not> block_path (volume_path vg name)"
  by (simp_all add: block_path_def group_path_def volume_path_def)

section \<open>The invariant of a group\<close>

text \<open>
  The volumes in the table are known by their name, belong to the group, and each has been
  published at the path of its name and is exported nowhere else; the group likewise.
\<close>

definition volume_ok :: "daemon \<Rightarrow> volume_group \<Rightarrow> string \<Rightarrow> logical_volume \<Rightarrow> bool" where
  "volume_ok d g k v \<longleftrightarrow>
     lvo_name v = k \<and> \<not> needs_publish v \<and> thing_type (lvo_thing v) = StorageLogicalVolume \<and>
     places (objects d) (lvo_thing v) = {volume_path (vgo_name g) k}"

definition group_ok :: "daemon \<Rightarrow> volume_group \<Rightarrow> bool" where
  "group_ok d g \<longleftrightarrow>
     vgo_name g \<noteq> [] \<and> thing_type (vgo_thing g) = StorageVolumeGroup \<and> \<not> need_publish g \<and>
     places (objects d) (vgo_thing g) = {group_path (vgo_name g)} \<and>
     ht_wf (logical_volumes g) \<and>
     (\<forall>k v. ht_lookup (logical_volumes g) k = Some v \<longrightarrow> volume_ok d g k v)"

definition world_ok :: "world \<Rightarrow> bool" where
  "world_ok w \<longleftrightarrow>
     bus_ok (the_daemon w) \<and> blocks_ok (the_daemon w) (the_blocks w) \<and>
     (\<forall>p \<in> fst ` set (the_blocks w). block_path p) \<and>
     (\<forall>p. block_path p \<longrightarrow> p \<notin> fst ` set (the_blocks w) \<longrightarrow> interfaces_at (the_daemon w) p = {})"

text \<open>A change of the daemon that is not about blocks leaves the blocks as they are.\<close>

definition off_blocks :: "daemon \<Rightarrow> daemon \<Rightarrow> bool" where
  "off_blocks d d' \<longleftrightarrow> bus_ok d' \<and> (\<forall>p. block_path p \<longrightarrow> interfaces_at d' p = interfaces_at d p)"

lemma world_ok_off_blocks:
  "world_ok w \<Longrightarrow> off_blocks (the_daemon w) d \<Longrightarrow> world_ok (w\<lparr>the_daemon := d\<rparr>)"
  by (force simp: world_ok_def off_blocks_def blocks_ok_def block_ok_def)

lemma world_ok_calls [simp]: "world_ok (w\<lparr>the_calls := tr\<rparr>) = world_ok w"
  by (simp add: world_ok_def)

lemma off_blocks_publish:
  "bus_ok d \<Longrightarrow> is_dbus_interface t \<Longrightarrow> thing_id t < next_thing d \<Longrightarrow> \<not> block_path p \<Longrightarrow>
   off_blocks d (publish_at d p t)"
  by (auto simp: off_blocks_def bus_ok_publish interfaces_at_publish)

lemma off_blocks_unpublish:
  "bus_ok d \<Longrightarrow> is_dbus_interface t \<Longrightarrow> \<not> block_path p \<Longrightarrow> off_blocks d (unpublish_at d p t)"
  by (auto simp: off_blocks_def bus_ok_unpublish interfaces_at_unpublish)

lemma off_blocks_trans: "off_blocks d e \<Longrightarrow> off_blocks e f \<Longrightarrow> off_blocks d f"
  by (simp add: off_blocks_def)

lemma same_bus_off: "bus_ok d \<Longrightarrow> same_bus d d' \<Longrightarrow> off_blocks d d'"
  by (auto simp: same_bus_def off_blocks_def bus_ok_def interfaces_at_def)

lemma same_bus_places: "same_bus d d' \<Longrightarrow> objects d' = objects d"
  by (simp add: same_bus_def)

lemma group_ok_frame [simp]:
  "group_ok d (g\<lparr>last_info := i\<rparr>) = group_ok d g"
  "group_ok d (g\<lparr>needs_polling := b\<rparr>) = group_ok d g"
  "group_ok d (g\<lparr>physical_volumes := t\<rparr>) = group_ok d g"
  by (simp_all add: group_ok_def volume_ok_def)

lemma group_ok_same: "objects d' = objects d \<Longrightarrow> group_ok d' g = group_ok d g"
  by (simp add: group_ok_def volume_ok_def)

section \<open>What an update leaves alone\<close>

text \<open>The paths of a group, its instances, and the types of things that groups export.\<close>

definition own_paths :: "string \<Rightarrow> string set" where
  "own_paths name = insert (group_path name) (range (volume_path name))"

definition group_things :: "volume_group \<Rightarrow> thing set" where
  "group_things g = insert (vgo_thing g) {t. \<exists>k. map_option lvo_thing (ht_lookup (logical_volumes g) k) = Some t}"

definition lvm_type :: "gtype \<Rightarrow> bool" where
  "lvm_type ty \<longleftrightarrow> ty = StorageVolumeGroup \<or> ty = StorageLogicalVolume"

text \<open>A thing of a group that is not in \<open>T\<close> loses at most places among the paths of the group \<open>name\<close>.\<close>

definition aside :: "string \<Rightarrow> thing set \<Rightarrow> daemon \<Rightarrow> daemon \<Rightarrow> bool" where
  "aside name T d d' \<longleftrightarrow>
     next_thing d \<le> next_thing d' \<and>
     (\<forall>t. lvm_type (thing_type t) \<longrightarrow> t \<notin> T \<longrightarrow>
        places (objects d') t \<subseteq> places (objects d) t \<and>
        places (objects d) t - own_paths name \<subseteq> places (objects d') t)"

lemma aside_trans: "aside name T d e \<Longrightarrow> aside name T e f \<Longrightarrow> aside name T d f"
  by (fastforce simp: aside_def)

lemma aside_mono: "aside name T d e \<Longrightarrow> T \<subseteq> U \<Longrightarrow> aside name U d e"
  by (fastforce simp: aside_def)

lemma aside_same: "objects d' = objects d \<Longrightarrow> next_thing d \<le> next_thing d' \<Longrightarrow> aside name T d d'"
  by (auto simp: aside_def)

lemma aside_publish:
  assumes "is_dbus_interface t" and "p \<in> own_paths name"
  shows "aside name {t} d (publish_at d p t)"
  using assms by (auto simp: aside_def group_places_publish [OF assms(1)] split: if_splits)

text \<open>
  What becomes of the instances of a group: those it had or that are new are its own or are
  exported nowhere, and other groups keep theirs.
\<close>

definition group_moves :: "daemon \<Rightarrow> daemon \<Rightarrow> volume_group \<Rightarrow> volume_group \<Rightarrow> bool" where
  "group_moves d d' g g' \<longleftrightarrow>
     (\<exists>T. group_things g \<subseteq> T \<and> group_things g' \<subseteq> T \<and> (\<forall>t\<in>T. t \<in> group_things g \<or> next_thing d \<le> thing_id t) \<and>
        aside (vgo_name g) T d d' \<and> (\<forall>t\<in>T. t \<notin> group_things g' \<longrightarrow> places (objects d') t = {}))"

section \<open>The update keeps the invariant\<close>

text \<open>\<open>N\<close> bounds the names in play; below, escaping is injective on it.\<close>

definition update_ok ::
  "string set \<Rightarrow> world \<times> volume_group \<times> bool \<times> string list \<Rightarrow> bool" where
  "update_ok N s \<longleftrightarrow>
     (case s of (w, g, polling, names) \<Rightarrow>
        world_ok w \<and> group_ok (the_daemon w) g \<and> ht_keys (logical_volumes g) \<subseteq> N \<and>
        set names \<subseteq> ht_keys (logical_volumes g))"

text \<open>What a step keeps: the group but for its table, and the instances in the table.\<close>

definition same_group :: "volume_group \<Rightarrow> volume_group \<Rightarrow> bool" where
  "same_group g g' \<longleftrightarrow>
     (\<exists>t. g' = g\<lparr>logical_volumes := t\<rparr> \<and>
       (\<forall>k v. ht_lookup (logical_volumes g) k = Some v \<longrightarrow>
          (\<exists>v'. ht_lookup t k = Some v' \<and> lvo_thing v' = lvo_thing v)))"

lemma same_groupI:
  "(\<And>k v. ht_lookup (logical_volumes g) k = Some v \<Longrightarrow> \<exists>v'. ht_lookup t k = Some v' \<and> lvo_thing v' = lvo_thing v) \<Longrightarrow>
   same_group g (g\<lparr>logical_volumes := t\<rparr>)"
  unfolding same_group_def by blast

lemma same_group_refl: "same_group g g"
  using same_groupI [of g "logical_volumes g"] by simp

lemma same_group_trans: "same_group g h \<Longrightarrow> same_group h i \<Longrightarrow> same_group g i"
  by (fastforce simp: same_group_def)

lemma same_group_things: "same_group g g' \<Longrightarrow> group_things g \<subseteq> group_things g'"
  by (fastforce simp: same_group_def group_things_def)

lemma group_things_update [simp]:
  "ht_lookup (logical_volumes g) name = Some v \<Longrightarrow> lvo_thing v' = lvo_thing v \<Longrightarrow>
   group_things (g\<lparr>logical_volumes := ht_insert (logical_volumes g) name v'\<rparr>) = group_things g"
proof -
  assume "ht_lookup (logical_volumes g) name = Some v" and "lvo_thing v' = lvo_thing v"
  then have "map_option lvo_thing (ht_lookup (ht_insert (logical_volumes g) name v') k) =
      map_option lvo_thing (ht_lookup (logical_volumes g) k)" for k
    by (simp add: ht.lookup_ins)
  then show ?thesis by (simp add: group_things_def)
qed

lemma group_things_insert:
  "ht_lookup (logical_volumes g) name = None \<Longrightarrow>
   group_things (g\<lparr>logical_volumes := ht_insert (logical_volumes g) name v\<rparr>) = insert (lvo_thing v) (group_things g)"
proof -
  assume new: "ht_lookup (logical_volumes g) name = None"
  have "(\<exists>k. map_option lvo_thing (ht_lookup (ht_insert (logical_volumes g) name v) k) = Some t) \<longleftrightarrow>
      t = lvo_thing v \<or> (\<exists>k. map_option lvo_thing (ht_lookup (logical_volumes g) k) = Some t)" (is "?l \<longleftrightarrow> ?r") for t
  proof
    assume ?r
    then show ?l
    proof
      assume "\<exists>k. map_option lvo_thing (ht_lookup (logical_volumes g) k) = Some t"
      then obtain k where k: "map_option lvo_thing (ht_lookup (logical_volumes g) k) = Some t" ..
      with new have "k \<noteq> name" by auto
      with k show ?l by (intro exI [of _ k]) (simp add: ht.lookup_ins)
    qed (auto simp: ht.lookup_ins intro!: exI [of _ name])
  qed (auto simp: ht.lookup_ins split: if_splits)
  then show ?thesis by (auto simp: group_things_def)
qed

lemma keys_lookup: "ht_keys t = {k. \<exists>v. ht_lookup t k = Some v}"
  by (auto simp: ht.keys_dom)

lemma known_volume_step:
  assumes ok: "update_ok N (w, g, polling, names)" and known: "ht_lookup (logical_volumes g) name = Some v"
    and u: "storage_logical_volume_update os (logical_volumes g) (vgo_thing g) i (the_daemon w) tr np v = (d', tr', np', v')"
  shows "d' = the_daemon w"
    and "update_ok N (w\<lparr>the_calls := tr'\<rparr>, g\<lparr>logical_volumes := ht_insert (logical_volumes g) name v'\<rparr>, np', names @ [name])"
    and "same_group g (g\<lparr>logical_volumes := ht_insert (logical_volumes g) name v'\<rparr>)"
proof -
  note f = update_simps [OF u]
  have v: "volume_ok (the_daemon w) g name v"
    using ok known by (simp add: update_ok_def group_ok_def)
  then show "d' = the_daemon w" using f(4) by (simp add: volume_ok_def)
  have "volume_ok (the_daemon w) g name v'" using v f(1-3) by (simp add: volume_ok_def)
  then show "update_ok N (w\<lparr>the_calls := tr'\<rparr>, g\<lparr>logical_volumes := ht_insert (logical_volumes g) name v'\<rparr>, np', names @ [name])"
    using ok known
    by (auto simp: update_ok_def group_ok_def volume_ok_def ht.invar_ins ht.lookup_ins ht.keys_ins keys_lookup)
  show "same_group g (g\<lparr>logical_volumes := ht_insert (logical_volumes g) name v'\<rparr>)"
    using known f(1) by (intro same_groupI) (auto simp: ht.lookup_ins)
qed

lemma new_volume_step:
  assumes ok: "update_ok N (w, g, polling, names)" and new: "ht_lookup (logical_volumes g) name = None"
    and n: "new_thing (the_daemon w) StorageLogicalVolume = (d1, t)"
    and u: "storage_logical_volume_update os (logical_volumes g) (vgo_thing g) i d1 tr np
              (storage_logical_volume_new t (vgo_thing g) name) = (d', tr', np', v')"
    and inj: "inj_on escape N" and name: "name \<in> N"
  shows "update_ok N (w\<lparr>the_daemon := d', the_calls := tr'\<rparr>,
           g\<lparr>logical_volumes := ht_insert (logical_volumes g) name v'\<rparr>, np', names @ [name])"
    and "same_group g (g\<lparr>logical_volumes := ht_insert (logical_volumes g) name v'\<rparr>)"
    and "off_blocks (the_daemon w) d'"
    and "aside (vgo_name g) {lvo_thing v'} (the_daemon w) d'"
    and "next_thing (the_daemon w) \<le> thing_id (lvo_thing v')"
proof -
  note f = update_simps [OF u]
  let ?d = "the_daemon w" and ?p = "volume_path (vgo_name g) name"
  have w: "world_ok w" and g: "group_ok ?d g" and keys: "ht_keys (logical_volumes g) \<subseteq> N"
    and bus: "bus_ok ?d" using ok by (simp_all add: update_ok_def world_ok_def)
  have d1: "objects d1 = objects ?d" and t: "t = Thing (next_thing ?d) StorageLogicalVolume"
    using n by (simp_all add: new_thing_def, auto)
  have dbus: "is_dbus_interface t" by (simp add: t is_dbus_interface_def)
  have at: "interfaces_at d1 q = interfaces_at ?d q" for q by (simp add: interfaces_at_def d1)
  have bus1: "bus_ok d1" "thing_id t < next_thing d1" using bus_ok_new [OF bus n] by auto
  have "path_of d1 (vgo_thing g) = Some (group_path (vgo_name g))"
    using bus1(1) g by (intro path_of_places) (simp_all add: bus_ok_def group_ok_def d1)
  then have d': "d' = publish_at d1 ?p t"
    using f(4) g by (simp add: storage_logical_volume_new_def group_ok_def)
  have off1: "off_blocks d1 d'"
    unfolding d' by (rule off_blocks_publish [OF bus1(1) dbus bus1(2)]) simp
  then show off: "off_blocks ?d d'" by (simp add: off_blocks_def at)
  have v't: "lvo_thing v' = t" using f(1) by (simp add: storage_logical_volume_new_def)
  show "next_thing ?d \<le> thing_id (lvo_thing v')" by (simp add: v't t)
  have "aside (vgo_name g) {t} d1 d'"
    unfolding d' by (rule aside_publish [OF dbus]) (simp add: own_paths_def)
  moreover have "aside (vgo_name g) {t} ?d d1" using n by (intro aside_same) (auto simp: new_thing_def)
  ultimately show "aside (vgo_name g) {lvo_thing v'} ?d d'" unfolding v't by (blast intro: aside_trans)
  have pl: "places (objects d') u = (if u = t then insert ?p (places (objects ?d) t)
      else if thing_type u = StorageLogicalVolume then places (objects ?d) u - {?p} else places (objects ?d) u)" for u
    using dbus by (cases "thing_type u") (auto simp: d' group_places_publish d1 t)
  have v': "volume_ok d' g name v'"
    using f(1-3) fresh_place [OF bus, of t] by (simp add: volume_ok_def storage_logical_volume_new_def pl t)
  have others: "volume_ok d' g k v" if v: "ht_lookup (logical_volumes g) k = Some v" for k v
  proof -
    have vok: "volume_ok ?d g k v" using g v by (simp add: group_ok_def)
    then have "lvo_thing v \<noteq> t" using fresh_place [OF bus, of t] by (auto simp: volume_ok_def t)
    moreover have "k \<in> N" "k \<noteq> name" using keys v new by (auto simp: keys_lookup)
    then have "volume_path (vgo_name g) k \<noteq> ?p" using inj name by (auto simp: volume_path_inj inj_on_def)
    ultimately show ?thesis using vok by (auto simp: volume_ok_def pl)
  qed
  have "vgo_thing g \<noteq> t" using g by (auto simp: group_ok_def t)
  then have gp: "places (objects d') (vgo_thing g) = {group_path (vgo_name g)}"
    using g by (simp add: pl group_ok_def)
  have "world_ok (w\<lparr>the_daemon := d', the_calls := tr'\<rparr>)"
    using world_ok_off_blocks [OF w off] world_ok_calls [of tr' "w\<lparr>the_daemon := d'\<rparr>"] by simp
  then show "update_ok N (w\<lparr>the_daemon := d', the_calls := tr'\<rparr>,
      g\<lparr>logical_volumes := ht_insert (logical_volumes g) name v'\<rparr>, np', names @ [name])"
    using g v' others gp keys name ok
    by (auto simp: update_ok_def group_ok_def volume_ok_def ht.invar_ins ht.lookup_ins ht.keys_ins)
  show "same_group g (g\<lparr>logical_volumes := ht_insert (logical_volumes g) name v'\<rparr>)"
    using new by (intro same_groupI) (auto simp: ht.lookup_ins)
qed

text \<open>What a report asks for: a volume in the table, and polling.\<close>

definition visible_name :: "vardict \<Rightarrow> string list" where
  "visible_name i =
     (case lookup_s i ''name'' of Some n \<Rightarrow> if lv_is_visible n then [n] else [] | None \<Rightarrow> [])"

definition visible_names :: "vardict list \<Rightarrow> string list" where
  "visible_names is = concat (map visible_name is)"

lemma visible_names_simps [simp]:
  "visible_names [] = []" "visible_names (i # is) = visible_name i @ visible_names is"
  by (simp_all add: visible_names_def)

definition wants_polling :: "vardict \<Rightarrow> bool" where
  "wants_polling i \<longleftrightarrow>
     (\<exists>n. lookup_s i ''name'' = Some n \<and>
        (lv_is_pvmove_volume n \<or> lv_is_visible n \<and> snd (snd (parse_lv_attr i))))"

fun steps_to ::
  "vardict list \<Rightarrow> world \<times> volume_group \<times> bool \<times> string list \<Rightarrow>
   world \<times> volume_group \<times> bool \<times> string list \<Rightarrow> bool" where
  "steps_to is (w, g, polling, names) (w', g', polling', names') \<longleftrightarrow>
     same_group g g' \<and> off_blocks (the_daemon w) (the_daemon w') \<and> the_blocks w' = the_blocks w \<and>
     aside (vgo_name g) (group_things g') (the_daemon w) (the_daemon w') \<and>
     (\<forall>t \<in> group_things g'. t \<in> group_things g \<or> next_thing (the_daemon w) \<le> thing_id t) \<and>
     names' = names @ visible_names is \<and> (polling' \<longleftrightarrow> polling \<or> (\<exists>i \<in> set is. wants_polling i)) \<and>
     ht_keys (logical_volumes g') = ht_keys (logical_volumes g) \<union> set (visible_names is)"

lemma steps_to_Nil: "bus_ok (the_daemon w) \<Longrightarrow> steps_to [] (w, g, polling, names) (w, g, polling, names)"
  by (simp add: same_group_refl off_blocks_def aside_same)

lemma steps_to_Cons:
  assumes "steps_to [i] s t" and "steps_to is t u"
  shows "steps_to (i # is) s u"
proof -
  obtain w g p ns where s: "s = (w, g, p, ns)" by (cases s)
  obtain w1 g1 p1 ns1 where t: "t = (w1, g1, p1, ns1)" by (cases t)
  obtain w2 g2 p2 ns2 where u: "u = (w2, g2, p2, ns2)" by (cases u)
  have sg: "same_group g g1" "same_group g1 g2" using assms by (simp_all add: s t u)
  have "vgo_name g1 = vgo_name g" using sg(1) by (auto simp: same_group_def)
  then have "aside (vgo_name g) (group_things g2) (the_daemon w) (the_daemon w2)"
    using assms same_group_things [OF sg(2)] by (auto simp: s t u intro: aside_trans aside_mono)
  moreover have "\<forall>t \<in> group_things g2. t \<in> group_things g \<or> next_thing (the_daemon w) \<le> thing_id t"
    using assms by (fastforce simp: s t u aside_def)
  ultimately show ?thesis
    using assms same_group_trans [OF sg] by (auto simp: s t u intro: off_blocks_trans)
qed

lemma update_volume_step:
  assumes ok: "update_ok N (w, g, polling, names)" and u: "update_volume os now i (w, g, polling, names) = Inr s'"
    and inj: "inj_on escape N" and vis: "set (visible_name i) \<subseteq> N"
  shows "update_ok N s' \<and> steps_to [i] (w, g, polling, names) s'"
proof -
  obtain name where name: "lookup_s i ''name'' = Some name"
    using u by (auto simp: update_volume_def split: option.splits)
  obtain w1 p1 where o: "update_operations now name i w polling = Inr (w1, p1)"
    using u by (auto simp: update_volume_def name ebind_Inr)
  note ops = update_operations_world [OF o]
  let ?p = "p1 \<or> lv_is_pvmove_volume name"
  have p: "?p \<longleftrightarrow> polling \<or> lv_is_pvmove_volume name" using ops by blast
  have bus: "bus_ok (the_daemon w)" and w: "world_ok w" using ok by (simp_all add: update_ok_def world_ok_def)
  have off1: "off_blocks (the_daemon w) (the_daemon w1)" using same_bus_off [OF bus] ops by blast
  have as1: "aside (vgo_name g) T (the_daemon w) (the_daemon w1)" for T
    using ops by (intro aside_same) (auto simp: same_bus_def)
  have next1: "next_thing (the_daemon w1) = next_thing (the_daemon w)" using ops by (auto simp: same_bus_def)
  have "w1 = w\<lparr>the_daemon := the_daemon w1\<rparr>" using ops by (cases w; cases w1) simp
  then have "world_ok w1" using world_ok_off_blocks [OF w off1] by metis
  then have ok1: "update_ok N (w1, g, ?p, names)"
    using ok group_ok_same [OF same_bus_places] ops by (auto simp: update_ok_def)
  show ?thesis
  proof (cases "lv_is_visible name")
    case False
    with u name o have "s' = (w1, g, ?p, names)" by (auto simp: update_volume_def Let_def)
    with ok1 False name ops off1 as1 p show ?thesis
      by (auto simp: visible_name_def wants_polling_def same_group_refl)
  next
    case True
    then have N: "name \<in> N" using vis name by (simp add: visible_name_def)
    show ?thesis
    proof (cases "ht_lookup (logical_volumes g) name")
      case (Some v)
      obtain d' tr' np' v' where uv: "storage_logical_volume_update os (logical_volumes g) (vgo_thing g) i
          (the_daemon w1) (the_calls w1) ?p v = (d', tr', np', v')" by (metis prod_cases4)
      note k = known_volume_step [OF ok1 Some uv]
      have s': "s' = (w1\<lparr>the_calls := tr'\<rparr>, g\<lparr>logical_volumes := ht_insert (logical_volumes g) name v'\<rparr>, np', names @ [name])"
        using u name o True Some uv k(1) by (simp add: update_volume_def Let_def)
      show ?thesis
        unfolding s' using k(2,3) True name ops off1 as1 p update_simps(1,7) [OF uv] Some
        by (auto simp: visible_name_def wants_polling_def ht.keys_ins)
    next
      case None
      obtain d1 t where n: "new_thing (the_daemon w1) StorageLogicalVolume = (d1, t)" by fastforce
      obtain d' tr' np' v' where uv: "storage_logical_volume_update os (logical_volumes g) (vgo_thing g) i
          d1 (the_calls w1) ?p (storage_logical_volume_new t (vgo_thing g) name) = (d', tr', np', v')"
        by (metis prod_cases4)
      note k = new_volume_step [OF ok1 None n uv inj N]
      have s': "s' = (w1\<lparr>the_daemon := d', the_calls := tr'\<rparr>,
          g\<lparr>logical_volumes := ht_insert (logical_volumes g) name v'\<rparr>, np', names @ [name])"
        using u name o True None n uv by (simp add: update_volume_def Let_def)
      have "aside (vgo_name g) (insert (lvo_thing v') (group_things g)) (the_daemon w) d'"
        by (rule aside_trans [OF as1 aside_mono [OF k(4)]]) simp
      then show ?thesis
        unfolding s' using k(1-3,5) True name ops off_blocks_trans [OF off1 k(3)] p update_simps(7) [OF uv] next1
        by (auto simp: visible_name_def wants_polling_def ht.keys_ins group_things_insert [OF None])
    qed
  qed
qed

lemma update_volumes_steps:
  assumes "update_ok N s" and "update_volumes os now is s = Inr s'"
    and "inj_on escape N" and "set (visible_names is) \<subseteq> N"
  shows "update_ok N s' \<and> steps_to is s s'"
  using assms
proof (induction "is" arbitrary: s)
  case Nil
  obtain w g polling names where s: "s = (w, g, polling, names)" by (cases s)
  with Nil.prems(1) have "bus_ok (the_daemon w)" by (simp add: update_ok_def world_ok_def)
  then have "steps_to [] s s" unfolding s by (rule steps_to_Nil)
  with Nil.prems(1,2) show ?case by simp
next
  case (Cons i "is")
  obtain t where t: "update_volume os now i s = Inr t" "update_volumes os now is t = Inr s'"
    using Cons.prems(2) by (auto simp: ebind_Inr)
  have "update_ok N t \<and> steps_to [i] s t"
    using update_volume_step [of N _ _ _ _ os now i t] Cons.prems t(1) by (cases s) auto
  with Cons.IH [of t] Cons.prems t(2) show ?case by (auto intro: steps_to_Cons)
qed

section \<open>Volumes that went away\<close>

definition placed_at :: "daemon \<Rightarrow> string \<Rightarrow> string \<times> logical_volume \<Rightarrow> bool" where
  "placed_at d vg kv \<longleftrightarrow>
     thing_type (lvo_thing (snd kv)) = StorageLogicalVolume \<and>
     places (objects d) (lvo_thing (snd kv)) = {volume_path vg (fst kv)}"

lemma dispose_volume:
  assumes "bus_ok d" and "placed_at d vg (k, v)"
  shows "off_blocks d (fst (storage_logical_volume_dispose d v))"
    and "places (objects (fst (storage_logical_volume_dispose d v))) u =
      (if u = lvo_thing v then {} else places (objects d) u)"
    and "next_thing (fst (storage_logical_volume_dispose d v)) = next_thing d"
proof -
  have t: "is_dbus_interface (lvo_thing v)" using assms(2) by (simp add: placed_at_def is_dbus_interface_def)
  have "path_of d (lvo_thing v) = Some (volume_path vg k)"
    using assms by (intro path_of_places) (auto simp: bus_ok_def placed_at_def)
  then have eq: "fst (storage_logical_volume_dispose d v) = unpublish_at d (volume_path vg k) (lvo_thing v)"
    by (simp add: storage_logical_volume_dispose_def Let_def)
  show "off_blocks d (fst (storage_logical_volume_dispose d v))"
    unfolding eq by (rule off_blocks_unpublish [OF assms(1) t]) simp
  show "places (objects (fst (storage_logical_volume_dispose d v))) u =
      (if u = lvo_thing v then {} else places (objects d) u)"
    unfolding eq using assms(2) by (auto simp: places_unpublish [OF t] placed_at_def)
  show "next_thing (fst (storage_logical_volume_dispose d v)) = next_thing d" by (simp add: eq)
qed

lemma drop_stale_volumes_eq:
  "drop_stale_volumes ns d vs =
     (fold (\<lambda>kv d. fst (storage_logical_volume_dispose d (snd kv))) (filter (\<lambda>kv. fst kv \<notin> ns) vs) d,
      filter (\<lambda>kv. fst kv \<in> ns) vs)"
  by (induction ns d vs rule: drop_stale_volumes.induct) (simp_all add: Let_def)

lemma dispose_volumes:
  assumes "bus_ok d" and "\<forall>kv \<in> set vs. placed_at d vg kv" and "distinct (map (lvo_thing \<circ> snd) vs)"
    and "d' = fold (\<lambda>kv d. fst (storage_logical_volume_dispose d (snd kv))) vs d"
  shows "off_blocks d d' \<and> next_thing d' = next_thing d \<and>
    (\<forall>u. places (objects d') u = (if u \<in> lvo_thing ` snd ` set vs then {} else places (objects d) u))"
  using assms
proof (induction vs arbitrary: d)
  case (Cons kv vs)
  obtain k v where kv: "kv = (k, v)" by (cases kv)
  let ?d = "fst (storage_logical_volume_dispose d v)"
  have at: "placed_at d vg (k, v)" using Cons.prems(2) by (simp add: kv)
  note f = dispose_volume [OF Cons.prems(1) at]
  have "placed_at ?d vg x" if "x \<in> set vs" for x
    using Cons.prems(2,3) that by (auto simp: placed_at_def f(2) kv image_iff)
  moreover have "bus_ok ?d" using f(1) by (simp add: off_blocks_def)
  ultimately have "off_blocks ?d d' \<and> next_thing d' = next_thing ?d \<and>
      (\<forall>u. places (objects d') u = (if u \<in> lvo_thing ` snd ` set vs then {} else places (objects ?d) u))"
    using Cons.IH [of ?d] Cons.prems(3,4) by (simp add: kv)
  with f show ?case by (auto simp: kv intro: off_blocks_trans)
qed (simp add: off_blocks_def)

lemma volumes_placed:
  assumes "group_ok d g"
  shows "\<forall>kv \<in> set (logical_volumes g). placed_at d (vgo_name g) kv"
proof
  fix kv
  assume "kv \<in> set (logical_volumes g)"
  then have "ht_lookup (logical_volumes g) (fst kv) = Some (snd kv)"
    using assms by (auto simp: group_ok_def ht_lookup_def ht_wf_def)
  then show "placed_at d (vgo_name g) kv"
    using assms by (auto simp: group_ok_def placed_at_def volume_ok_def)
qed

lemma volume_things_distinct:
  assumes "group_ok d g" and "inj_on escape (ht_keys (logical_volumes g))"
  shows "distinct (map (lvo_thing \<circ> snd) (logical_volumes g))"
proof -
  have at: "\<forall>kv \<in> set (logical_volumes g). placed_at d (vgo_name g) kv" by (rule volumes_placed [OF assms(1)])
  have d: "distinct (map fst (logical_volumes g))" using assms(1) by (simp add: group_ok_def ht_wf_def)
  have "kv = kw" if kv: "kv \<in> set (logical_volumes g)" "kw \<in> set (logical_volumes g)"
    and eq: "lvo_thing (snd kv) = lvo_thing (snd kw)" for kv kw
  proof -
    have "{volume_path (vgo_name g) (fst kv)} = {volume_path (vgo_name g) (fst kw)}"
      using at kv eq unfolding placed_at_def by metis
    then have "fst kv = fst kw"
      using assms(2) kv by (auto simp: volume_path_inj inj_on_def ht_keys_def)
    with d kv show ?thesis by (metis distinct_map inj_on_def)
  qed
  then show ?thesis using d by (auto simp: distinct_map inj_on_def)
qed

lemma lookup_filter_keys:
  "ht_wf t \<Longrightarrow> ht_lookup (filter (\<lambda>kv. fst kv \<in> ns) t) k = (if k \<in> ns then ht_lookup t k else None)"
  by (induction t) (auto simp: ht_lookup_def ht_wf_def map_of_eq_None_iff)

lemma table_things: "ht_wf (logical_volumes g) \<Longrightarrow> lvo_thing ` snd ` set (logical_volumes g) \<subseteq> group_things g"
  by (force simp: group_things_def ht_lookup_def ht_wf_def)

lemma drop_stale_volumes_ok:
  assumes ok: "update_ok N (w, g, polling, names)" and inj: "inj_on escape N"
    and dr: "drop_stale_volumes ns (the_daemon w) (logical_volumes g) = (d, vs)"
  shows "off_blocks (the_daemon w) d" and "group_ok d (g\<lparr>logical_volumes := vs\<rparr>)"
    and "ht_keys vs = ht_keys (logical_volumes g) \<inter> ns"
    and "\<And>k v. ht_lookup (logical_volumes g) k = Some v \<Longrightarrow> k \<notin> ns \<Longrightarrow> places (objects d) (lvo_thing v) = {}"
    and "\<And>k. ht_lookup vs k = (if k \<in> ns then ht_lookup (logical_volumes g) k else None)"
    and "aside vg (group_things g) (the_daemon w) d"
proof -
  let ?d = "the_daemon w" and ?t = "logical_volumes g" and ?out = "filter (\<lambda>kv. fst kv \<notin> ns) (logical_volumes g)"
  have g: "group_ok ?d g" and bus: "bus_ok ?d" and keys: "ht_keys ?t \<subseteq> N"
    using ok by (simp_all add: update_ok_def world_ok_def)
  have wf: "ht_wf ?t" using g by (simp add: group_ok_def)
  have d: "d = fold (\<lambda>kv d. fst (storage_logical_volume_dispose d (snd kv))) ?out ?d"
    and vs: "vs = filter (\<lambda>kv. fst kv \<in> ns) ?t"
    using dr by (simp_all add: drop_stale_volumes_eq)
  have things: "distinct (map (lvo_thing \<circ> snd) ?t)"
    by (rule volume_things_distinct [OF g inj_on_subset [OF inj keys]])
  have "off_blocks ?d d \<and> next_thing d = next_thing ?d \<and>
      (\<forall>u. places (objects d) u = (if u \<in> lvo_thing ` snd ` set ?out then {} else places (objects ?d) u))"
    using volumes_placed [OF g] things d
    by (intro dispose_volumes [OF bus]) (auto simp: distinct_map_filter)
  then have pl: "\<And>u. places (objects d) u = (if u \<in> lvo_thing ` snd ` set ?out then {} else places (objects ?d) u)"
    and off: "off_blocks ?d d" and nx: "next_thing d = next_thing ?d" by blast+
  then show "off_blocks ?d d" by simp
  have "lvo_thing ` snd ` set ?t \<subseteq> group_things g" by (rule table_things [OF wf])
  then show "aside vg (group_things g) ?d d" by (auto simp: aside_def pl nx)
  show look: "ht_lookup vs k = (if k \<in> ns then ht_lookup ?t k else None)" for k
    unfolding vs by (rule lookup_filter_keys [OF wf])
  show "ht_keys vs = ht_keys ?t \<inter> ns" by (auto simp: vs ht_keys_def)
  show "places (objects d) (lvo_thing v) = {}" if "ht_lookup ?t k = Some v" "k \<notin> ns" for k v
    using that by (force simp: pl ht_lookup_def dest: map_of_SomeD)
  have keep: "lvo_thing v \<notin> lvo_thing ` snd ` set ?out" if "ht_lookup ?t k = Some v" "k \<in> ns" for k v
  proof
    assume "lvo_thing v \<in> lvo_thing ` snd ` set ?out"
    then obtain k' v' where kv: "(k', v') \<in> set ?t" "k' \<notin> ns" "lvo_thing v' = lvo_thing v" by auto
    moreover have "(k, v) \<in> set ?t" using that by (simp add: ht_lookup_def map_of_SomeD)
    moreover have "inj_on (lvo_thing \<circ> snd) (set ?t)" using things by (simp add: distinct_map)
    ultimately have "(k, v) = (k', v')" by (intro inj_onD [of "lvo_thing \<circ> snd" "set ?t"]) simp_all
    with kv that show False by simp
  qed
  have "vgo_thing g \<notin> lvo_thing ` snd ` set ?out"
    using volumes_placed [OF g] g by (auto simp: placed_at_def group_ok_def)
  then show "group_ok d (g\<lparr>logical_volumes := vs\<rparr>)"
    using g keep wf look
    by (auto simp: group_ok_def volume_ok_def pl vs ht_wf_def distinct_map_filter split: if_splits)
qed

section \<open>The blocks of a group\<close>

lemma update_block_step:
  assumes "block_ok d b" and "bus_ok d" and "storage_volume_group_update_block g d b = Inr s"
  shows "block_step d b s"
proof -
  obtain d1 b1 where 1: "update_block_lv g d b = Inr (d1, b1)" and s: "s = update_block_pv g d1 b1"
    using assms(3) by (auto simp: storage_volume_group_update_block_def ebind_Inr)
  have st: "block_step d b (d1, b1)"
    using 1 storage_block_update_lv_step [OF assms(1,2)] block_step_refl [OF assms(1,2)]
    by (auto simp: update_block_lv_def split: if_splits option.splits) (metis+)
  then have ok1: "block_ok d1 b1" "bus_ok d1" by (auto simp: block_step_def)
  have "block_step d1 b1 s"
    unfolding s update_block_pv_def
    using storage_block_update_pv_step [OF ok1] block_step_refl [OF ok1] by (simp split: option.split)
  with st show ?thesis by (rule block_step_trans)
qed

interpretation vgb: block_operation "storage_volume_group_update_block g" for g
  by unfold_locales (rule update_block_step)

lemma places_block_step:
  assumes "block_ok d b" and "block_step d b (d1, b1)" and "\<not> block_type (thing_type t)"
  shows "places (objects d1) t = places (objects d) t"
proof (rule set_eqI)
  fix p
  have "t \<notin> block_things b" "t \<notin> block_things b1"
    using assms by (auto simp: block_ok_def block_types_ok_def block_things_def block_type_def block_step_def)
  then show "p \<in> places (objects d1) t \<longleftrightarrow> p \<in> places (objects d) t"
    using assms(1,2)
    by (cases "p = blk_path b") (auto simp: places_iff block_step_def block_ok_def only_at_def same_device_def)
qed

text \<open>Where the things of a group are exported.\<close>

definition group_places :: "volume_group \<Rightarrow> daemon \<Rightarrow> bool" where
  "group_places g d \<longleftrightarrow> group_ok d g \<and> bus_ok d"

lemma group_ok_places:
  assumes "group_ok d g" and "\<And>t. \<not> block_type (thing_type t) \<Longrightarrow> places (objects d') t = places (objects d) t"
  shows "group_ok d' g"
  using assms by (auto simp: group_ok_def volume_ok_def block_type_def)

lemma group_places_path:
  assumes "group_places g d"
  shows "path_of d (vgo_thing g) = Some (group_path (vgo_name g))"
    and "ht_lookup (logical_volumes g) k = Some v \<Longrightarrow> path_of d (lvo_thing v) = Some (volume_path (vgo_name g) k)"
  using assms by (auto simp: group_places_def bus_ok_def group_ok_def volume_ok_def intro!: path_of_places)

text \<open>
  What a block shows of a group: the volume it is, if udev says that it belongs to the group; and the
  group it is a physical volume of, with the sizes reported. A block that showed the group and is
  no longer one of its physical volumes stops being one.
\<close>

definition of_group :: "volume_group \<Rightarrow> block \<Rightarrow> bool" where
  "of_group g b \<longleftrightarrow> udev_property b ''DM_VG_NAME'' = Some (vgo_name g)"

definition volume_shown :: "volume_group \<Rightarrow> block \<Rightarrow> string option" where
  "volume_shown g b =
     (case udev_property b ''DM_LV_NAME'' of
        None \<Rightarrow> None
      | Some name \<Rightarrow>
          if ht_lookup (logical_volumes g) name = None then None
          else Some (volume_path (vgo_name g) name))"

definition shows_lv :: "volume_group \<Rightarrow> block \<Rightarrow> block \<Rightarrow> bool" where
  "shows_lv g b b' \<longleftrightarrow>
     (if of_group g b
      then Option.bind (iface_logical_volume b') lbi_logical_volume = volume_shown g b \<and>
           (iface_logical_volume b' = None \<longleftrightarrow> volume_shown g b = None)
      else iface_logical_volume b' = iface_logical_volume b)"

definition shows_pv :: "volume_group \<Rightarrow> block \<Rightarrow> block \<Rightarrow> bool" where
  "shows_pv g b b' \<longleftrightarrow>
     (case find_pv_info g b of
        Some info \<Rightarrow>
          (\<exists>pv. iface_physical_volume b' = Some pv \<and>
             pvi_volume_group pv = Some (group_path (vgo_name g)) \<and>
             (\<forall>n. lookup_t info ''size'' = Some n \<longrightarrow> pvi_size pv = n) \<and>
             (\<forall>n. lookup_t info ''free-size'' = Some n \<longrightarrow> pvi_free_size pv = n))
      | None \<Rightarrow>
          iface_physical_volume b' =
            (if Option.bind (iface_physical_volume b) pvi_volume_group = Some (group_path (vgo_name g))
             then None else iface_physical_volume b))"

lemma shown_empty:
  "logical_volumes g = [] \<Longrightarrow> volume_shown g b = None"
  "physical_volumes g = [] \<Longrightarrow> find_pv_info g b = None"
  by (auto simp: volume_shown_def find_pv_info_def ht_lookup_def split: option.split)

lemma update_block_lv_shows:
  assumes J: "group_places g d" and u: "update_block_lv g d b = Inr (d1, b1)"
  shows "shows_lv g b b1" and "iface_physical_volume b1 = iface_physical_volume b"
proof -
  have udev: "(blk_udev b \<noteq> None \<and> strcmp0_eq (udev_property b ''DM_VG_NAME'') (Some (vgo_name g))) = of_group g b"
    by (cases "blk_udev b") (auto simp: of_group_def udev_property_def strcmp0_eq_def)
  note lv_eq = update_block_lv_def [of g d b, unfolded udev]
  show "shows_lv g b b1"
  proof (cases "of_group g b")
    case False
    with u show ?thesis by (simp add: lv_eq shows_lv_def)
  next
    case True
    with u obtain name where n: "udev_property b ''DM_LV_NAME'' = Some name"
      and s: "(d1, b1) = storage_block_update_lv d b (map_option lvo_thing (ht_lookup (logical_volumes g) name))"
      by (auto simp: lv_eq split: option.splits)
    show ?thesis
      using s True n group_places_path(2) [OF J, of name]
      by (cases "ht_lookup (logical_volumes g) name"; cases "iface_logical_volume b")
        (auto simp: shows_lv_def volume_shown_def storage_block_update_lv_def drop_logical_volume_def
          Let_def new_thing_def)
  qed
  show "iface_physical_volume b1 = iface_physical_volume b"
    using u by (auto simp: update_block_lv_def storage_block_update_lv_def drop_logical_volume_def Let_def
        split: if_splits option.splits prod.splits)
qed

lemma update_block_pv_shows:
  assumes J: "group_places g d" and u: "update_block_pv g d b = (d1, b1)"
  shows "shows_pv g b b1" and "iface_logical_volume b1 = iface_logical_volume b"
proof -
  note path = group_places_path(1) [OF J]
  show "shows_pv g b b1"
  proof (cases "find_pv_info g b")
    case None
    with u path show ?thesis
      by (cases "iface_physical_volume b")
        (auto simp: update_block_pv_def shows_pv_def strcmp0_eq_def storage_block_update_pv_def
          drop_physical_volume_def split: if_splits)
  next
    case (Some info)
    with u path show ?thesis
      by (cases "iface_physical_volume b")
        (auto simp: update_block_pv_def shows_pv_def storage_block_update_pv_def Let_def new_thing_def
          storage_physical_volume_update_def path_of_def split: option.splits)
  qed
  show "iface_logical_volume b1 = iface_logical_volume b"
    using u by (auto simp: update_block_pv_def storage_block_update_pv_def drop_physical_volume_def Let_def
        split: if_splits option.splits prod.splits)
qed

definition shows_group :: "volume_group \<Rightarrow> block \<Rightarrow> block \<Rightarrow> bool" where
  "shows_group g b b' \<longleftrightarrow> same_device b b' \<and> shows_lv g b b' \<and> shows_pv g b b'"

lemma update_block_shows:
  assumes "block_ok d b" and "bus_ok d" and J: "group_places g d"
    and u: "storage_volume_group_update_block g d b = Inr (d', b')"
  shows "group_places g d' \<and> shows_group g b b'"
proof -
  obtain d1 b1 where 1: "update_block_lv g d b = Inr (d1, b1)" and 2: "update_block_pv g d1 b1 = (d', b')"
    using u by (auto simp: storage_volume_group_update_block_def ebind_Inr)
  have st: "block_step d b (d1, b1)"
    using 1 storage_block_update_lv_step [OF assms(1,2)] block_step_refl [OF assms(1,2)]
    by (auto simp: update_block_lv_def split: if_splits option.splits) (metis+)
  have J': "group_places g d'" if "block_step d b (d', b')" for d' b'
    using J that places_block_step [OF assms(1) that]
    by (auto simp: group_places_def block_step_def intro: group_ok_places)
  note lv = update_block_lv_shows [OF J 1] and pv = update_block_pv_shows [OF J' [OF st] 2]
  have "blk_device b1 = blk_device b" "blk_symlinks b1 = blk_symlinks b"
    using st by (simp_all add: block_step_def same_device_def)
  then have "find_pv_info g b1 = find_pv_info g b" by (simp add: find_pv_info_def cong: option.case_cong)
  moreover have "same_device b b'" using update_block_step [OF assms(1,2) u] by (simp add: block_step_def)
  ultimately have "shows_group g b b'"
    using lv pv by (cases "find_pv_info g b") (simp_all add: shows_group_def shows_lv_def shows_pv_def)
  with J' [OF update_block_step [OF assms(1,2) u]] show ?thesis by simp
qed

text \<open>Nothing that is done to the blocks takes back an instance.\<close>

lemma update_block_next:
  assumes "storage_volume_group_update_block g d b = Inr (d', b')"
  shows "next_thing d \<le> next_thing d'"
proof -
  have pub: "next_thing (publish_at (fst (new_thing d ty)) p (snd (new_thing d ty))) = Suc (next_thing d)"
    if "ty \<noteq> StorageBlock" for d :: daemon and ty p
    using that by (simp add: new_thing_def is_dbus_interface_def)
  have lv: "next_thing d \<le> next_thing (fst (storage_block_update_lv d b v))" for d b v
    using pub [of LvmLogicalVolumeBlockSkeleton d "blk_path b"]
    by (auto simp: storage_block_update_lv_def drop_logical_volume_def Let_def split_beta split: option.split)
  have pv: "next_thing d \<le> next_thing (fst (storage_block_update_pv d b v i))" for d b v i
    using pub [of StoragePhysicalVolume d "blk_path b"]
    by (auto simp: storage_block_update_pv_def drop_physical_volume_def Let_def split_beta split: option.split)
  obtain d1 b1 where 1: "update_block_lv g d b = Inr (d1, b1)" and 2: "update_block_pv g d1 b1 = (d', b')"
    using assms by (auto simp: storage_volume_group_update_block_def ebind_Inr)
  have "next_thing d \<le> next_thing d1"
    using 1 by (auto simp: update_block_lv_def split: if_splits option.splits) (metis fst_conv lv)+
  also have "next_thing d1 \<le> next_thing (fst (update_block_pv g d1 b1))"
    by (simp add: update_block_pv_def pv split: option.split)
  finally show ?thesis by (simp add: 2)
qed

lemma each_block_next:
  assumes "\<And>d b d' b'. f d b = Inr (d', b') \<Longrightarrow> next_thing d \<le> next_thing d'" and "each_block f d bs = Inr (d', bs')"
  shows "next_thing d \<le> next_thing d'"
  using assms(2)
proof (induction bs arbitrary: d d' bs')
  case (Cons kb bs)
  obtain k b where kb: "kb = (k, b)" by (cases kb)
  obtain d1 b1 bs2 where "f d b = Inr (d1, b1)" and "each_block f d1 bs = Inr (d', bs2)"
    using Cons.prems by (auto simp: kb ebind_Inr)
  with assms(1) Cons.IH show ?case by (blast intro: le_trans)
qed simp

lemma update_all_blocks_ok:
  assumes w: "world_ok w" and g: "group_ok (the_daemon w) g" and u: "update_all_blocks g w = Inr w'"
  shows "world_ok w'" and "group_ok (the_daemon w') g" and "the_calls w' = the_calls w"
    and "\<And>t. \<not> block_type (thing_type t) \<Longrightarrow> places (objects (the_daemon w')) t = places (objects (the_daemon w)) t"
    and "\<And>k b. ht_lookup (the_blocks w) k = Some b \<Longrightarrow> \<exists>b'. ht_lookup (the_blocks w') k = Some b' \<and> shows_group g b b'"
    and "map fst (the_blocks w') = map fst (the_blocks w)"
    and "aside name T (the_daemon w) (the_daemon w')"
proof -
  obtain d bs where e: "each_block (storage_volume_group_update_block g) (the_daemon w) (the_blocks w) = Inr (d, bs)"
    and w': "w' = w\<lparr>the_daemon := d, the_blocks := bs\<rparr>"
    using u by (auto simp: update_all_blocks_def ebind_Inr)
  have pre: "blocks_ok (the_daemon w) (the_blocks w)" "bus_ok (the_daemon w)" using w by (simp_all add: world_ok_def)
  note ok = vgb.each_block_ok [OF pre e]
  have "fst ` set bs = fst ` set (the_blocks w)" using ok by (metis list.set_map)
  then show "world_ok w'" using ok w by (simp add: world_ok_def only_blocks_def w')
  have "group_places g (the_daemon w)" using g pre by (simp add: group_places_def)
  then have "group_places g d \<and> (\<forall>k b. map_of (the_blocks w) k = Some b \<longrightarrow>
      (\<exists>b'. map_of bs k = Some b' \<and> shows_group g b b'))"
    by (rule vgb.each_block_rel [OF pre e]) (rule update_block_shows)
  then have rel: "group_places g d"
      "\<forall>k b. map_of (the_blocks w) k = Some b \<longrightarrow> (\<exists>b'. map_of bs k = Some b' \<and> shows_group g b b')"
    by blast+
  show "group_ok (the_daemon w') g" using rel(1) by (simp add: group_places_def w')
  show "\<exists>b'. ht_lookup (the_blocks w') k = Some b' \<and> shows_group g b b'" if "ht_lookup (the_blocks w) k = Some b" for k b
    using rel(2) that by (simp add: ht_lookup_def w')
  show pl: "places (objects (the_daemon w')) t = places (objects (the_daemon w)) t" if "\<not> block_type (thing_type t)" for t
    using places_blocks [OF pre(1) _ _ _ that, of d bs] ok by (simp add: w')
  have "next_thing (the_daemon w) \<le> next_thing (the_daemon w')"
    using each_block_next [OF _ e] update_block_next by (simp add: w')
  moreover have "\<not> block_type ty" if "lvm_type ty" for ty using that by (auto simp: lvm_type_def block_type_def)
  ultimately show "aside name T (the_daemon w) (the_daemon w')" by (simp add: aside_def pl)
  show "the_calls w' = the_calls w" "map fst (the_blocks w') = map fst (the_blocks w)" using ok by (simp_all add: w')
qed

section \<open>An update of a group\<close>

text \<open>A group that is new, or that has been published and updated before.\<close>

definition group_new :: "daemon \<Rightarrow> volume_group \<Rightarrow> bool" where
  "group_new d g \<longleftrightarrow>
     vgo_name g \<noteq> [] \<and> thing_type (vgo_thing g) = StorageVolumeGroup \<and> need_publish g \<and>
     places (objects d) (vgo_thing g) = {} \<and> thing_id (vgo_thing g) < next_thing d \<and> logical_volumes g = []"

lemma update_props_frame [simp]:
  "vgo_name (volume_group_update_props g i) = vgo_name g"
  "vgo_thing (volume_group_update_props g i) = vgo_thing g"
  "need_publish (volume_group_update_props g i) = need_publish g"
  "last_info (volume_group_update_props g i) = last_info g"
  "logical_volumes (volume_group_update_props g i) = logical_volumes g"
  "physical_volumes (volume_group_update_props g i) = physical_volumes g"
  "needs_polling (volume_group_update_props g i) = needs_polling g"
  by (simp_all add: volume_group_update_props_def Let_def split: option.split)

text \<open>The group and the world once the group is published.\<close>

definition published_group :: "world \<Rightarrow> volume_group \<Rightarrow> world \<times> volume_group" where
  "published_group w g =
     (if need_publish g
      then (w\<lparr>the_daemon := publish_at (the_daemon w) (group_path (vgo_name g)) (vgo_thing g)\<rparr>,
            g\<lparr>need_publish := False\<rparr>)
      else (w, g))"

lemma published_group_ok:
  assumes "world_ok w" and "group_ok (the_daemon w) g \<or> group_new (the_daemon w) g"
    and "published_group w g = (w', g')"
  shows "world_ok w' \<and> group_ok (the_daemon w') g' \<and> logical_volumes g' = logical_volumes g \<and>
    vgo_name g' = vgo_name g \<and> the_blocks w' = the_blocks w \<and>
    (\<forall>t. thing_type t = StorageLogicalVolume \<longrightarrow>
       places (objects (the_daemon w')) t = places (objects (the_daemon w)) t)"
  using assms(2)
proof
  assume g: "group_ok (the_daemon w) g"
  with assms show ?thesis by (auto simp: published_group_def group_ok_def)
next
  assume g: "group_new (the_daemon w) g"
  let ?d = "publish_at (the_daemon w) (group_path (vgo_name g)) (vgo_thing g)"
  have eq: "w' = w\<lparr>the_daemon := ?d\<rparr>" "g' = g\<lparr>need_publish := False\<rparr>"
    using assms(3) g by (auto simp: published_group_def group_new_def)
  have t: "is_dbus_interface (vgo_thing g)" using g by (simp add: group_new_def is_dbus_interface_def)
  have "off_blocks (the_daemon w) ?d"
    using assms(1) g by (intro off_blocks_publish t) (simp_all add: world_ok_def group_new_def)
  from world_ok_off_blocks [OF assms(1) this] have "world_ok w'" by (simp add: eq)
  moreover have "group_ok (the_daemon w') g'"
    using g by (simp add: eq group_ok_def group_new_def group_places_publish [OF t] ht_wf_def ht_lookup_def)
  moreover have "places (objects ?d) u = places (objects (the_daemon w)) u"
    if "thing_type u = StorageLogicalVolume" for u
    using that g by (auto simp: group_places_publish [OF t] group_new_def)
  ultimately show ?thesis by (simp add: eq)
qed

lemma published_group_aside:
  assumes "thing_type (vgo_thing g) = StorageVolumeGroup" and "published_group w g = (w', g')"
  shows "aside (vgo_name g) {vgo_thing g} (the_daemon w) (the_daemon w')"
  using assms aside_publish [of "vgo_thing g" "group_path (vgo_name g)" "vgo_name g" "the_daemon w"]
  by (auto simp: published_group_def is_dbus_interface_def own_paths_def aside_same split: if_splits)

lemma update_with_variant_eq:
  "update_with_variant os now (Inr info) w g =
     (let (w, g) = published_group w (volume_group_update_props g info) in
      if last_info g = Some info then Inr (w, g, False)
      else
        ebind (update_volumes os now (dicts_of info ''lvs'') (w, g\<lparr>last_info := Some info\<rparr>, False, []))
          (\<lambda>(w, g, polling, names).
           let (d, vs) = drop_stale_volumes (set names) (the_daemon w) (logical_volumes g);
               g = g\<lparr>logical_volumes := vs, needs_polling := polling,
                     physical_volumes := read_physical_volumes (dicts_of info ''pvs'')\<rparr>
           in ebind (update_all_blocks g (w\<lparr>the_daemon := d\<rparr>)) (\<lambda>w. Inr (w, g, True))))"
  by (simp add: update_with_variant_def published_group_def Let_def)

text \<open>What a report that differs from the last one leads to.\<close>

lemma group_update_run:
  assumes w: "world_ok w" and g: "group_ok (the_daemon w) g \<or> group_new (the_daemon w) g"
    and inj: "inj_on escape (ht_keys (logical_volumes g) \<union> set (visible_names (dicts_of info ''lvs'')))"
    and u: "update_with_variant os now (Inr info) w g = Inr (w', g', True)"
  shows "world_ok w'" and "group_ok (the_daemon w') g'" and "vgo_name g' = vgo_name g"
    and "ht_keys (logical_volumes g') = set (visible_names (dicts_of info ''lvs''))"
    and "needs_polling g' \<longleftrightarrow> (\<exists>i \<in> set (dicts_of info ''lvs''). wants_polling i)"
    and "physical_volumes g' = read_physical_volumes (dicts_of info ''pvs'')"
    and "last_info g' = Some info"
    and "\<And>k v. ht_lookup (logical_volumes g) k = Some v \<Longrightarrow>
           (case ht_lookup (logical_volumes g') k of
              Some v' \<Rightarrow> lvo_thing v' = lvo_thing v
            | None \<Rightarrow> places (objects (the_daemon w')) (lvo_thing v) = {})"
    and "\<And>k b. ht_lookup (the_blocks w) k = Some b \<Longrightarrow>
           \<exists>b'. ht_lookup (the_blocks w') k = Some b' \<and> shows_group g' b b'"
    and "map fst (the_blocks w') = map fst (the_blocks w)"
    and "vgo_thing g' = vgo_thing g"
    and "group_moves (the_daemon w) (the_daemon w') g g'"
proof -
  let ?lvs = "dicts_of info ''lvs''"
  let ?N = "ht_keys (logical_volumes g) \<union> set (visible_names ?lvs)"
  obtain w1 g1 where 1: "published_group w (volume_group_update_props g info) = (w1, g1)" by fastforce
  have g0: "group_ok (the_daemon w) (volume_group_update_props g info) \<or>
      group_new (the_daemon w) (volume_group_update_props g info)"
    using g by (simp add: group_ok_def group_new_def volume_ok_def)
  note pub = published_group_ok [OF w g0 1]
  let ?g1 = "g1\<lparr>last_info := Some info\<rparr>"
  obtain w2 g2 pol names where 2: "update_volumes os now ?lvs (w1, ?g1, False, []) = Inr (w2, g2, pol, names)"
    and rest: "(let (d, vs) = drop_stale_volumes (set names) (the_daemon w2) (logical_volumes g2);
               g = g2\<lparr>logical_volumes := vs, needs_polling := pol,
                     physical_volumes := read_physical_volumes (dicts_of info ''pvs'')\<rparr>
           in ebind (update_all_blocks g (w2\<lparr>the_daemon := d\<rparr>)) (\<lambda>w. Inr (w, g, True))) = Inr (w', g', True)"
    using u unfolding update_with_variant_eq 1 Let_def prod.case
    by (auto simp: ebind_Inr split: if_splits)
  have ok1: "update_ok ?N (w1, ?g1, False, [])"
    using pub by (auto simp: update_ok_def)
  have st: "update_ok ?N (w2, g2, pol, names)" "steps_to ?lvs (w1, ?g1, False, []) (w2, g2, pol, names)"
    using update_volumes_steps [OF ok1 2 inj] by auto
  obtain d vs where 3: "drop_stale_volumes (set names) (the_daemon w2) (logical_volumes g2) = (d, vs)" by fastforce
  let ?g3 = "g2\<lparr>logical_volumes := vs, needs_polling := pol,
                     physical_volumes := read_physical_volumes (dicts_of info ''pvs'')\<rparr>"
  have 4: "update_all_blocks ?g3 (w2\<lparr>the_daemon := d\<rparr>) = Inr w'" and g': "g' = ?g3"
    using rest by (auto simp: 3 Let_def ebind_Inr)
  note dr = drop_stale_volumes_ok [OF st(1) inj 3]
  have names: "set names = set (visible_names ?lvs)" using st(2) by simp
  have w3: "world_ok (w2\<lparr>the_daemon := d\<rparr>)"
    using world_ok_off_blocks [OF _ dr(1)] st(1) by (simp add: update_ok_def)
  have g3: "group_ok (the_daemon (w2\<lparr>the_daemon := d\<rparr>)) ?g3"
    using dr(2) by simp
  note bl = update_all_blocks_ok [OF w3 g3 4]
  have sg: "same_group ?g1 g2" using st(2) by simp
  have g2: "vgo_name g2 = vgo_name g" "last_info g2 = Some info"
    using sg pub by (auto simp: same_group_def)
  show "world_ok w'" "group_ok (the_daemon w') g'" using bl(1,2) by (simp_all add: g')
  show "vgo_name g' = vgo_name g" "last_info g' = Some info"
    "physical_volumes g' = read_physical_volumes (dicts_of info ''pvs'')" by (simp_all add: g' g2)
  show "ht_keys (logical_volumes g') = set (visible_names ?lvs)"
    using st(2) dr(3) names by (auto simp: g')
  show "needs_polling g' \<longleftrightarrow> (\<exists>i \<in> set ?lvs. wants_polling i)" using st(2) by (simp add: g')
  show "\<exists>b'. ht_lookup (the_blocks w') k = Some b' \<and> shows_group g' b b'"
    if "ht_lookup (the_blocks w) k = Some b" for k b
    using bl(5) that st(2) pub by (simp add: g')
  show "map fst (the_blocks w') = map fst (the_blocks w)" using bl(6) st(2) pub by simp
  show "vgo_thing g' = vgo_thing g" using sg 1 by (auto simp: g' same_group_def published_group_def split: if_splits)
  show "group_moves (the_daemon w) (the_daemon w') g g'"
  proof -
    let ?T = "group_things g2" and ?n = "vgo_name g" and ?d = "the_daemon w" and ?d1 = "the_daemon w1"
    have g1: "vgo_thing g1 = vgo_thing g" "vgo_name g1 = vgo_name g" "logical_volumes g1 = logical_volumes g"
      using 1 pub by (auto simp: published_group_def split: if_splits)
    then have things: "group_things ?g1 = group_things g" by (simp add: group_things_def)
    then have sub: "group_things g \<subseteq> ?T" using same_group_things [OF sg] by simp
    then have "vgo_thing g \<in> ?T" by (auto simp: group_things_def)
    moreover have "thing_type (vgo_thing g) = StorageVolumeGroup" using g by (auto simp: group_ok_def group_new_def)
    ultimately have a1: "aside ?n ?T ?d ?d1"
      using published_group_aside [OF _ 1] by (auto intro: aside_mono)
    have a2: "aside ?n ?T ?d1 (the_daemon w2)" and new: "\<forall>t \<in> ?T. t \<in> group_things g \<or> next_thing ?d1 \<le> thing_id t"
      using st(2) g1 things by simp_all
    have a4: "aside ?n ?T d (the_daemon w')" using bl(7) by simp
    have "ht_lookup (logical_volumes g') k = Some v \<Longrightarrow> ht_lookup (logical_volumes g2) k = Some v" for k v
      by (simp add: g' dr(5) split: if_splits)
    then have "group_things g' \<subseteq> ?T" by (fastforce simp: group_things_def g')
    moreover have "places (objects (the_daemon w')) t = {}" if t: "t \<in> ?T" "t \<notin> group_things g'" for t
    proof -
      obtain k v where kv: "ht_lookup (logical_volumes g2) k = Some v" "t = lvo_thing v" "k \<notin> set names"
      proof -
        have "t \<noteq> vgo_thing g2" using t(2) by (simp add: group_things_def g')
        with t(1) obtain k v where kv: "ht_lookup (logical_volumes g2) k = Some v" "t = lvo_thing v"
          by (auto simp: group_things_def)
        have "k \<notin> set names"
        proof
          assume "k \<in> set names"
          then have "map_option lvo_thing (ht_lookup (logical_volumes g') k) = Some t" by (simp add: g' dr(5) kv)
          with t(2) show False by (auto simp: group_things_def)
        qed
        with kv show thesis by (rule that)
      qed
      then have "volume_ok (the_daemon w2) g2 k v" using st(1) by (simp add: update_ok_def group_ok_def)
      then have "places (objects (the_daemon w')) t = places (objects d) t"
        using bl(4) by (simp add: kv(2) volume_ok_def block_type_def)
      with dr(4) kv show ?thesis by simp
    qed
    moreover have "\<forall>t \<in> ?T. t \<in> group_things g \<or> next_thing ?d \<le> thing_id t"
      using new a1 by (auto simp: aside_def)
    ultimately show ?thesis
      using sub aside_trans [OF aside_trans [OF aside_trans [OF a1 a2] dr(6)] a4]
      by (auto simp: group_moves_def)
  qed
  show "case ht_lookup (logical_volumes g') k of
          Some v' \<Rightarrow> lvo_thing v' = lvo_thing v
        | None \<Rightarrow> places (objects (the_daemon w')) (lvo_thing v) = {}"
    if v: "ht_lookup (logical_volumes g) k = Some v" for k v
  proof -
    obtain v2 where v2: "ht_lookup (logical_volumes g2) k = Some v2" "lvo_thing v2 = lvo_thing v"
      using sg v pub by (fastforce simp: same_group_def)
    show ?thesis
    proof (cases "k \<in> set names")
      case True
      then show ?thesis using v2 by (simp add: g' dr(5))
    next
      case False
      have "volume_ok (the_daemon w2) g2 k v2"
        using st(1) v2(1) by (simp add: update_ok_def group_ok_def)
      then have "thing_type (lvo_thing v) = StorageLogicalVolume"
        using v2(2) by (simp add: volume_ok_def)
      then have "places (objects (the_daemon w')) (lvo_thing v) = places (objects d) (lvo_thing v)"
        using bl(4) by (simp add: block_type_def)
      then show ?thesis using False dr(4) [OF v2(1) False] v2(2) by (simp add: g' dr(5))
    qed
  qed
qed

section \<open>Disposal\<close>

lemma group_dispose_run:
  assumes w: "world_ok w" and g: "group_ok (the_daemon w) g"
    and inj: "inj_on escape (ht_keys (logical_volumes g))"
    and u: "storage_volume_group_dispose w g = Inr (w', g')"
  shows "world_ok w'"
    and "places (objects (the_daemon w')) (vgo_thing g) = {}"
    and "\<And>k v. ht_lookup (logical_volumes g) k = Some v \<Longrightarrow> places (objects (the_daemon w')) (lvo_thing v) = {}"
    and "\<And>k b. ht_lookup (the_blocks w) k = Some b \<Longrightarrow>
           \<exists>b'. ht_lookup (the_blocks w') k = Some b' \<and>
             shows_group (g\<lparr>logical_volumes := [], physical_volumes := []\<rparr>) b b'"
    and "map fst (the_blocks w') = map fst (the_blocks w)"
    and "group_moves (the_daemon w) (the_daemon w') g g'"
    and "g' = g\<lparr>need_publish := False, logical_volumes := [], physical_volumes := [], last_info := None\<rparr>"
proof -
  let ?d = "fold (\<lambda>kv d. fst (storage_logical_volume_dispose d (snd kv))) (logical_volumes g) (the_daemon w)"
  let ?g = "g\<lparr>need_publish := False, logical_volumes := [], physical_volumes := [], last_info := None\<rparr>"
  have bus: "bus_ok (the_daemon w)" using w by (simp add: world_ok_def)
  have f: "(\<lambda>(k::string, v) d. fst (storage_logical_volume_dispose d v)) =
      (\<lambda>kv d. fst (storage_logical_volume_dispose d (snd kv)))" by (auto simp: fun_eq_iff)
  obtain w1 where 1: "update_all_blocks ?g (w\<lparr>the_daemon := ?d\<rparr>) = Inr w1"
    and 2: "(case path_of (the_daemon w1) (vgo_thing ?g) of
               None \<Rightarrow> (w1, ?g)
             | Some path \<Rightarrow> (w1\<lparr>the_daemon := unpublish_at (the_daemon w1) path (vgo_thing ?g)\<rparr>, ?g)) = (w', g')"
    using u unfolding storage_volume_group_dispose_def f Let_def ebind_Inr sum.inject by force
  have d: "off_blocks (the_daemon w) ?d \<and> next_thing ?d = next_thing (the_daemon w) \<and> (\<forall>u. places (objects ?d) u =
      (if u \<in> lvo_thing ` snd ` set (logical_volumes g) then {} else places (objects (the_daemon w)) u))"
    by (rule dispose_volumes [OF bus volumes_placed [OF g] volume_things_distinct [OF g inj] refl])
  have "vgo_thing g \<notin> lvo_thing ` snd ` set (logical_volumes g)"
    using volumes_placed [OF g] g by (auto simp: placed_at_def group_ok_def)
  then have g1: "group_ok ?d ?g" using g d by (simp add: group_ok_def ht_wf_def ht_lookup_def)
  have w0: "world_ok (w\<lparr>the_daemon := ?d\<rparr>)" using world_ok_off_blocks [OF w] d by blast
  have g1': "group_ok (the_daemon (w\<lparr>the_daemon := ?d\<rparr>)) ?g" using g1 by simp
  note bl = update_all_blocks_ok [OF w0 g1' 1]
  have g2: "group_ok (the_daemon w1) ?g" and w1: "world_ok w1" by (rule bl)+
  have path: "path_of (the_daemon w1) (vgo_thing g) = Some (group_path (vgo_name g))"
    using g2 w1 by (intro path_of_places) (auto simp: group_ok_def world_ok_def bus_ok_def)
  have t: "is_dbus_interface (vgo_thing g)" using g by (simp add: group_ok_def is_dbus_interface_def)
  have w': "w' = w1\<lparr>the_daemon := unpublish_at (the_daemon w1) (group_path (vgo_name g)) (vgo_thing g)\<rparr>"
    using 2 path by simp
  have "off_blocks (the_daemon w1) (unpublish_at (the_daemon w1) (group_path (vgo_name g)) (vgo_thing g))"
    using w1 by (intro off_blocks_unpublish t) (simp_all add: world_ok_def)
  from world_ok_off_blocks [OF w1 this] show "world_ok w'" by (simp add: w')
  show gone1: "places (objects (the_daemon w')) (vgo_thing g) = {}"
    using g2 by (simp add: w' places_unpublish [OF t] group_ok_def)
  show gone: "places (objects (the_daemon w')) (lvo_thing v) = {}" if v: "ht_lookup (logical_volumes g) k = Some v" for k v
  proof -
    have "volume_ok (the_daemon w) g k v" using g v by (simp add: group_ok_def)
    then have ty: "thing_type (lvo_thing v) = StorageLogicalVolume" by (simp add: volume_ok_def)
    then have "lvo_thing v \<noteq> vgo_thing g" using g by (auto simp: group_ok_def)
    moreover
    have "lvo_thing v \<in> lvo_thing ` snd ` set (logical_volumes g)"
      using v by (force simp: ht_lookup_def dest: map_of_SomeD)
    then have "places (objects ?d) (lvo_thing v) = {}" using d by simp
    ultimately show ?thesis using bl(4) [of "lvo_thing v"] ty by (simp add: w' places_unpublish [OF t] block_type_def)
  qed
  show "\<exists>b'. ht_lookup (the_blocks w') k = Some b' \<and>
      shows_group (g\<lparr>logical_volumes := [], physical_volumes := []\<rparr>) b b'"
    if "ht_lookup (the_blocks w) k = Some b" for k b
  proof -
    have "shows_group ?g b b' \<longleftrightarrow> shows_group (g\<lparr>logical_volumes := [], physical_volumes := []\<rparr>) b b'" for b'
      by (simp add: shows_group_def shows_lv_def shows_pv_def of_group_def shown_empty)
    then show ?thesis using bl(5) [of k b] that by (simp add: w')
  qed
  show "map fst (the_blocks w') = map fst (the_blocks w)" using bl(6) by (simp add: w')
  show g': "g' = ?g" using 2 by (auto split: option.splits)
  show "group_moves (the_daemon w) (the_daemon w') g g'"
  proof -
    let ?T = "group_things g"
    have "lvo_thing ` snd ` set (logical_volumes g) \<subseteq> ?T" using g by (intro table_things) (simp add: group_ok_def)
    then have "aside (vgo_name g) ?T (the_daemon w) ?d" using d by (auto simp: aside_def)
    moreover have "aside (vgo_name g) ?T ?d (the_daemon w1)" using bl(7) by simp
    moreover have "vgo_thing g \<in> ?T" by (simp add: group_things_def)
    then have "aside (vgo_name g) ?T (the_daemon w1) (the_daemon w')"
      by (auto simp: w' aside_def places_unpublish [OF t])
    ultimately have "aside (vgo_name g) ?T (the_daemon w) (the_daemon w')" by (blast intro: aside_trans)
    moreover have "places (objects (the_daemon w')) u = {}" if "u \<in> ?T" for u
      using that gone gone1 by (auto simp: group_things_def)
    ultimately show ?thesis by (auto simp: group_moves_def g' group_things_def ht_lookup_def)
  qed
qed

section \<open>When an update ends the daemon\<close>

text \<open>A job whose estimate is not switched on; the daemon switches it on for none.\<close>

fun quiet :: "any_job \<Rightarrow> bool" where
  "quiet (SpawnedJob j) \<longleftrightarrow> \<not> handler_connected j"
| "quiet (ThreadedJob j) \<longleftrightarrow> \<not> handler_connected j"

definition jobs_quiet :: "daemon \<Rightarrow> bool" where
  "jobs_quiet d \<longleftrightarrow> (\<forall>tj \<in> set (jobs d). quiet (snd tj))"

lemma report_progress_quiet: "quiet j \<Longrightarrow> \<exists>j'. report_progress now p j = Inr j' \<and> quiet j'"
  by (cases j) (auto simp: set_progress_def Let_def)

lemma report_objects_quiet: "quiet j \<Longrightarrow> \<exists>j'. report_objects now bs dev p paths j = Inr j' \<and> quiet j'"
proof (induction paths arbitrary: j)
  case (Cons path paths)
  obtain j' where "report_progress now p j = Inr j'" "quiet j'" using report_progress_quiet [OF Cons.prems] by blast
  with Cons.IH [of j'] Cons.IH [OF Cons.prems] show ?case by (auto split: option.split)
qed simp

lemma report_jobs_quiet:
  "jobs_quiet d \<Longrightarrow> \<exists>d'. report_jobs now bs op dev p ts d = Inr d' \<and> jobs_quiet d'"
proof (induction ts arbitrary: d)
  case (Cons t ts)
  show ?case
  proof (cases "find_job d t")
    case None
    with Cons show ?thesis by simp
  next
    case (Some j)
    then have q: "quiet j" using Cons.prems by (force simp: jobs_quiet_def find_job_def dest: map_of_SomeD)
    obtain j' where j': "report_objects now bs dev p (snd (job_about j)) j = Inr j'" "quiet j'"
      using report_objects_quiet [OF q] by blast
    have "jobs_quiet (d\<lparr>jobs := set_job t j' (jobs d)\<rparr>)"
      using Cons.prems j'(2) by (auto simp: jobs_quiet_def set_job_def)
    then show ?thesis using Cons.IH [of "d\<lparr>jobs := set_job t j' (jobs d)\<rparr>"] Cons.IH [OF Cons.prems] Some j'(1) by auto
  qed
qed simp

lemma update_operations_quiet:
  assumes "jobs_quiet (the_daemon w)"
  shows "\<exists>w' b. update_operations now name i w polling = Inr (w', b) \<and> jobs_quiet (the_daemon w') \<and> the_blocks w' = the_blocks w"
proof -
  have r: "\<exists>w'. update_progress_for_device now op dev p w = Inr w' \<and> jobs_quiet (the_daemon w') \<and> the_blocks w' = the_blocks w"
    for op dev p
    using report_jobs_quiet [OF assms, of now "the_blocks w" op dev p "get_jobs (the_daemon w)"]
    by (auto simp: update_progress_for_device_def)
  show ?thesis
  proof (cases "lv_is_pvmove_volume name")
    case False
    with assms show ?thesis by (simp add: update_operations_def)
  next
    case True
    show ?thesis
    proof (cases "lookup_s i ''move_pv'' = None \<or> lookup_t i ''copy_percent'' = None")
      case True
      with assms show ?thesis by (auto simp: update_operations_def split: option.split)
    next
      case False
      then obtain pv n where "lookup_s i ''move_pv'' = Some pv" "lookup_t i ''copy_percent'' = Some n" by auto
      then show ?thesis
        using True r [of "''lvm-vg-empty-device''" pv "lvm_ratio n"] by (auto simp: update_operations_def)
    qed
  qed
qed

text \<open>The two causes: a volume reported without a name, a block of the group without a volume's name.\<close>

definition named :: "vardict \<Rightarrow> bool" where
  "named i \<longleftrightarrow> lookup_s i ''name'' \<noteq> None"

definition lv_named :: "volume_group \<Rightarrow> block \<Rightarrow> bool" where
  "lv_named g b \<longleftrightarrow> (of_group g b \<longrightarrow> udev_property b ''DM_LV_NAME'' \<noteq> None)"

lemma update_volume_quiet:
  assumes "jobs_quiet (the_daemon w)"
  shows "case update_volume os now i (w, g, polling, names) of
      Inl x \<Rightarrow> x = UninitialisedRead ''name'' \<and> \<not> named i
    | Inr (w', g', polling', names') \<Rightarrow>
        named i \<and> jobs_quiet (the_daemon w') \<and> the_blocks w' = the_blocks w \<and> vgo_name g' = vgo_name g"
proof (cases "lookup_s i ''name''")
  case None
  then show ?thesis by (simp add: update_volume_def named_def)
next
  case (Some name)
  obtain w1 p1 where o: "update_operations now name i w polling = Inr (w1, p1)" "jobs_quiet (the_daemon w1)"
      "the_blocks w1 = the_blocks w"
    using update_operations_quiet [OF assms] by blast
  have q [simp]: "jobs_quiet (publish d p u t) = jobs_quiet d" "jobs_quiet (d\<lparr>next_thing := n\<rparr>) = jobs_quiet d"
    for d :: daemon and p u t n
    by (simp_all add: jobs_quiet_def publish_def Let_def split: option.split)
  show ?thesis
    using Some o
    by (cases "lv_is_visible name"; cases "ht_lookup (logical_volumes g) name")
      (simp_all add: update_volume_def Let_def named_def update_eq new_thing_def)
qed

lemma update_volumes_quiet:
  assumes "jobs_quiet (the_daemon w)"
  shows "case update_volumes os now is (w, g, polling, names) of
      Inl x \<Rightarrow> x = UninitialisedRead ''name'' \<and> (\<exists>i \<in> set is. \<not> named i)
    | Inr (w', g', polling', names') \<Rightarrow>
        (\<forall>i \<in> set is. named i) \<and> the_blocks w' = the_blocks w \<and> vgo_name g' = vgo_name g"
  using assms
proof (induction "is" arbitrary: w g polling names)
  case (Cons i "is")
  have 0: "case update_volume os now i (w, g, polling, names) of
      Inl x \<Rightarrow> x = UninitialisedRead ''name'' \<and> \<not> named i
    | Inr (w', g', polling', names') \<Rightarrow>
        named i \<and> jobs_quiet (the_daemon w') \<and> the_blocks w' = the_blocks w \<and> vgo_name g' = vgo_name g"
    by (rule update_volume_quiet [OF Cons.prems])
  show ?case
  proof (cases "update_volume os now i (w, g, polling, names)")
    case (Inl x)
    with 0 show ?thesis by simp
  next
    case (Inr s)
    obtain w' g' polling' names' where s: "s = (w', g', polling', names')" by (cases s)
    have 1: "named i" "jobs_quiet (the_daemon w')" "the_blocks w' = the_blocks w" "vgo_name g' = vgo_name g"
      using 0 Inr s by simp_all
    have "case update_volumes os now is (w', g', polling', names') of
      Inl x \<Rightarrow> x = UninitialisedRead ''name'' \<and> (\<exists>i \<in> set is. \<not> named i)
    | Inr (w'', g'', polling'', names'') \<Rightarrow>
        (\<forall>i \<in> set is. named i) \<and> the_blocks w'' = the_blocks w' \<and> vgo_name g'' = vgo_name g'"
      by (rule Cons.IH [OF 1(2)])
    with 1 Inr s show ?thesis by (auto split: sum.splits)
  qed
qed simp

lemma update_block_aborts:
  "storage_volume_group_update_block g d b = Inl x \<longleftrightarrow> x = NullDereference ''block_lv_name'' \<and> \<not> lv_named g b"
proof -
  have "(blk_udev b \<noteq> None \<and> strcmp0_eq (udev_property b ''DM_VG_NAME'') (Some (vgo_name g))) = of_group g b"
    by (cases "blk_udev b") (auto simp: of_group_def udev_property_def strcmp0_eq_def)
  then show ?thesis
    by (auto simp: storage_volume_group_update_block_def update_block_lv_def lv_named_def ebind_def
        split: option.splits prod.splits)
qed

lemma each_block_aborts:
  "case each_block (storage_volume_group_update_block g) d bs of
     Inl x \<Rightarrow> x = NullDereference ''block_lv_name'' \<and> (\<exists>b \<in> snd ` set bs. \<not> lv_named g b)
   | Inr _ \<Rightarrow> \<forall>b \<in> snd ` set bs. lv_named g b"
proof (induction bs arbitrary: d)
  case (Cons kb bs)
  obtain k b where kb: "kb = (k, b)" by (cases kb)
  show ?case
  proof (cases "storage_volume_group_update_block g d b")
    case (Inl x)
    then show ?thesis using update_block_aborts [of g d b x] by (simp add: kb)
  next
    case (Inr s)
    then have "lv_named g b" using update_block_aborts [of g d b] by auto
    with Cons.IH [of "fst s"] Inr show ?thesis
      by (cases s) (auto simp: kb ebind_def split: sum.splits)
  qed
qed simp

lemma group_update_verdict:
  assumes "jobs_quiet (the_daemon w)" and "last_info g \<noteq> Some info"
  shows "case update_with_variant os now (Inr info) w g of
      Inl x \<Rightarrow>
        x = UninitialisedRead ''name'' \<and> (\<exists>i \<in> set (dicts_of info ''lvs''). \<not> named i) \<or>
        x = NullDereference ''block_lv_name'' \<and> (\<exists>b \<in> snd ` set (the_blocks w). \<not> lv_named g b)
    | Inr (w', g', called) \<Rightarrow>
        called \<and> (\<forall>i \<in> set (dicts_of info ''lvs''). named i) \<and> (\<forall>b \<in> snd ` set (the_blocks w). lv_named g b)"
proof -
  obtain w1 g1 where 1: "published_group w (volume_group_update_props g info) = (w1, g1)" by fastforce
  have f: "jobs_quiet (the_daemon w1)" "the_blocks w1 = the_blocks w" "vgo_name g1 = vgo_name g" "last_info g1 = last_info g"
    using 1 assms(1) by (auto simp: published_group_def jobs_quiet_def publish_def Let_def split: if_splits)
  have ln: "lv_named g' b \<longleftrightarrow> lv_named g b" if "vgo_name g' = vgo_name g" for g' b
    using that by (simp add: lv_named_def of_group_def)
  have v: "case update_volumes os now (dicts_of info ''lvs'') (w1, g1\<lparr>last_info := Some info\<rparr>, False, []) of
      Inl x \<Rightarrow> x = UninitialisedRead ''name'' \<and> (\<exists>i \<in> set (dicts_of info ''lvs''). \<not> named i)
    | Inr (w', g', polling', names') \<Rightarrow>
        (\<forall>i \<in> set (dicts_of info ''lvs''). named i) \<and> the_blocks w' = the_blocks w1 \<and>
        vgo_name g' = vgo_name (g1\<lparr>last_info := Some info\<rparr>)"
    by (rule update_volumes_quiet [OF f(1)])
  show ?thesis
  proof (cases "update_volumes os now (dicts_of info ''lvs'') (w1, g1\<lparr>last_info := Some info\<rparr>, False, [])")
    case (Inl x)
    with v show ?thesis using assms(2) f by (simp add: update_with_variant_eq 1)
  next
    case (Inr s)
    obtain w2 g2 pol names where s: "s = (w2, g2, pol, names)" by (cases s)
    obtain d vs where 3: "drop_stale_volumes (set names) (the_daemon w2) (logical_volumes g2) = (d, vs)" by fastforce
    let ?g3 = "g2\<lparr>logical_volumes := vs, needs_polling := pol,
                     physical_volumes := read_physical_volumes (dicts_of info ''pvs'')\<rparr>"
    have 2: "\<forall>i \<in> set (dicts_of info ''lvs''). named i" "the_blocks w2 = the_blocks w" "vgo_name g2 = vgo_name g"
      using v f by (simp_all add: Inr s)
    have "update_with_variant os now (Inr info) w g =
        ebind (update_all_blocks ?g3 (w2\<lparr>the_daemon := d\<rparr>)) (\<lambda>w. Inr (w, ?g3, True))"
      using assms(2) f(4) by (simp add: update_with_variant_eq 1 Inr s 3 Let_def)
    moreover have "lv_named ?g3 b \<longleftrightarrow> lv_named g b" for b using 2(3) by (intro ln) simp
    ultimately show ?thesis
      using each_block_aborts [where g = ?g3 and d = d and bs = "the_blocks w"] 2(1,2)
      by (auto simp: update_all_blocks_def split: sum.splits)
  qed
qed

text \<open>A world with one block device, and a report of a group with two volumes on it.\<close>

definition demo_block :: block where
  "demo_block = \<lparr>blk_path = ''/org/freedesktop/UDisks2/block_devices/sda1'', blk_device = ''/dev/sda1'',
     blk_symlinks = [], blk_udev = None, iface_physical_volume = None, iface_logical_volume = None\<rparr>"

definition demo_world :: world where
  "demo_world = \<lparr>the_daemon = (storage_daemon_init True None)\<lparr>next_thing := 1\<rparr>,
     the_blocks = [(blk_path demo_block, demo_block)], the_calls = []\<rparr>"

definition demo_group :: volume_group where
  "demo_group = storage_volume_group_new (Thing 0 StorageVolumeGroup) ''vg0''"

definition demo_report :: vardict where
  "demo_report = [(''size'', VUint64 8192),
     (''lvs'', VDictArray [[(''name'', VString ''root''), (''lv_attr'', VString ''-wi-a-t---'')],
                          [(''name'', VString ''pvmove0'')]]),
     (''pvs'', VDictArray [[(''device'', VString ''/dev/sda1''), (''size'', VUint64 4096)]])]"

lemma demo_world_ok: "world_ok demo_world" and demo_group_new: "group_new (the_daemon demo_world) demo_group"
  by (auto simp: world_ok_def demo_world_def demo_block_def demo_group_def bus_ok_def storage_daemon_init_def
      ht_wf_def blocks_ok_def block_ok_def block_types_ok_def block_things_def interfaces_at_def ht_lookup_def
      block_path_def group_new_def storage_volume_group_new_def places_def)

lemma demo_lvs:
  "dicts_of demo_report ''lvs'' =
     [[(''name'', VString ''root''), (''lv_attr'', VString ''-wi-a-t---'')], [(''name'', VString ''pvmove0'')]]"
  by (simp add: demo_report_def dicts_of_def lookup_defs)

lemma demo_names: "visible_names (dicts_of demo_report ''lvs'') = [''root'']"
  by (simp add: demo_lvs visible_name_def lookup_defs lv_is_visible_def lvm_name_is_reserved_def)

lemma demo_inj: "inj_on escape (ht_keys (logical_volumes demo_group) \<union> set (visible_names (dicts_of demo_report ''lvs'')))"
  by (simp add: demo_names demo_group_def storage_volume_group_new_def ht_keys_def)

lemma demo_update:
  obtains w' g' where "update_with_variant agreeing_os 0 (Inr demo_report) demo_world demo_group = Inr (w', g', True)"
proof -
  have "jobs_quiet (the_daemon demo_world)" "last_info demo_group \<noteq> Some demo_report"
    by (simp_all add: jobs_quiet_def demo_world_def storage_daemon_init_def demo_group_def storage_volume_group_new_def)
  from group_update_verdict [OF this, of agreeing_os 0] show ?thesis
    using that by (auto simp: demo_lvs named_def lookup_defs lv_named_def of_group_def udev_property_def
        demo_world_def demo_block_def split: sum.splits)
qed

lemma demo_hyps:
  "world_ok demo_world"
  "group_ok (the_daemon demo_world) demo_group \<or> group_new (the_daemon demo_world) demo_group"
  "inj_on escape (ht_keys (logical_volumes demo_group) \<union> set (visible_names (dicts_of demo_report ''lvs'')))"
  using demo_world_ok demo_group_new demo_inj by simp_all

section \<open>What a report says of a block\<close>

text \<open>
  The physical volume that a report has for a device: the last entry that names it; and for a block:
  that of its own name, or else of the first of its links that the report names.
\<close>

definition reported_device :: "vardict \<Rightarrow> string \<Rightarrow> vardict option" where
  "reported_device info name =
     (case filter (\<lambda>i. lookup_s i ''device'' = Some name) (dicts_of info ''pvs'') of
        [] \<Rightarrow> None
      | is \<Rightarrow> Some (last is))"

definition reported_pv :: "vardict \<Rightarrow> block \<Rightarrow> vardict option" where
  "reported_pv info b =
     (case filter (\<lambda>name. reported_device info name \<noteq> None) (blk_device b # blk_symlinks b) of
        [] \<Rightarrow> None
      | name # _ \<Rightarrow> reported_device info name)"

lemma read_physical_volumes_snoc:
  "read_physical_volumes (pvs @ [pv]) =
     (case lookup_s pv ''device'' of
        Some name \<Rightarrow> ht_insert (read_physical_volumes pvs) name pv | None \<Rightarrow> read_physical_volumes pvs)"
  by (simp add: read_physical_volumes_def split: option.split)

lemma lookup_read_physical_volumes:
  "ht_lookup (read_physical_volumes (dicts_of info ''pvs'')) name = reported_device info name"
proof -
  have "ht_lookup (read_physical_volumes pvs) name =
      (case filter (\<lambda>i. lookup_s i ''device'' = Some name) pvs of [] \<Rightarrow> None | is \<Rightarrow> Some (last is))" for pvs
  proof (induction pvs rule: rev_induct)
    case Nil
    then show ?case by (simp add: read_physical_volumes_def ht_lookup_def)
  next
    case (snoc pv pvs)
    then show ?case
      by (auto simp: read_physical_volumes_snoc ht.lookup_ins split: option.split list.splits)
  qed
  then show ?thesis by (simp add: reported_device_def)
qed

lemma find_pv_info_reported:
  assumes "physical_volumes g = read_physical_volumes (dicts_of info ''pvs'')"
  shows "find_pv_info g b = reported_pv info b"
proof -
  have "(case find (\<lambda>s. reported_device info s \<noteq> None) l of Some s \<Rightarrow> reported_device info s | None \<Rightarrow> None) =
      (case filter (\<lambda>s. reported_device info s \<noteq> None) l of [] \<Rightarrow> None | name # _ \<Rightarrow> reported_device info name)" for l
    by (induction l) (simp_all del: not_None_eq)
  moreover have "ht_lookup (physical_volumes g) = reported_device info"
    by (rule ext) (simp add: assms lookup_read_physical_volumes)
  ultimately show ?thesis
    unfolding find_pv_info_def reported_pv_def
    by (cases "reported_device info (blk_device b)") (simp_all del: not_None_eq cong: option.case_cong)
qed

lemma reported_pv_iff:
  "reported_pv info b \<noteq> None \<longleftrightarrow>
     (\<exists>i \<in> set (dicts_of info ''pvs''). \<exists>name \<in> set (blk_device b # blk_symlinks b). lookup_s i ''device'' = Some name)"
proof -
  have d: "reported_device info name \<noteq> None \<longleftrightarrow> (\<exists>i \<in> set (dicts_of info ''pvs''). lookup_s i ''device'' = Some name)" for name
    by (auto simp: reported_device_def filter_empty_conv split: list.splits dest!: filter_eq_ConsD)
  have "reported_pv info b \<noteq> None \<longleftrightarrow> (\<exists>name \<in> set (blk_device b # blk_symlinks b). reported_device info name \<noteq> None)"
  proof (cases "filter (\<lambda>name. reported_device info name \<noteq> None) (blk_device b # blk_symlinks b)")
    case Nil
    then show ?thesis unfolding reported_pv_def Nil using Nil by (auto simp: filter_empty_conv simp del: filter.simps)
  next
    case (Cons name names)
    then have "name \<in> set (filter (\<lambda>name. reported_device info name \<noteq> None) (blk_device b # blk_symlinks b))" by simp
    then have "name \<in> set (blk_device b # blk_symlinks b)" "reported_device info name \<noteq> None"
      unfolding set_filter by blast+
    then show ?thesis unfolding reported_pv_def Cons by auto
  qed
  then show ?thesis using d by blast
qed

section \<open>Properties\<close>

text \<open>
  C7: After an update with a report that differs from the last one, the volumes of the group are the
  visible names of the report, each exported at the path of its name below the group and nowhere
  else; volumes the report no longer names are exported nowhere. A volume that stays keeps its
  instance. Names whose escapes collide are excluded.
\<close>

theorem group_update_exports_report:
  assumes "world_ok w" and "group_ok (the_daemon w) g \<or> group_new (the_daemon w) g"
    and "inj_on escape (ht_keys (logical_volumes g) \<union> set (visible_names (dicts_of info ''lvs'')))"
    and "update_with_variant os now (Inr info) w g = Inr (w', g', True)"
  shows "world_ok w' \<and> group_ok (the_daemon w') g' \<and>
    ht_keys (logical_volumes g') = set (visible_names (dicts_of info ''lvs'')) \<and>
    (\<forall>k v. ht_lookup (logical_volumes g) k = Some v \<longrightarrow>
       (case ht_lookup (logical_volumes g') k of
          Some v' \<Rightarrow> lvo_thing v' = lvo_thing v
        | None \<Rightarrow> places (objects (the_daemon w')) (lvo_thing v) = {}))"
  using group_update_run [OF assms] by blast

lemma group_update_exports_report_witness:
  "\<exists>w' g'. update_with_variant agreeing_os 0 (Inr demo_report) demo_world demo_group = Inr (w', g', True) \<and>
     ht_keys (logical_volumes g') = {''root''}"
proof -
  obtain w' g' where u: "update_with_variant agreeing_os 0 (Inr demo_report) demo_world demo_group = Inr (w', g', True)"
    by (rule demo_update)
  with group_update_exports_report [OF demo_hyps u] show ?thesis by (simp add: demo_names)
qed

text \<open>
  C20: After such an update every block device shows what the report says: a block that udev counts to
  the group is shown as the volume udev names when that is a visible volume of the report, and as no
  volume otherwise; a block whose device or else one of whose links the report lists as a physical
  volume is one of the group, with the sizes reported; a block it does not list is none of the group
  any more. What blocks show of other groups stays.
\<close>

theorem group_update_blocks:
  assumes "world_ok w" and "group_ok (the_daemon w) g \<or> group_new (the_daemon w) g"
    and "inj_on escape (ht_keys (logical_volumes g) \<union> set (visible_names (dicts_of info ''lvs'')))"
    and "update_with_variant os now (Inr info) w g = Inr (w', g', True)"
    and "ht_lookup (the_blocks w) k = Some b"
  shows "\<exists>b'. ht_lookup (the_blocks w') k = Some b' \<and> interfaces_at (the_daemon w') k = block_things b' \<and>
    (if udev_property b ''DM_VG_NAME'' = Some (vgo_name g)
     then (case udev_property b ''DM_LV_NAME'' of
             Some name \<Rightarrow>
               if name \<in> set (visible_names (dicts_of info ''lvs''))
               then \<exists>lv. iface_logical_volume b' = Some lv \<and> lbi_logical_volume lv = Some (volume_path (vgo_name g) name)
               else iface_logical_volume b' = None
           | None \<Rightarrow> iface_logical_volume b' = None)
     else iface_logical_volume b' = iface_logical_volume b) \<and>
    (case reported_pv info b of
       Some i \<Rightarrow>
         \<exists>pv. iface_physical_volume b' = Some pv \<and> pvi_volume_group pv = Some (group_path (vgo_name g)) \<and>
           (\<forall>n. lookup_t i ''size'' = Some n \<longrightarrow> pvi_size pv = n) \<and>
           (\<forall>n. lookup_t i ''free-size'' = Some n \<longrightarrow> pvi_free_size pv = n)
     | None \<Rightarrow>
         iface_physical_volume b' =
           (if Option.bind (iface_physical_volume b) pvi_volume_group = Some (group_path (vgo_name g))
            then None else iface_physical_volume b))"
proof -
  note r = group_update_run [OF assms(1-4)]
  obtain b' where b': "ht_lookup (the_blocks w') k = Some b'" "shows_group g' b b'"
    using r(9) [OF assms(5)] by blast
  then have bus: "interfaces_at (the_daemon w') k = block_things b'"
    using r(1) by (auto simp: world_ok_def blocks_ok_def block_ok_def ht_lookup_def dest!: map_of_SomeD)
  have "ht_lookup (logical_volumes g') name = None \<longleftrightarrow> name \<notin> set (visible_names (dicts_of info ''lvs''))" for name
    using r(4) by (auto simp: ht_keys_def ht_lookup_def map_of_eq_None_iff)
  then have lv: "volume_shown g' b = (case udev_property b ''DM_LV_NAME'' of
      None \<Rightarrow> None | Some name \<Rightarrow>
        if name \<in> set (visible_names (dicts_of info ''lvs'')) then Some (volume_path (vgo_name g) name) else None)"
    by (simp add: volume_shown_def r(3) split: option.split)
  have "shows_lv g' b b'" "shows_pv g' b b'" using b'(2) by (simp_all add: shows_group_def)
  with b'(1) bus show ?thesis
    unfolding shows_lv_def shows_pv_def of_group_def lv find_pv_info_reported [OF r(6)] r(3)
    by (intro exI [of _ b']) (auto split: option.splits if_splits)
qed

lemma group_update_blocks_witness:
  "\<exists>w' g' b'. update_with_variant agreeing_os 0 (Inr demo_report) demo_world demo_group = Inr (w', g', True) \<and>
     ht_lookup (the_blocks w') (blk_path demo_block) = Some b' \<and>
     (\<exists>pv. iface_physical_volume b' = Some pv \<and> pvi_volume_group pv = Some (group_path ''vg0'') \<and> pvi_size pv = 4096)"
proof -
  obtain w' g' where u: "update_with_variant agreeing_os 0 (Inr demo_report) demo_world demo_group = Inr (w', g', True)"
    by (rule demo_update)
  have "ht_lookup (the_blocks demo_world) (blk_path demo_block) = Some demo_block"
    by (simp add: demo_world_def ht_lookup_def)
  moreover have "reported_pv demo_report demo_block = Some [(''device'', VString ''/dev/sda1''), (''size'', VUint64 4096)]"
    by (simp add: reported_pv_def reported_device_def demo_report_def dicts_of_def lookup_defs demo_block_def)
  moreover have "vgo_name demo_group = ''vg0''" by (simp add: demo_group_def storage_volume_group_new_def)
  ultimately show ?thesis
    using group_update_blocks [OF demo_hyps u, of "blk_path demo_block" demo_block] u by (auto simp: lookup_defs)
qed

text \<open>
  A group asks for polling exactly when a reported volume is a move, or a visible volume of the
  thin provisioning target.
\<close>

theorem group_needs_polling:
  assumes "world_ok w" and "group_ok (the_daemon w) g \<or> group_new (the_daemon w) g"
    and "inj_on escape (ht_keys (logical_volumes g) \<union> set (visible_names (dicts_of info ''lvs'')))"
    and "update_with_variant os now (Inr info) w g = Inr (w', g', True)"
  shows "needs_polling g' \<longleftrightarrow>
    (\<exists>i \<in> set (dicts_of info ''lvs''). \<exists>n. lookup_s i ''name'' = Some n \<and>
       (prefix ''pvmove'' n \<or>
        \<not> lvm_name_is_reserved n \<and>
        (\<exists>s. lookup_s i ''lv_attr'' = Some s \<and> 6 < length s \<and> s ! 6 = CHR ''t'')))"
proof -
  have "snd (snd (parse_lv_attr i)) \<longleftrightarrow>
      (\<exists>s. lookup_s i ''lv_attr'' = Some s \<and> 6 < length s \<and> s ! 6 = CHR ''t'')" for i
    by (auto simp: parse_lv_attr_def Let_def split: option.split)
  then show ?thesis
    using group_update_run(5) [OF assms]
    by (simp add: wants_polling_def lv_is_pvmove_volume_def lv_is_visible_def string_tests)
qed

lemma group_needs_polling_witness:
  "\<exists>w' g'. update_with_variant agreeing_os 0 (Inr demo_report) demo_world demo_group = Inr (w', g', True) \<and>
     needs_polling g'"
proof -
  obtain w' g' where u: "update_with_variant agreeing_os 0 (Inr demo_report) demo_world demo_group = Inr (w', g', True)"
    by (rule demo_update)
  with group_needs_polling [OF demo_hyps u] show ?thesis
    by (auto simp: demo_lvs lookup_defs)
qed

text \<open>
  A report equal to the last one, and an error, change no volume, no block and no polling: the
  update only publishes the group if it was not. In both cases the caller of the update is not told
  that it is over.
\<close>

theorem group_update_without_effect:
  assumes "\<forall>info. answer = Inr info \<longrightarrow> last_info g = Some info"
  shows "\<exists>w' g'. update_with_variant os now answer w g = Inr (w', g', False) \<and>
    logical_volumes g' = logical_volumes g \<and> physical_volumes g' = physical_volumes g \<and>
    needs_polling g' = needs_polling g \<and> the_blocks w' = the_blocks w \<and> the_calls w' = the_calls w \<and>
    \<not> need_publish g' \<and>
    the_daemon w' =
      (if need_publish g then publish_at (the_daemon w) (group_path (vgo_name g)) (vgo_thing g) else the_daemon w)"
  using assms by (cases answer) (auto simp: update_with_variant_def Let_def)

lemma group_update_without_effect_witness:
  "\<exists>w' g'. update_with_variant agreeing_os 0 (Inr demo_report) demo_world
      (demo_group\<lparr>last_info := Some demo_report\<rparr>) = Inr (w', g', False) \<and> \<not> need_publish g'"
  using group_update_without_effect [of "Inr demo_report" "demo_group\<lparr>last_info := Some demo_report\<rparr>" agreeing_os 0 demo_world]
  by auto

text \<open>
  C22: The daemon ends in an update only if a volume is reported without a name, or udev gives a block
  of the group no volume name; if either is so, and the report is not the last one, it ends.
\<close>

theorem group_update_aborts:
  assumes "jobs_quiet (the_daemon w)" and "last_info g \<noteq> Some info"
  shows "case update_with_variant os now (Inr info) w g of
      Inl x \<Rightarrow>
        x = UninitialisedRead ''name'' \<and> (\<exists>i \<in> set (dicts_of info ''lvs''). \<not> named i) \<or>
        x = NullDereference ''block_lv_name'' \<and> (\<exists>b \<in> snd ` set (the_blocks w). \<not> lv_named g b)
    | Inr (w', g', called) \<Rightarrow>
        called \<and> (\<forall>i \<in> set (dicts_of info ''lvs''). named i) \<and> (\<forall>b \<in> snd ` set (the_blocks w). lv_named g b)"
  by (rule group_update_verdict [OF assms])

lemma group_update_aborts_witness:
  "\<exists>x. update_with_variant agreeing_os 0 (Inr [(''lvs'', VDictArray [[]])]) demo_world demo_group = Inl x"
proof -
  have "jobs_quiet (the_daemon demo_world)" "last_info demo_group \<noteq> Some [(''lvs'', VDictArray [[]])]"
    by (simp_all add: jobs_quiet_def demo_world_def storage_daemon_init_def demo_group_def storage_volume_group_new_def)
  from group_update_aborts [OF this, of agreeing_os 0] show ?thesis
    by (auto simp: dicts_of_def lookup_defs named_def split: sum.splits)
qed

text \<open>
  C21: Disposing a group withdraws it and its volumes: none of them is exported anywhere any more, no
  block that udev counts to the group is shown as a volume, and no block stays a physical volume of
  it. What blocks show of other groups stays, and so does the volume that a block shows to which
  udev does not or not any more give the name of the group, even if it is one that was disposed of.
\<close>

theorem group_dispose_withdraws:
  assumes "world_ok w" and "group_ok (the_daemon w) g" and "inj_on escape (ht_keys (logical_volumes g))"
    and "storage_volume_group_dispose w g = Inr (w', g')"
  shows "places (objects (the_daemon w')) (vgo_thing g) = {} \<and>
    (\<forall>k v. ht_lookup (logical_volumes g) k = Some v \<longrightarrow> places (objects (the_daemon w')) (lvo_thing v) = {}) \<and>
    (\<forall>k b. ht_lookup (the_blocks w) k = Some b \<longrightarrow>
       (\<exists>b'. ht_lookup (the_blocks w') k = Some b' \<and> interfaces_at (the_daemon w') k = block_things b' \<and>
          iface_logical_volume b' =
            (if udev_property b ''DM_VG_NAME'' = Some (vgo_name g) then None else iface_logical_volume b) \<and>
          iface_physical_volume b' =
            (if Option.bind (iface_physical_volume b) pvi_volume_group = Some (group_path (vgo_name g))
             then None else iface_physical_volume b)))"
proof (intro conjI allI impI)
  fix k b
  assume "ht_lookup (the_blocks w) k = Some b"
  then obtain b' where b': "ht_lookup (the_blocks w') k = Some b'"
      "shows_group (g\<lparr>logical_volumes := [], physical_volumes := []\<rparr>) b b'"
    using group_dispose_run(4) [OF assms] by blast
  moreover have "blk_path b' = k \<and> block_ok (the_daemon w') b'"
    using group_dispose_run(1) [OF assms] b'(1)
    by (auto simp: world_ok_def blocks_ok_def ht_lookup_def dest!: map_of_SomeD)
  ultimately show "\<exists>b'. ht_lookup (the_blocks w') k = Some b' \<and> interfaces_at (the_daemon w') k = block_things b' \<and>
          iface_logical_volume b' =
            (if udev_property b ''DM_VG_NAME'' = Some (vgo_name g) then None else iface_logical_volume b) \<and>
          iface_physical_volume b' =
            (if Option.bind (iface_physical_volume b) pvi_volume_group = Some (group_path (vgo_name g))
             then None else iface_physical_volume b)"
    by (intro exI [of _ b']) (auto simp: shows_group_def shows_lv_def shows_pv_def shown_empty of_group_def block_ok_def)
qed (use group_dispose_run(2,3) [OF assms] in blast)+

text \<open>The block that the update made a physical volume of the group.\<close>

lemma demo_update_block:
  assumes u: "update_with_variant agreeing_os 0 (Inr demo_report) demo_world demo_group = Inr (w', g', True)"
  obtains b where "the_blocks w' = [(blk_path demo_block, b)]" and "blk_udev b = None"
    and "Option.bind (iface_physical_volume b) pvi_volume_group = Some (group_path (vgo_name g'))"
proof -
  note r = group_update_run [OF demo_hyps u]
  have k: "ht_lookup (the_blocks demo_world) (blk_path demo_block) = Some demo_block"
    by (simp add: demo_world_def ht_lookup_def)
  obtain b where b: "ht_lookup (the_blocks w') (blk_path demo_block) = Some b" "shows_group g' demo_block b"
    using r(9) [OF k] by blast
  moreover have "map fst (the_blocks w') = [blk_path demo_block]" using r(10) by (simp add: demo_world_def)
  ultimately have "the_blocks w' = [(blk_path demo_block, b)]" by (auto simp: ht_lookup_def)
  moreover have "blk_udev b = None" using b(2) by (simp add: shows_group_def same_device_def demo_block_def)
  moreover have "find_pv_info g' demo_block \<noteq> None"
    using find_pv_info_reported [OF r(6), of demo_block] reported_pv_iff [of demo_report demo_block]
    by (auto simp: demo_report_def dicts_of_def lookup_defs demo_block_def)
  then have "Option.bind (iface_physical_volume b) pvi_volume_group = Some (group_path (vgo_name g'))"
    using b(2) by (auto simp: shows_group_def shows_pv_def)
  ultimately show ?thesis using that by blast
qed

lemma group_dispose_withdraws_witness:
  "\<exists>w' g' w'' g'' b. update_with_variant agreeing_os 0 (Inr demo_report) demo_world demo_group = Inr (w', g', True) \<and>
     storage_volume_group_dispose w' g' = Inr (w'', g'') \<and> places (objects (the_daemon w'')) (vgo_thing g') = {} \<and>
     ht_lookup (the_blocks w'') (blk_path demo_block) = Some b \<and> iface_physical_volume b = None"
proof -
  obtain w' g' where u: "update_with_variant agreeing_os 0 (Inr demo_report) demo_world demo_group = Inr (w', g', True)"
    by (rule demo_update)
  note r = group_update_run [OF demo_hyps u]
  have keys: "ht_keys (logical_volumes g') = {''root''}" using r(4) by (simp add: demo_names)
  obtain b where b: "the_blocks w' = [(blk_path demo_block, b)]" "blk_udev b = None"
      "Option.bind (iface_physical_volume b) pvi_volume_group = Some (group_path (vgo_name g'))"
    by (rule demo_update_block [OF u])
  have all: "\<exists>s. each_block (storage_volume_group_update_block g) d (the_blocks w') = Inr s" for g d
    using each_block_aborts [where g = g and d = d and bs = "the_blocks w'"]
    by (auto simp: b(1,2) lv_named_def of_group_def udev_property_def simp del: each_block.simps split: sum.splits)
  have "\<exists>s. update_all_blocks g (w'\<lparr>the_daemon := d\<rparr>) = Inr s" for g d
    using all [of g d] by (auto simp: update_all_blocks_def)
  moreover have "\<exists>s. ebind x f = Inr s" if "\<exists>a. x = Inr a" "\<And>a. \<exists>s. f a = Inr s"
    for x :: "abort + world" and f :: "world \<Rightarrow> abort + world \<times> volume_group"
    using that by auto
  ultimately have "\<exists>s. storage_volume_group_dispose w' g' = Inr s"
    unfolding storage_volume_group_dispose_def Let_def by simp
  then obtain w'' g'' where d: "storage_volume_group_dispose w' g' = Inr (w'', g'')" by auto
  have "inj_on escape (ht_keys (logical_volumes g'))" by (simp add: keys)
  note gone = group_dispose_withdraws [OF r(1,2) this d]
  have "ht_lookup (the_blocks w') (blk_path demo_block) = Some b" by (simp add: b(1) ht_lookup_def)
  with gone obtain b'' where "ht_lookup (the_blocks w'') (blk_path demo_block) = Some b''"
      "iface_physical_volume b'' =
         (if Option.bind (iface_physical_volume b) pvi_volume_group = Some (group_path (vgo_name g')) then None
          else iface_physical_volume b)"
    by blast
  with u d gone b(3) show ?thesis by auto
qed

end
