(* ===== verification/Group_Methods.thy ===== *)
theory Group_Methods
  imports Group_Update
begin

text \<open>
  The methods of a volume group, \<open>src/volumegroup.c\<close>: the commands they run as spawned jobs,
  the functions of their threaded jobs, and the checks before a job is launched.
\<close>

section \<open>The commands\<close>

definition vg_rename :: "string \<Rightarrow> string \<Rightarrow> command" where
  "vg_rename vg new_name = \<lparr>cmd_operation = ''lvm-vg-rename'', cmd_argv = [''vgrename'', vg, new_name]\<rparr>"

definition vg_add_device :: "string \<Rightarrow> string \<Rightarrow> command" where
  "vg_add_device vg dev = \<lparr>cmd_operation = ''lvm-vg-add-device'', cmd_argv = [''vgextend'', vg, dev]\<rparr>"

definition vg_empty_device :: "string \<Rightarrow> command" where
  "vg_empty_device dev = \<lparr>cmd_operation = ''lvm-vg-empty-device'', cmd_argv = [''pvmove'', dev]\<rparr>"

definition vg_create_plain_volume :: "string \<Rightarrow> string \<Rightarrow> u64 \<Rightarrow> command" where
  "vg_create_plain_volume vg name sz =
     \<lparr>cmd_operation = ''lvm-vg-create-volume'',
      cmd_argv = [''lvcreate'', vg, size_arg (round_512 sz), ''-n'', name]\<rparr>"

text \<open>\<open>%lub\<close> as an argument of its own.\<close>

definition size_value :: "u64 \<Rightarrow> string" where
  "size_value n = dec (unat n) @ ''b''"

definition vg_create_thin_pool_volume :: "string \<Rightarrow> string \<Rightarrow> u64 \<Rightarrow> command" where
  "vg_create_thin_pool_volume vg name sz =
     \<lparr>cmd_operation = ''lvm-vg-create-volume'',
      cmd_argv = [''lvcreate'', vg, ''-T'', ''-L'', size_value (round_512 sz), ''--thinpool'', name]\<rparr>"

definition vg_create_thin_volume :: "string \<Rightarrow> string \<Rightarrow> u64 \<Rightarrow> string \<Rightarrow> command" where
  "vg_create_thin_volume vg name sz pool =
     \<lparr>cmd_operation = ''lvm-vg-create-volume'',
      cmd_argv = [''lvcreate'', vg, ''--thinpool'', pool, ''-V'', size_value (round_512 sz), ''-n'', name]\<rparr>"

section \<open>The functions of the threaded jobs\<close>

text \<open>\<open>g_spawn_sync\<close> and the verdict on the command: \<open>None\<close> is success.\<close>

definition run_command :: "os \<Rightarrow> string \<Rightarrow> string list \<Rightarrow> systrace \<Rightarrow> gerror option \<times> systrace" where
  "run_command os name argv tr =
     (case sys_spawn os tr argv of
        Inl e \<Rightarrow> (Some e, tr @ [EvSpawn argv])
      | Inr (out, err, status) \<Rightarrow>
          (check_status_and_output name status (Some out) (Some err), tr @ [EvSpawn argv]))"

fun wipe_all :: "os \<Rightarrow> string list \<Rightarrow> systrace \<Rightarrow> gerror option \<times> systrace" where
  "wipe_all os [] tr = (None, tr)"
| "wipe_all os (dev # devs) tr =
     (case wipe_block os dev tr of
        (Some e, tr) \<Rightarrow> (Some e, tr)
      | (None, tr) \<Rightarrow> wipe_all os devs tr)"

text \<open>A job function returns a truth value and sets an error; here the error alone says which.\<close>

definition verdict :: "gerror option \<Rightarrow> bool \<times> gerror option" where
  "verdict e = (e = None, e)"

definition volume_group_delete_job_thread ::
  "os \<Rightarrow> string \<Rightarrow> string list \<Rightarrow> systrace \<Rightarrow> (bool \<times> gerror option) \<times> systrace" where
  "volume_group_delete_job_thread os vgname devices tr =
     (case run_command os ''vgremove'' [''vgremove'', ''-f'', vgname] tr of
        (Some e, tr) \<Rightarrow> (verdict (Some e), tr)
      | (None, tr) \<Rightarrow> apfst verdict (wipe_all os devices tr))"

definition volume_group_remdev_job_thread ::
  "os \<Rightarrow> string \<Rightarrow> string \<Rightarrow> bool \<Rightarrow> systrace \<Rightarrow> (bool \<times> gerror option) \<times> systrace" where
  "volume_group_remdev_job_thread os vgname pvname wipe tr =
     (case run_command os ''vgreduce'' [''vgreduce'', vgname, pvname] tr of
        (Some e, tr) \<Rightarrow> (verdict (Some e), tr)
      | (None, tr) \<Rightarrow>
          if wipe then apfst verdict (run_command os ''wipefs'' [''wipefs'', ''-a'', pvname] tr)
          else (verdict None, tr))"

section \<open>The handlers\<close>

text \<open>Launching a job about the group.\<close>

definition launch_for ::
  "(string list \<Rightarrow> gerror + nat) \<Rightarrow> u32 \<Rightarrow> world \<Rightarrow> volume_group \<Rightarrow> command \<Rightarrow> world \<times> thing" where
  "launch_for spawn uid w self c =
     (let (d, job) = launch_command (path_of (the_daemon w)) spawn (the_daemon w) (vgo_thing self) uid c
      in (w\<lparr>the_daemon := d\<rparr>, job))"

text \<open>The devices of the blocks that show the group as their volume group.\<close>

definition group_devices :: "world \<Rightarrow> volume_group \<Rightarrow> string list" where
  "group_devices w self =
     map blk_device (filter (\<lambda>b. case iface_physical_volume b of
         Some pv \<Rightarrow> strcmp0_eq (pvi_volume_group pv) (path_of (the_daemon w) (vgo_thing self))
       | None \<Rightarrow> False) (map snd (the_blocks w)))"

text \<open>\<open>tr\<close> is the trace when the scheduler runs the function of the job.\<close>

definition vg_handle_delete :: "os \<Rightarrow> systrace \<Rightarrow> u32 \<Rightarrow> world \<Rightarrow> volume_group \<Rightarrow> bool \<Rightarrow> world \<times> handled" where
  "vg_handle_delete os tr uid w self wipe =
     (let devices = (if wipe then group_devices w self else []);
          (d, job) = storage_daemon_launch_threaded_job (path_of (the_daemon w)) (the_daemon w)
            (Some (vgo_thing self)) ''lvm-vg-delete'' uid
            (\<lambda>_. fst (volume_group_delete_job_thread os (vgo_name self) devices tr)) False
      in (w\<lparr>the_daemon := d\<rparr>, AnswersOnJob job ''Error deleting volume group: ''))"

definition vg_handle_rename ::
  "(string list \<Rightarrow> gerror + nat) \<Rightarrow> u32 \<Rightarrow> world \<Rightarrow> volume_group \<Rightarrow> string \<Rightarrow> world \<times> handled" where
  "vg_handle_rename spawn uid w self new_name =
     (let (w, job) = launch_for spawn uid w self (vg_rename (vgo_name self) new_name)
      in (w, AnswersOnObject job ''Error renaming volume group: ''))"

definition vg_handle_add_device ::
  "os \<Rightarrow> (string list \<Rightarrow> gerror + nat) \<Rightarrow> u32 \<Rightarrow> world \<Rightarrow> volume_group \<Rightarrow> string \<Rightarrow> world \<times> handled" where
  "vg_handle_add_device os spawn uid w self objpath =
     (case ht_lookup (the_blocks w) objpath of
        None \<Rightarrow> (w, failed ''The given object is not a valid block'')
      | Some block \<Rightarrow>
          (case storage_block_is_unused os block (the_calls w) of
             (Some e, tr) \<Rightarrow> (w\<lparr>the_calls := tr\<rparr>, Answered (ReturnError e))
           | (None, tr) \<Rightarrow>
               (case wipe_block os (blk_device block) tr of
                  (Some e, tr) \<Rightarrow> (w\<lparr>the_calls := tr\<rparr>, Answered (ReturnError e))
                | (None, tr) \<Rightarrow>
                    let (w, job) = launch_for spawn uid (w\<lparr>the_calls := tr\<rparr>) self
                          (vg_add_device (vgo_name self) (blk_device block))
                    in (w, AnswersOnJob job ''Error adding device to volume group: ''))))"

definition vg_handle_remove_device ::
  "os \<Rightarrow> systrace \<Rightarrow> u32 \<Rightarrow> world \<Rightarrow> volume_group \<Rightarrow> string \<Rightarrow> bool \<Rightarrow> world \<times> handled" where
  "vg_handle_remove_device os tr uid w self objpath wipe =
     (case ht_lookup (the_blocks w) objpath of
        None \<Rightarrow> (w, failed ''The given object is not a valid block'')
      | Some block \<Rightarrow>
          let (d, job) = storage_daemon_launch_threaded_job (path_of (the_daemon w)) (the_daemon w)
                (Some (vgo_thing self)) ''lvm-vg-rem-device'' uid
                (\<lambda>_. fst (volume_group_remdev_job_thread os (vgo_name self) (blk_device block) wipe tr)) False
          in (w\<lparr>the_daemon := d\<rparr>, AnswersOnJob job ''Error removing device from volume group: ''))"

text \<open>The job is about the block: its path is that of the udisks object.\<close>

definition vg_handle_empty_device ::
  "(string list \<Rightarrow> gerror + nat) \<Rightarrow> u32 \<Rightarrow> world \<Rightarrow> string \<Rightarrow> world \<times> handled" where
  "vg_handle_empty_device spawn uid w objpath =
     (case ht_lookup (the_blocks w) objpath of
        None \<Rightarrow> (w, failed ''The given object is not a valid block'')
      | Some block \<Rightarrow>
          let (d, job) = launch_command (\<lambda>_. Some (blk_path block)) spawn (the_daemon w) (Thing 0 StorageBlock)
                uid (vg_empty_device (blk_device block))
          in (w\<lparr>the_daemon := d\<rparr>, AnswersOnJob job ''Error emptying device in volume group: ''))"

definition vg_handle_create_plain_volume ::
  "(string list \<Rightarrow> gerror + nat) \<Rightarrow> u32 \<Rightarrow> world \<Rightarrow> volume_group \<Rightarrow> string \<Rightarrow> u64 \<Rightarrow> world \<times> handled" where
  "vg_handle_create_plain_volume spawn uid w self name sz =
     (let (w, job) = launch_for spawn uid w self (vg_create_plain_volume (vgo_name self) name sz)
      in (w, AnswersOnObject job ''Error creating logical volume: ''))"

definition vg_handle_create_thin_pool_volume ::
  "(string list \<Rightarrow> gerror + nat) \<Rightarrow> u32 \<Rightarrow> world \<Rightarrow> volume_group \<Rightarrow> string \<Rightarrow> u64 \<Rightarrow> world \<times> handled" where
  "vg_handle_create_thin_pool_volume spawn uid w self name sz =
     (let (w, job) = launch_for spawn uid w self (vg_create_thin_pool_volume (vgo_name self) name sz)
      in (w, AnswersOnObject job ''Error creating logical volume: ''))"

text \<open>\<open>name_of\<close> is the name of a logical volume's instance.\<close>

definition vg_handle_create_thin_volume ::
  "(thing \<Rightarrow> string) \<Rightarrow> (string list \<Rightarrow> gerror + nat) \<Rightarrow> u32 \<Rightarrow> world \<Rightarrow> volume_group \<Rightarrow> string \<Rightarrow> u64 \<Rightarrow> string \<Rightarrow>
   world \<times> handled" where
  "vg_handle_create_thin_volume name_of spawn uid w self name sz arg_pool =
     (case find_thing (the_daemon w) arg_pool (Some StorageLogicalVolume) of
        FoundThing pool \<Rightarrow>
          let (w, job) = launch_for spawn uid w self (vg_create_thin_volume (vgo_name self) name sz (name_of pool))
          in (w, AnswersOnObject job ''Error creating logical volume: '')
      | _ \<Rightarrow> (w, failed ''Not a valid logical volume''))"

text \<open>The methods of the interface that run commands, and the handler of each. \<open>Poll\<close> is in \<open>Group_Polling\<close>.\<close>

datatype vg_request =
    VgDelete bool | VgRename string | VgAddDevice string | VgRemoveDevice string bool | VgEmptyDevice string
  | VgCreatePlain string u64 | VgCreateThinPool string u64 | VgCreateThin string u64 string

fun vg_handle ::
  "os \<Rightarrow> systrace \<Rightarrow> (thing \<Rightarrow> string) \<Rightarrow> (string list \<Rightarrow> gerror + nat) \<Rightarrow> u32 \<Rightarrow> world \<Rightarrow> volume_group \<Rightarrow>
   vg_request \<Rightarrow> world \<times> handled" where
  "vg_handle os tr name_of spawn uid w self (VgDelete wipe) = vg_handle_delete os tr uid w self wipe"
| "vg_handle os tr name_of spawn uid w self (VgRename name) = vg_handle_rename spawn uid w self name"
| "vg_handle os tr name_of spawn uid w self (VgAddDevice path) = vg_handle_add_device os spawn uid w self path"
| "vg_handle os tr name_of spawn uid w self (VgRemoveDevice path wipe) = vg_handle_remove_device os tr uid w self path wipe"
| "vg_handle os tr name_of spawn uid w self (VgEmptyDevice path) = vg_handle_empty_device spawn uid w path"
| "vg_handle os tr name_of spawn uid w self (VgCreatePlain name sz) = vg_handle_create_plain_volume spawn uid w self name sz"
| "vg_handle os tr name_of spawn uid w self (VgCreateThinPool name sz) =
     vg_handle_create_thin_pool_volume spawn uid w self name sz"
| "vg_handle os tr name_of spawn uid w self (VgCreateThin name sz pool) =
     vg_handle_create_thin_volume name_of spawn uid w self name sz pool"

section \<open>What the threads do\<close>

text \<open>The devices opened, in order.\<close>

fun opened :: "systrace \<Rightarrow> string list" where
  "opened [] = []"
| "opened (EvOpen dev flags # tr) = dev # opened tr"
| "opened (_ # tr) = opened tr"

lemma opened_append [simp]: "opened (s @ t) = opened s @ opened t"
  by (induction s rule: opened.induct) simp_all

lemma opened_spawns [simp]: "opened (map EvSpawn l) = []"
  by (induction l) simp_all

lemma wipe_block_calls:
  assumes "wipe_block os dev tr = (res, tr')"
  obtains c where "tr' = tr @ c" and "opened c = [dev]" and "res = None \<Longrightarrow> \<exists>fd. c = wipe_script dev fd"
proof -
  obtain calls spawns where tr': "tr' = tr @ calls @ map EvSpawn spawns"
    and runs: "(calls, spawns, res \<noteq> None) \<in> set (wipe_runs dev (fst (sys_open os tr dev [O_RDWR, O_EXCL])))"
    using wipe_block_runs [OF assms refl] by blast
  have "opened (calls @ map EvSpawn spawns) = [dev]"
    using runs by (auto simp: wipe_runs_def Let_def split: if_splits)
  moreover have "res = None \<Longrightarrow> \<exists>fd. calls @ map EvSpawn spawns = wipe_script dev fd"
    using runs by (auto simp: wipe_runs_def wipe_script_def Let_def split: if_splits)
  ultimately show ?thesis using that tr' by blast
qed

lemma wipe_all_calls:
  assumes "wipe_all os devs tr = (res, tr')"
  shows "\<exists>c. tr' = tr @ c \<and> prefix (opened c) devs \<and> (res = None \<longrightarrow> opened c = devs)"
  using assms
proof (induction devs arbitrary: tr)
  case (Cons dev devs)
  obtain r tr1 where w: "wipe_block os dev tr = (r, tr1)" by fastforce
  obtain c1 where c1: "tr1 = tr @ c1" "opened c1 = [dev]"
    using wipe_block_calls [OF w] by blast
  show ?case
  proof (cases r)
    case (Some e)
    with Cons.prems w c1 show ?thesis by auto
  next
    case None
    then have "wipe_all os devs tr1 = (res, tr')" using Cons.prems w by simp
    from Cons.IH [OF this] obtain c where "tr' = tr1 @ c" "prefix (opened c) devs" "res = None \<longrightarrow> opened c = devs" by blast
    then show ?thesis using c1 by (intro exI [of _ "c1 @ c"]) auto
  qed
qed simp

lemma run_command_trace: "run_command os name argv tr = (res, tr') \<Longrightarrow> tr' = tr @ [EvSpawn argv]"
  by (auto simp: run_command_def split: sum.splits)

lemma run_command_well: "run_command os name argv tr = (res, tr') \<Longrightarrow> res = None \<longleftrightarrow> went_well os tr (EvSpawn argv)"
  by (auto simp: run_command_def check_status_None_iff went_well_spawn simp del: went_well.simps(4) split: sum.splits)

text \<open>
  Wiping several devices, as the kernel sees it: the calls when every one that counts goes well, nothing
  otherwise.
\<close>

fun wipes :: "os \<Rightarrow> string list \<Rightarrow> systrace \<Rightarrow> systrace option" where
  "wipes os [] tr = Some tr"
| "wipes os (dev # devs) tr =
     (let c = wipe_calls dev (fst (sys_open os tr dev [O_RDWR, O_EXCL])) in
      if all_well os tr c then wipes os devs (tr @ c @ [EvSpawn (pvscan_argv dev)]) else None)"

lemma wipe_all_wipes:
  assumes "wipe_all os devs tr = (res, tr')"
  shows "if res = None then wipes os devs tr = Some tr' else wipes os devs tr = None"
  using assms
proof (induction devs arbitrary: tr)
  case (Cons dev devs)
  obtain r tr1 where w: "wipe_block os dev tr = (r, tr1)" by fastforce
  note a = wipe_block_answers [OF w refl]
  show ?case
  proof (cases r)
    case (Some e)
    with a(1) Cons.prems w show ?thesis by (auto simp: Let_def)
  next
    case None
    then have "wipe_all os devs tr1 = (res, tr')" using Cons.prems w by simp
    from Cons.IH [OF this] a None show ?thesis by (cases "res = None") (simp_all add: Let_def)
  qed
qed simp

text \<open>The programs that wiping runs.\<close>

definition wipe_program :: "string list \<Rightarrow> sysevent \<Rightarrow> bool" where
  "wipe_program devs e \<longleftrightarrow> (\<forall>argv. e = EvSpawn argv \<longrightarrow> (\<exists>dev \<in> set devs. argv \<in> {wipe_argv dev, pvscan_argv dev}))"

lemma wipe_all_programs:
  assumes "wipe_all os devs tr = (res, tr')" and "tr' = tr @ c"
  shows "list_all (wipe_program devs) c"
proof -
  have "\<exists>c. tr' = tr @ c \<and> list_all (wipe_program devs) c" using assms(1)
  proof (induction devs arbitrary: tr)
    case (Cons dev devs)
    obtain r tr1 where w: "wipe_block os dev tr = (r, tr1)" by fastforce
    obtain calls spawns where tr1: "tr1 = tr @ calls @ map EvSpawn spawns"
      and runs: "(calls, spawns, r \<noteq> None) \<in> set (wipe_runs dev (fst (sys_open os tr dev [O_RDWR, O_EXCL])))"
      using wipe_block_runs [OF w refl] by blast
    have one: "list_all (wipe_program (dev # devs)) (calls @ map EvSpawn spawns)"
      using runs by (auto simp: wipe_runs_def wipe_program_def Let_def split: if_splits)
    show ?case
    proof (cases r)
      case (Some e)
      with Cons.prems w tr1 one show ?thesis by auto
    next
      case None
      then have "wipe_all os devs tr1 = (res, tr')" using Cons.prems w by simp
      from Cons.IH [OF this] obtain c where c: "tr' = tr1 @ c" "list_all (wipe_program devs) c" by blast
      then have "list_all (wipe_program (dev # devs)) c" by (auto simp: wipe_program_def list_all_iff)
      with c(1) one tr1 show ?thesis by (intro exI [of _ "(calls @ map EvSpawn spawns) @ c"]) simp
    qed
  qed simp
  with assms(2) show ?thesis by simp
qed

lemma verdict_contract: "verdict e = (False, err) \<Longrightarrow> \<exists>x. err = Some x"
  by (auto simp: verdict_def)

interpretation delete_job: job_function "\<lambda>_. fst (volume_group_delete_job_thread os vg devices tr)" for os vg devices tr
  by unfold_locales
    (auto simp: volume_group_delete_job_thread_def apfst_def dest: verdict_contract split: prod.splits option.splits)

interpretation remdev_job: job_function "\<lambda>_. fst (volume_group_remdev_job_thread os vg pv wipe tr)" for os vg pv wipe tr
  by unfold_locales
    (auto simp: volume_group_remdev_job_thread_def apfst_def dest: verdict_contract split: prod.splits option.splits if_splits)

section \<open>Properties\<close>

text \<open>
  C15: Deleting a group first runs \<open>vgremove\<close>. When that did not exit with status 0, nothing else
  is done and the job fails. When it did, the devices are wiped in turn until one fails, and the job
  succeeds exactly when the kernel let every wipe go well; a job that fails carries an error.
\<close>

theorem delete_wipes_after_removal:
  "case volume_group_delete_job_thread os vg devices tr of ((ok, err), tr') \<Rightarrow>
     let remove = EvSpawn [''vgremove'', ''-f'', vg] in
     (ok \<longleftrightarrow> err = None) \<and>
     (if went_well os tr remove
      then (case wipes os devices (tr @ [remove]) of
              Some wiped \<Rightarrow> ok \<and> tr' = wiped
            | None \<Rightarrow> \<not> ok \<and> (\<exists>c. tr' = tr @ remove # c \<and> prefix (opened c) devices \<and> list_all (wipe_program devices) c))
      else \<not> ok \<and> tr' = tr @ [remove])"
proof -
  let ?argv = "[''vgremove'', ''-f'', vg]"
  obtain r tr1 where r: "run_command os ''vgremove'' ?argv tr = (r, tr1)" by fastforce
  note tr1 = run_command_trace [OF r] and well = run_command_well [OF r]
  show ?thesis
  proof (cases r)
    case (Some e)
    with well tr1 r show ?thesis
      by (simp add: volume_group_delete_job_thread_def verdict_def Let_def del: went_well.simps(4))
  next
    case None
    obtain res tr' where w: "wipe_all os devices tr1 = (res, tr')" by fastforce
    from wipe_all_calls [OF w] obtain c where c: "tr' = tr1 @ c" "prefix (opened c) devices" by blast
    have "volume_group_delete_job_thread os vg devices tr = (verdict res, tr')"
      by (simp add: volume_group_delete_job_thread_def r None w)
    with c well None tr1 wipe_all_wipes [OF w] wipe_all_programs [OF w c(1)] show ?thesis
      by (auto simp: verdict_def Let_def simp del: went_well.simps(4) split: if_splits)
  qed
qed

lemma launch_one:
  "launch_for spawn uid w g c = (w', t) \<Longrightarrow>
     \<exists>j. jobs (the_daemon w') = jobs (the_daemon w) @ [(t, j)] \<and> num_jobs (the_daemon w') = num_jobs (the_daemon w) + 1"
  by (auto simp: launch_for_def launch_command_def storage_daemon_launch_spawned_jobv_def export_job_def Let_def)

definition one_job :: "world \<Rightarrow> world \<times> handled \<Rightarrow> bool" where
  "one_job w r \<longleftrightarrow>
     (case snd r of
        Answered reply \<Rightarrow> (\<exists>e. reply = ReturnError e) \<and> the_daemon (fst r) = the_daemon w
      | AnswersOnJob t _ \<Rightarrow>
          (\<exists>j. jobs (the_daemon (fst r)) = jobs (the_daemon w) @ [(t, j)]) \<and>
          num_jobs (the_daemon (fst r)) = num_jobs (the_daemon w) + 1
      | AnswersOnObject t _ \<Rightarrow>
          (\<exists>j. jobs (the_daemon (fst r)) = jobs (the_daemon w) @ [(t, j)]) \<and>
          num_jobs (the_daemon (fst r)) = num_jobs (the_daemon w) + 1)"

lemma one_job_launch:
  "one_job w (let (w, job) = launch_for spawn uid w g c in (w, AnswersOnObject job m))"
  "one_job w (let (w, job) = launch_for spawn uid w g c in (w, AnswersOnJob job m))"
  using launch_one [of spawn uid w g c] by (auto simp: one_job_def split: prod.split)

lemma one_job_calls [simp]: "one_job (w\<lparr>the_calls := tr\<rparr>) r = one_job w r"
  by (cases "snd r") (simp_all add: one_job_def)

lemmas launch_defs = one_job_def launch_command_def storage_daemon_launch_spawned_jobv_def
  storage_daemon_launch_threaded_job_def export_job_def Let_def

lemma handle_add_device_one: "one_job w (vg_handle_add_device os spawn uid w self path)"
proof -
  have "one_job w (let (w, job) = launch_for spawn uid (w\<lparr>the_calls := tr\<rparr>) self c in (w, AnswersOnJob job m))" for tr c m
    using one_job_launch(2) [of "w\<lparr>the_calls := tr\<rparr>" spawn uid self c m] by simp
  then show ?thesis
    by (auto simp: vg_handle_add_device_def split: option.split prod.split) (auto simp: one_job_def failed_def)
qed

text \<open>
  A method of a group other than \<open>Poll\<close> either is refused with an error, and then no job is launched
  and nothing is exported, or launches exactly one job and is not answered before it ends.
\<close>

lemma vg_handle_one_job:
  "case vg_handle os tr name_of spawn uid w g request of (w', res) \<Rightarrow>
     case res of
       Answered reply \<Rightarrow> (\<exists>e. reply = ReturnError e) \<and> the_daemon w' = the_daemon w
     | AnswersOnJob t _ \<Rightarrow>
         (\<exists>j. jobs (the_daemon w') = jobs (the_daemon w) @ [(t, j)]) \<and> num_jobs (the_daemon w') = num_jobs (the_daemon w) + 1
     | AnswersOnObject t _ \<Rightarrow>
         (\<exists>j. jobs (the_daemon w') = jobs (the_daemon w) @ [(t, j)]) \<and> num_jobs (the_daemon w') = num_jobs (the_daemon w) + 1"
proof -
  have "one_job w (vg_handle os tr name_of spawn uid w g request)"
  proof (cases request)
    case (VgDelete wipe)
    then show ?thesis by (simp add: vg_handle_delete_def launch_defs)
  next
    case (VgAddDevice path)
    then show ?thesis by (simp add: handle_add_device_one)
  next
    case (VgRemoveDevice path wipe)
    then show ?thesis by (simp add: vg_handle_remove_device_def failed_def launch_defs split: option.split)
  next
    case (VgEmptyDevice path)
    then show ?thesis by (simp add: vg_handle_empty_device_def failed_def launch_defs split: option.split)
  next
    case (VgCreateThin name sz pool)
    have "one_job w (w, failed m)" for m by (simp add: one_job_def failed_def)
    then show ?thesis
      unfolding VgCreateThin vg_handle.simps vg_handle_create_thin_volume_def
      using one_job_launch(1) by (cases "find_thing (the_daemon w) pool (Some StorageLogicalVolume)") simp_all
  qed (simp_all add: vg_handle_rename_def vg_handle_create_plain_volume_def vg_handle_create_thin_pool_volume_def
      one_job_launch [unfolded Let_def] Let_def)
  then show ?thesis unfolding one_job_def
    by (cases "vg_handle os tr name_of spawn uid w g request"; cases "snd (vg_handle os tr name_of spawn uid w g request)")
      simp_all
qed

text \<open>
  C25: A device is added only when the object given is a block that nobody has open and that has been
  wiped completely, in this order; otherwise no job is launched.
\<close>

theorem add_device_checked:
  "case vg_handle_add_device os spawn uid w g path of (w', res) \<Rightarrow>
     (\<forall>t m. res = AnswersOnJob t m \<longrightarrow>
        (\<exists>b fd fd'. ht_lookup (the_blocks w) path = Some b \<and> 0 \<le> fd \<and>
           the_calls w' = the_calls w @ [EvOpen (blk_device b) [O_RDONLY, O_EXCL], EvClose fd] @
             wipe_script (blk_device b) fd' \<and>
           (the_daemon w', t) = launch_command (path_of (the_daemon w)) spawn (the_daemon w) (vgo_thing g) uid
             (vg_add_device (vgo_name g) (blk_device b)))) \<and>
     (\<forall>reply. res = Answered reply \<longrightarrow> the_daemon w' = the_daemon w)"
proof (cases "ht_lookup (the_blocks w) path")
  case None
  then show ?thesis by (simp add: vg_handle_add_device_def failed_def)
next
  case (Some b)
  let ?open = "EvOpen (blk_device b) [O_RDONLY, O_EXCL]"
  obtain fd errno where fd: "sys_open os (the_calls w) (blk_device b) [O_RDONLY, O_EXCL] = (fd, errno)" by fastforce
  show ?thesis
  proof (cases "fd < 0")
    case True
    with Some fd show ?thesis by (simp add: vg_handle_add_device_def storage_block_is_unused_def)
  next
    case False
    obtain r tr where r: "wipe_block os (blk_device b) (the_calls w @ [?open, EvClose fd]) = (r, tr)" by fastforce
    obtain c where c: "tr = (the_calls w @ [?open, EvClose fd]) @ c" "r = None \<Longrightarrow> \<exists>fd. c = wipe_script (blk_device b) fd"
      by (rule wipe_block_calls [OF r]) blast
    obtain d t where l: "launch_command (path_of (the_daemon w)) spawn (the_daemon w) (vgo_thing g) uid
        (vg_add_device (vgo_name g) (blk_device b)) = (d, t)" by fastforce
    have "vg_handle_add_device os spawn uid w g path =
        (case r of Some e \<Rightarrow> (w\<lparr>the_calls := tr\<rparr>, Answered (ReturnError e))
         | None \<Rightarrow> (w\<lparr>the_daemon := d, the_calls := tr\<rparr>, AnswersOnJob t ''Error adding device to volume group: ''))"
      using Some fd False r l
      by (simp add: vg_handle_add_device_def storage_block_is_unused_def launch_for_def split: option.split)
    then show ?thesis using c l Some False by (cases r) auto
  qed
qed

lemma add_device_checked_witness:
  "\<exists>w' t m. vg_handle_add_device agreeing_os (\<lambda>_. Inr 7) 0 demo_world demo_group (blk_path demo_block) = (w', AnswersOnJob t m) \<and>
     EvOpen ''/dev/sda1'' [O_RDONLY, O_EXCL] \<in> set (the_calls w')"
proof -
  have "case snd (vg_handle_add_device agreeing_os (\<lambda>_. Inr 7) 0 demo_world demo_group (blk_path demo_block)) of
      AnswersOnJob t m \<Rightarrow> True | _ \<Rightarrow> False"
    by code_simp
  then obtain w' t m where r: "vg_handle_add_device agreeing_os (\<lambda>_. Inr 7) 0 demo_world demo_group (blk_path demo_block) =
      (w', AnswersOnJob t m)"
    by (metis (no_types, lifting) handled.exhaust handled.simps(10) handled.simps(12) prod.collapse)
  then show ?thesis
    using add_device_checked [where os = agreeing_os and spawn = "\<lambda>_. Inr 7" and uid = 0 and w = demo_world
        and g = demo_group and path = "blk_path demo_block"]
    by (auto simp: demo_world_def demo_block_def ht_lookup_def)
qed

lemma div_mod_bound: "(m::nat) < 512 * (m div 512) + 512"
  using mod_less_divisor [of 512 m] mult_div_mod_eq [of 512 m] by linarith

text \<open>
  C27: The size that reaches the command is the requested one rounded down to whole sectors, so
  never more than requested, and less by at most 511. The documentation of \<open>ExtentSize\<close> says that
  sizes are rounded up to multiples of the extent size; for a request of less than a sector above a
  multiple of the extent size that multiple itself is passed on, which the command cannot round up
  any more. A snapshot of less than a sector asks for nothing at all, although the caller asked for
  a size.
\<close>

theorem size_arguments_rounded:
  "\<exists>n. unat sz = 512 * n + unat sz mod 512 \<and> 512 * n \<le> unat sz \<and> unat sz < 512 * n + 512 \<and>
     cmd_argv (vg_create_plain_volume vg name sz) = [''lvcreate'', vg, ''-L'' @ dec (512 * n) @ ''b'', ''-n'', name] \<and>
     cmd_argv (vg_create_thin_pool_volume vg name sz) =
       [''lvcreate'', vg, ''-T'', ''-L'', dec (512 * n) @ ''b'', ''--thinpool'', name] \<and>
     cmd_argv (vg_create_thin_volume vg name sz pool) =
       [''lvcreate'', vg, ''--thinpool'', pool, ''-V'', dec (512 * n) @ ''b'', ''-n'', name] \<and>
     cmd_argv (lv_resize vg lv sz []) = [''lvresize'', full_name vg lv, ''-L'' @ dec (512 * n) @ ''b''] \<and>
     (sz \<noteq> 0 \<longrightarrow> cmd_argv (lv_create_snapshot vg lv name sz) =
        [''lvcreate'', ''-s'', full_name vg lv, ''-n'', name, ''-L'' @ dec (512 * n) @ ''b'']) \<and>
     (sz < 512 \<longrightarrow> n = 0) \<and>
     (\<forall>extent k r. 512 dvd extent \<and> unat sz = extent * k + r \<and> r < 512 \<longrightarrow> 512 * n = extent * k)"
proof -
  let ?n = "unat sz div 512"
  have "512 * ?n = extent * k" if "512 dvd extent" "unat sz = extent * k + r" "r < 512" for extent k r :: nat
    using that by (auto elim!: dvdE)
  moreover
  have n: "unat (round_512 sz) = 512 * ?n" by (simp add: unat_round_512 minus_mod_eq_mult_div)
  have "unat sz = 512 * ?n + unat sz mod 512" by simp
  moreover have "unat sz < 512 * ?n + 512" by (rule div_mod_bound)
  moreover have "sz < 512 \<longrightarrow> ?n = 0" by (auto simp: word_less_nat_alt)
  moreover have "sz \<noteq> 0 \<longleftrightarrow> 0 < sz" by (simp add: word_gt_0)
  ultimately show ?thesis
    by (intro exI [of _ ?n]) (simp add: vg_create_plain_volume_def vg_create_thin_pool_volume_def
        vg_create_thin_volume_def lv_resize_def lv_create_snapshot_def size_arg_def size_value_def n lookup_b_def)
qed

lemma size_arguments_rounded_witness:
  "cmd_argv (lv_create_snapshot ''vg0'' ''root'' ''snap'' 511) = [''lvcreate'', ''-s'', ''vg0/root'', ''-n'', ''snap'', ''-L0b'']"
proof -
  have "dec 0 = ''0''" by code_simp
  then show ?thesis
    using size_arguments_rounded [where sz = 511 and vg = "''vg0''" and lv = "''root''" and name = "''snap''" and pool = "[]"]
    by (auto simp: full_name_def)
qed

text \<open>A block shows the group exactly when the report has its physical volume.\<close>

definition shows_as_pv :: "world \<Rightarrow> volume_group \<Rightarrow> block \<Rightarrow> bool" where
  "shows_as_pv w g b \<longleftrightarrow>
     (case iface_physical_volume b of
        Some pv \<Rightarrow> strcmp0_eq (pvi_volume_group pv) (path_of (the_daemon w) (vgo_thing g))
      | None \<Rightarrow> False)"

lemma shows_as_pv_iff:
  assumes path: "path_of (the_daemon w) (vgo_thing g) = Some (group_path (vgo_name g))" and s: "shows_group g b b'"
  shows "shows_as_pv w g b' \<longleftrightarrow> find_pv_info g b \<noteq> None"
proof (cases "find_pv_info g b")
  case None
  then have "iface_physical_volume b' =
      (if Option.bind (iface_physical_volume b) pvi_volume_group = Some (group_path (vgo_name g))
       then None else iface_physical_volume b)"
    using s by (simp add: shows_group_def shows_pv_def)
  then show ?thesis using None
    by (cases "iface_physical_volume b") (simp_all add: shows_as_pv_def path strcmp0_eq_def)
next
  case (Some i)
  with s show ?thesis by (auto simp: shows_as_pv_def shows_group_def shows_pv_def path)
qed

lemma group_devices_iff:
  assumes "distinct (map fst (the_blocks w))"
  shows "dev \<in> set (group_devices w g) \<longleftrightarrow>
    (\<exists>k b. ht_lookup (the_blocks w) k = Some b \<and> blk_device b = dev \<and> shows_as_pv w g b)"
  using assms by (auto simp: group_devices_def shows_as_pv_def ht_lookup_def image_iff Bex_def)

lemma lookup_keys:
  assumes "map fst t' = map fst t"
  shows "ht_lookup t' k \<noteq> None \<longleftrightarrow> ht_lookup t k \<noteq> None"
proof -
  have "fst ` set t' = fst ` set t" using assms by (metis list.set_map)
  then show ?thesis by (metis ht_lookup_def map_of_eq_None_iff)
qed

lemma delete_launches:
  "\<exists>d job msg j. vg_handle_delete os tr uid w g True = (w\<lparr>the_daemon := d\<rparr>, AnswersOnJob job msg) \<and>
     jobs d = jobs (the_daemon w) @ [(job, ThreadedJob j)] \<and>
     job_func j = (\<lambda>_. fst (volume_group_delete_job_thread os (vgo_name g) (group_devices w g) tr))"
proof -
  obtain d job where l: "storage_daemon_launch_threaded_job (path_of (the_daemon w)) (the_daemon w)
      (Some (vgo_thing g)) ''lvm-vg-delete'' uid
      (\<lambda>_. fst (volume_group_delete_job_thread os (vgo_name g) (group_devices w g) tr)) False = (d, job)"
    by fastforce
  have "\<exists>j. jobs d = jobs (the_daemon w) @ [(job, ThreadedJob j)] \<and>
      job_func j = (\<lambda>_. fst (volume_group_delete_job_thread os (vgo_name g) (group_devices w g) tr))"
    using l by (auto simp: storage_daemon_launch_threaded_job_def export_job_def Let_def
        storage_job_add_thing_def storage_threaded_job_new_def job_new_def job.defs)
  then show ?thesis by (auto simp: vg_handle_delete_def l)
qed

lemma delete_wipes:
  "case volume_group_delete_job_thread os vg devices tr of ((ok, err), tr') \<Rightarrow>
     ok \<longrightarrow> wipes os devices (tr @ [EvSpawn [''vgremove'', ''-f'', vg]]) = Some tr'"
proof -
  let ?argv = "[''vgremove'', ''-f'', vg]"
  obtain r tr1 where r: "run_command os ''vgremove'' ?argv tr = (r, tr1)" by fastforce
  obtain res tr' where w: "wipe_all os devices tr1 = (res, tr')" by fastforce
  show ?thesis
    using r w run_command_trace [OF r] wipe_all_wipes [OF w]
    by (auto simp: volume_group_delete_job_thread_def verdict_def split: option.split if_splits)
qed

text \<open>
  C26: Deleting a group with its devices, after an update, launches a job whose function removes the
  group and wipes, when it succeeds, exactly the devices of the blocks that the report lists as
  physical volumes, by their own name or by one of their links.
\<close>

theorem delete_wipes_reported_devices:
  assumes "world_ok w" and "group_ok (the_daemon w) g \<or> group_new (the_daemon w) g"
    and "inj_on escape (ht_keys (logical_volumes g) \<union> set (visible_names (dicts_of info ''lvs'')))"
    and "update_with_variant os now (Inr info) w g = Inr (w', g', True)"
  shows "\<exists>d job msg j devices.
    vg_handle_delete os' tr uid w' g' True = (w'\<lparr>the_daemon := d\<rparr>, AnswersOnJob job msg) \<and>
    jobs d = jobs (the_daemon w') @ [(job, ThreadedJob j)] \<and>
    job_func j = (\<lambda>_. fst (volume_group_delete_job_thread os' (vgo_name g) devices tr)) \<and>
    (case volume_group_delete_job_thread os' (vgo_name g) devices tr of ((ok, err), tr') \<Rightarrow>
       ok \<longrightarrow> wipes os' devices (tr @ [EvSpawn [''vgremove'', ''-f'', vgo_name g]]) = Some tr') \<and>
    set devices = {blk_device b | k b. ht_lookup (the_blocks w) k = Some b \<and>
      (\<exists>i \<in> set (dicts_of info ''pvs''). \<exists>name \<in> set (blk_device b # blk_symlinks b). lookup_s i ''device'' = Some name)}"
proof -
  note r = group_update_run [OF assms]
  have wf: "distinct (map fst (the_blocks w'))" using r(1) by (simp add: world_ok_def blocks_ok_def)
  have path: "path_of (the_daemon w') (vgo_thing g') = Some (group_path (vgo_name g'))"
    using r(1,2) by (intro group_places_path(1)) (simp add: group_places_def world_ok_def)
  have block: "\<exists>b'. ht_lookup (the_blocks w') k = Some b' \<and> blk_device b' = blk_device b \<and>
      (shows_as_pv w' g' b' \<longleftrightarrow> find_pv_info g' b \<noteq> None)" if "ht_lookup (the_blocks w) k = Some b" for k b
    using r(9) [OF that] shows_as_pv_iff [OF path] by (auto simp: shows_group_def same_device_def)
  have source: "\<exists>b. ht_lookup (the_blocks w) k = Some b" if "ht_lookup (the_blocks w') k = Some b'" for k b'
    using lookup_keys [OF r(10), of k] that by auto
  have "set (group_devices w' g') =
      {blk_device b | k b. ht_lookup (the_blocks w) k = Some b \<and> find_pv_info g' b \<noteq> None}"
    unfolding set_eq_iff group_devices_iff [OF wf] using block source by (safe; fastforce)
  then have "set (group_devices w' g') = {blk_device b | k b. ht_lookup (the_blocks w) k = Some b \<and>
      (\<exists>i \<in> set (dicts_of info ''pvs''). \<exists>name \<in> set (blk_device b # blk_symlinks b). lookup_s i ''device'' = Some name)}"
    unfolding find_pv_info_reported [OF r(6)] reported_pv_iff .
  moreover obtain d job msg j where
    "vg_handle_delete os' tr uid w' g' True = (w'\<lparr>the_daemon := d\<rparr>, AnswersOnJob job msg)"
    "jobs d = jobs (the_daemon w') @ [(job, ThreadedJob j)]"
    "job_func j = (\<lambda>_. fst (volume_group_delete_job_thread os' (vgo_name g) (group_devices w' g') tr))"
    using delete_launches [of os' tr uid w' g'] unfolding r(3) by blast
  ultimately show ?thesis
    by (intro exI [of _ d] exI [of _ job] exI [of _ msg] exI [of _ j] exI [of _ "group_devices w' g'"] conjI delete_wipes)
qed

lemma delete_wipes_reported_devices_witness:
  "\<exists>w' g'. update_with_variant agreeing_os 0 (Inr demo_report) demo_world demo_group = Inr (w', g', True) \<and>
     (\<exists>d job msg j devices. vg_handle_delete agreeing_os [] 0 w' g' True = (w'\<lparr>the_daemon := d\<rparr>, AnswersOnJob job msg) \<and>
        jobs d = jobs (the_daemon w') @ [(job, ThreadedJob j)] \<and>
        job_func j = (\<lambda>_. fst (volume_group_delete_job_thread agreeing_os ''vg0'' devices [])) \<and>
        set devices = {''/dev/sda1''})"
proof -
  obtain w' g' where u: "update_with_variant agreeing_os 0 (Inr demo_report) demo_world demo_group = Inr (w', g', True)"
    by (rule demo_update)
  have "vgo_name demo_group = ''vg0''" by (simp add: demo_group_def storage_volume_group_new_def)
  moreover have "{blk_device b | k b. ht_lookup (the_blocks demo_world) k = Some b \<and>
      (\<exists>i \<in> set (dicts_of demo_report ''pvs''). \<exists>name \<in> set (blk_device b # blk_symlinks b).
         lookup_s i ''device'' = Some name)} = {''/dev/sda1''}"
    by (auto simp: ht_lookup_def demo_world_def demo_block_def demo_report_def dicts_of_def lookup_defs split: if_splits)
  moreover obtain d job msg j devices where
    "vg_handle_delete agreeing_os [] 0 w' g' True = (w'\<lparr>the_daemon := d\<rparr>, AnswersOnJob job msg)"
    "jobs d = jobs (the_daemon w') @ [(job, ThreadedJob j)]"
    "job_func j = (\<lambda>_. fst (volume_group_delete_job_thread agreeing_os (vgo_name demo_group) devices []))"
    "set devices = {blk_device b | k b. ht_lookup (the_blocks demo_world) k = Some b \<and>
      (\<exists>i \<in> set (dicts_of demo_report ''pvs''). \<exists>name \<in> set (blk_device b # blk_symlinks b).
         lookup_s i ''device'' = Some name)}"
    using delete_wipes_reported_devices [OF demo_hyps u, of agreeing_os "[]" 0] by (elim exE conjE) (rule that)
  ultimately show ?thesis using u by auto
qed

end
