(* ===== verification/Manager.thy ===== *)
theory Manager
  imports Group_Methods
begin

text \<open>
  The manager, \<open>src/manager.c\<close>: the tables of volume groups and of block devices, the cycle
  that asks LVM for its groups and updates each, the delayed updates that udev events ask for, and
  the creation of a group.
\<close>

section \<open>State\<close>

text \<open>
  \<open>UpdateData\<close>: one cycle of updates, with the task of the start-up cycle to complete.
\<close>

record update_data =
  upd_ignore_locks :: bool
  upd_task :: bool
  pending_vg_updates :: int

text \<open>
  The blocks are those of \<open>world\<close>. The data of a cycle is known by a number until it is freed.
  \<open>list_helpers\<close> and \<open>group_helpers\<close> are the helpers that run, with the cycle and the group
  they were started for; a group that left the table lives on in \<open>dropped_groups\<close>, where a helper
  may still report to it. \<open>tasks_done\<close> counts the completions of the start-up task.
\<close>

record manager =
  mgr_world :: world
  name_to_volume_group :: "volume_group htab"
  dropped_groups :: "volume_group list"
  lvm_delayed_update_id :: bool
  update_datas :: "(nat \<times> update_data) list"
  list_helpers :: "nat list"
  group_helpers :: "(nat \<times> thing) list"
  tasks_done :: nat
  next_update :: nat

definition storage_manager_new :: "daemon \<Rightarrow> manager" where
  "storage_manager_new d =
     \<lparr>mgr_world = \<lparr>the_daemon = d, the_blocks = [], the_calls = []\<rparr>, name_to_volume_group = [],
      dropped_groups = [], lvm_delayed_update_id = False, update_datas = [], list_helpers = [],
      group_helpers = [], tasks_done = 0, next_update = 0\<rparr>"

section \<open>The end of a cycle\<close>

definition trigger_delayed_lvm_update :: "manager \<Rightarrow> manager" where
  "trigger_delayed_lvm_update self =
     (if lvm_delayed_update_id self then self else self\<lparr>lvm_delayed_update_id := True\<rparr>)"

definition lvm_update_done :: "nat \<Rightarrow> update_data \<Rightarrow> manager \<Rightarrow> manager" where
  "lvm_update_done u data self =
     (let self = (if upd_ignore_locks data then trigger_delayed_lvm_update self else self);
          self = (if upd_task data then self\<lparr>tasks_done := tasks_done self + 1\<rparr> else self)
      in self\<lparr>update_datas := filter (\<lambda>(v, _). v \<noteq> u) (update_datas self)\<rparr>)"

text \<open>The counter of a cycle goes up or down.\<close>

definition count_pending :: "nat \<Rightarrow> int \<Rightarrow> (nat \<times> update_data) list \<Rightarrow> (nat \<times> update_data) list" where
  "count_pending u n l =
     map (\<lambda>(v, d). (v, if v = u then d\<lparr>pending_vg_updates := pending_vg_updates d + n\<rparr> else d)) l"

definition lvm_vg_update_done :: "nat \<Rightarrow> manager \<Rightarrow> abort + manager" where
  "lvm_vg_update_done u self =
     (case map_of (update_datas self) u of
        None \<Rightarrow> Inl (UseAfterFree ''data->pending_vg_updates'')
      | Some data \<Rightarrow>
          let data = data\<lparr>pending_vg_updates := pending_vg_updates data - 1\<rparr>;
              self = self\<lparr>update_datas := count_pending u (- 1) (update_datas self)\<rparr>
          in Inr (if pending_vg_updates data = 0 then lvm_update_done u data self else self))"

section \<open>The answer to the list of groups\<close>

text \<open>Groups that are not listed are disposed and leave the table.\<close>

fun remove_obsolete_groups ::
  "string set \<Rightarrow> world \<Rightarrow> volume_group htab \<Rightarrow> abort + world \<times> volume_group htab \<times> volume_group list" where
  "remove_obsolete_groups names w [] = Inr (w, [], [])"
| "remove_obsolete_groups names w ((name, g) # gs) =
     (if name \<in> names
      then ebind (remove_obsolete_groups names w gs) (\<lambda>(w, gs, dropped). Inr (w, (name, g) # gs, dropped))
      else
        ebind (storage_volume_group_dispose w g) (\<lambda>(w, g).
        ebind (remove_obsolete_groups names w gs) (\<lambda>(w, gs, dropped). Inr (w, gs, g # dropped))))"

text \<open>
  A listed group is made if it is new, and its helper is started; when that fails, the group gets
  the error at once.
\<close>

definition add_group :: "string \<Rightarrow> manager \<Rightarrow> manager \<times> volume_group" where
  "add_group name self =
     (case ht_lookup (name_to_volume_group self) name of
        Some g \<Rightarrow> (self, g)
      | None \<Rightarrow>
          let w = mgr_world self;
              (d, t) = new_thing (the_daemon w) StorageVolumeGroup;
              g = storage_volume_group_new t name
          in (self\<lparr>mgr_world := w\<lparr>the_daemon := d\<rparr>,
                   name_to_volume_group := ht_insert (name_to_volume_group self) name g\<rparr>, g))"

definition update_listed_group ::
  "env \<Rightarrow> int \<Rightarrow> (string list \<Rightarrow> gerror + nat) \<Rightarrow> nat \<Rightarrow> bool \<Rightarrow> string \<Rightarrow> manager \<Rightarrow> abort + manager" where
  "update_listed_group env now spawn u ignore_locks name self =
     (let (self, g) = add_group name self;
          self = self\<lparr>update_datas := count_pending u 1 (update_datas self)\<rparr>
      in case storage_daemon_spawn_for_variant (env_lib env) (env_data env) (the_daemon (mgr_world self)) spawn
                (storage_volume_group_update g ignore_locks) of
           Inr _ \<Rightarrow> Inr (self\<lparr>group_helpers := group_helpers self @ [(u, vgo_thing g)]\<rparr>)
         | Inl failure \<Rightarrow>
             ebind (update_with_variant (env_os env) now (answer_of env failure) (mgr_world self) g)
               (\<lambda>(w, g, called).
                let self = self\<lparr>mgr_world := w,
                      name_to_volume_group := ht_insert (name_to_volume_group self) name g\<rparr>
                in if called then lvm_vg_update_done u self else Inr self))"

fun update_listed_groups ::
  "env \<Rightarrow> int \<Rightarrow> (string list \<Rightarrow> gerror + nat) \<Rightarrow> nat \<Rightarrow> bool \<Rightarrow> string list \<Rightarrow> manager \<Rightarrow> abort + manager" where
  "update_listed_groups env now spawn u ignore_locks [] self = Inr self"
| "update_listed_groups env now spawn u ignore_locks (name # names) self =
     ebind (update_listed_group env now spawn u ignore_locks name self)
       (update_listed_groups env now spawn u ignore_locks names)"

text \<open>An error is only logged: the data of the cycle is kept, and its task is never completed.\<close>

definition lvm_update_from_variant ::
  "env \<Rightarrow> int \<Rightarrow> (string list \<Rightarrow> gerror + nat) \<Rightarrow> nat \<Rightarrow> gerror + string list \<Rightarrow> manager \<Rightarrow> abort + manager" where
  "lvm_update_from_variant env now spawn u answer self =
     (case answer of
        Inl _ \<Rightarrow> Inr self
      | Inr names \<Rightarrow>
          (case map_of (update_datas self) u of
             None \<Rightarrow> Inl (UseAfterFree ''data->self'')
           | Some data \<Rightarrow>
               ebind (remove_obsolete_groups (set names) (mgr_world self) (name_to_volume_group self))
                 (\<lambda>(w, gs, dropped).
               ebind (update_listed_groups env now spawn u (upd_ignore_locks data) names
                        (self\<lparr>mgr_world := w, name_to_volume_group := gs,
                              dropped_groups := dropped_groups self @ dropped\<rparr>))
                 (\<lambda>self.
                  case map_of (update_datas self) u of
                    None \<Rightarrow> Inl (UseAfterFree ''data->pending_vg_updates'')
                  | Some data \<Rightarrow>
                      Inr (if pending_vg_updates data = 0 then lvm_update_done u data self else self)))))"

section \<open>Starting a cycle\<close>

definition lvm_list_argv :: "string list" where
  "lvm_list_argv = [''storaged-lvm-helper'', ''-b'', ''list'']"

definition lvm_update ::
  "env \<Rightarrow> int \<Rightarrow> (string list \<Rightarrow> gerror + nat) \<Rightarrow> bool \<Rightarrow> bool \<Rightarrow> manager \<Rightarrow> abort + manager" where
  "lvm_update env now spawn ignore_locks task self =
     (let u = next_update self;
          self = self\<lparr>next_update := u + 1,
                      update_datas := update_datas self @
                        [(u, \<lparr>upd_ignore_locks = ignore_locks, upd_task = task, pending_vg_updates = 0\<rparr>)]\<rparr>
      in case storage_daemon_spawn_for_variant (env_lib env) (env_data env) (the_daemon (mgr_world self)) spawn
                lvm_list_argv of
           Inr _ \<Rightarrow> Inr (self\<lparr>list_helpers := list_helpers self @ [u]\<rparr>)
         | Inl failure \<Rightarrow> lvm_update_from_variant env now spawn u (names_of env failure) self)"

definition delayed_lvm_update ::
  "env \<Rightarrow> int \<Rightarrow> (string list \<Rightarrow> gerror + nat) \<Rightarrow> manager \<Rightarrow> abort + manager" where
  "delayed_lvm_update env now spawn self =
     ebind (lvm_update env now spawn False False self) (\<lambda>self. Inr (self\<lparr>lvm_delayed_update_id := False\<rparr>))"

definition storage_manager_init_async ::
  "env \<Rightarrow> int \<Rightarrow> (string list \<Rightarrow> gerror + nat) \<Rightarrow> manager \<Rightarrow> abort + manager" where
  "storage_manager_init_async env now spawn self = lvm_update env now spawn True True self"

section \<open>The answer about a group\<close>

text \<open>The group a helper reports to, in the table or among those that left it.\<close>

fun find_group :: "thing \<Rightarrow> volume_group htab \<Rightarrow> (string \<times> volume_group) option" where
  "find_group t [] = None"
| "find_group t ((k, g) # gs) = (if vgo_thing g = t then Some (k, g) else find_group t gs)"

definition on_group_answer ::
  "env \<Rightarrow> int \<Rightarrow> nat \<times> thing \<Rightarrow> gerror + vardict \<Rightarrow> manager \<Rightarrow> abort + manager" where
  "on_group_answer env now ut answer self =
     (let stored = find_group (snd ut) (name_to_volume_group self);
          g = (case stored of Some (_, g) \<Rightarrow> Some g
               | None \<Rightarrow> find (\<lambda>g. vgo_thing g = snd ut) (dropped_groups self))
      in case g of
           None \<Rightarrow> Inl (UseAfterFree ''data->self'')
         | Some g \<Rightarrow>
             ebind (update_with_variant (env_os env) now answer (mgr_world self) g)
               (\<lambda>(w, g, called).
                let self = (case stored of
                      Some (k, _) \<Rightarrow>
                        self\<lparr>mgr_world := w, name_to_volume_group := ht_insert (name_to_volume_group self) k g\<rparr>
                    | None \<Rightarrow>
                        self\<lparr>mgr_world := w, dropped_groups :=
                          map (\<lambda>h. if vgo_thing h = vgo_thing g then g else h) (dropped_groups self)\<rparr>)
                in if called then lvm_vg_update_done (fst ut) self else Inr self))"

section \<open>Events of udev\<close>

definition is_logical_volume :: "(string \<times> string) list \<Rightarrow> bool" where
  "is_logical_volume device = nonempty (map_of device ''DM_VG_NAME'')"

definition has_physical_volume_label :: "(string \<times> string) list \<Rightarrow> bool" where
  "has_physical_volume_label device = strcmp0_eq (map_of device ''ID_FS_TYPE'') (Some ''LVM2_member'')"

text \<open>\<open>real_block\<close> is the path of the block udisks has for the device number, if it has one.\<close>

definition storage_manager_find_block :: "manager \<Rightarrow> string \<Rightarrow> block option" where
  "storage_manager_find_block self udisks_path = ht_lookup (the_blocks (mgr_world self)) udisks_path"

definition find_block :: "manager \<Rightarrow> string option \<Rightarrow> block option" where
  "find_block self real_block =
     (case real_block of Some path \<Rightarrow> storage_manager_find_block self path | None \<Rightarrow> None)"

definition is_recorded_as_physical_volume :: "manager \<Rightarrow> string option \<Rightarrow> bool" where
  "is_recorded_as_physical_volume self real_block =
     (case find_block self real_block of
        Some block \<Rightarrow> iface_physical_volume block \<noteq> None
      | None \<Rightarrow> False)"

definition handle_block_uevent_for_lvm ::
  "manager \<Rightarrow> (string \<times> string) list \<Rightarrow> string option \<Rightarrow> manager" where
  "handle_block_uevent_for_lvm self device real_block =
     (if is_logical_volume device \<or> has_physical_volume_label device \<or>
         is_recorded_as_physical_volume self real_block
      then trigger_delayed_lvm_update self else self)"

section \<open>Block devices that come and go\<close>

fun update_block_from_all_volume_groups ::
  "volume_group htab \<Rightarrow> daemon \<Rightarrow> block \<Rightarrow> abort + daemon \<times> block" where
  "update_block_from_all_volume_groups [] d block = Inr (d, block)"
| "update_block_from_all_volume_groups ((_, g) # gs) d block =
     ebind (storage_volume_group_update_block g d block)
       (\<lambda>(d, block). update_block_from_all_volume_groups gs d block)"

text \<open>
  An interface of a udisks object that is not a block (\<open>None\<close>) is ignored. Inserting the overlay
  drops the last reference to one that was at its path, which disposes it.
\<close>

definition on_udisks_interface_added :: "block option \<Rightarrow> manager \<Rightarrow> abort + manager" where
  "on_udisks_interface_added real_block self =
     (case real_block of
        None \<Rightarrow> Inr self
      | Some b \<Rightarrow>
          let w = mgr_world self;
              overlay = b\<lparr>iface_physical_volume := None, iface_logical_volume := None\<rparr>;
              path = blk_path b;
              d = (case ht_lookup (the_blocks w) path of
                     Some old \<Rightarrow> fst (storage_block_dispose (the_daemon w) old)
                   | None \<Rightarrow> the_daemon w)
          in ebind (update_block_from_all_volume_groups (name_to_volume_group self) d overlay)
               (\<lambda>(d, overlay). Inr (self\<lparr>mgr_world := w\<lparr>the_daemon := d,
                  the_blocks := ht_insert (the_blocks w) path overlay\<rparr>\<rparr>)))"

fun on_udisks_object_added :: "block option list \<Rightarrow> manager \<Rightarrow> abort + manager" where
  "on_udisks_object_added [] self = Inr self"
| "on_udisks_object_added (i # is) self = ebind (on_udisks_interface_added i self) (on_udisks_object_added is)"

definition on_udisks_interface_removed :: "string option \<Rightarrow> manager \<Rightarrow> manager" where
  "on_udisks_interface_removed gone self =
     (case gone of
        None \<Rightarrow> self
      | Some path \<Rightarrow>
          let w = mgr_world self in
          case ht_lookup (the_blocks w) path of
            None \<Rightarrow> self
          | Some overlay \<Rightarrow>
              self\<lparr>mgr_world := w\<lparr>the_daemon := fst (storage_block_dispose (the_daemon w) overlay),
                                the_blocks := ht_remove (the_blocks w) path\<rparr>\<rparr>)"

definition on_udisks_object_removed :: "string option list \<Rightarrow> manager \<Rightarrow> manager" where
  "on_udisks_object_removed interfaces self = fold on_udisks_interface_removed interfaces self"

text \<open>
  \<open>udisks_objects\<close> are the interfaces of the objects udisks has at the start, \<open>None\<close> when the daemon
  cannot connect to it.
\<close>

definition storage_manager_init :: "block option list list option \<Rightarrow> daemon \<Rightarrow> abort + manager" where
  "storage_manager_init udisks_objects d =
     (case udisks_objects of
        None \<Rightarrow> Inr (storage_manager_new d)
      | Some objs \<Rightarrow> on_udisks_object_added (concat objs) (storage_manager_new d))"

section \<open>Creating a group\<close>

definition volume_group_create_job_thread ::
  "os \<Rightarrow> string \<Rightarrow> string list \<Rightarrow> systrace \<Rightarrow> (bool \<times> gerror option) \<times> systrace" where
  "volume_group_create_job_thread os vgname devices tr =
     (case wipe_all os devices tr of
        (Some e, tr) \<Rightarrow> (verdict (Some e), tr)
      | (None, tr) \<Rightarrow>
          (case run_command os ''vgcreate'' ([''vgcreate'', vgname] @ devices) tr of
             (Some e, tr) \<Rightarrow> (verdict (Some e), tr)
           | (None, tr) \<Rightarrow> (verdict None, fold (trigger_udev os) devices tr)))"

text \<open>The blocks of the call, in its order, each checked before the next is looked up.\<close>

fun collect_blocks ::
  "os \<Rightarrow> block htab \<Rightarrow> nat \<Rightarrow> string list \<Rightarrow> systrace \<Rightarrow> (gerror + block list) \<times> systrace" where
  "collect_blocks os bs n [] tr = (Inr [], tr)"
| "collect_blocks os bs n (path # paths) tr =
     (case ht_lookup bs path of
        None \<Rightarrow>
          (Inl (udisks_error UDISKS_ERROR_FAILED
             (''Invalid object path '' @ path @ '' at index '' @ dec n)), tr)
      | Some block \<Rightarrow>
          (case storage_block_is_unused os block tr of
             (Some e, tr) \<Rightarrow> (Inl e, tr)
           | (None, tr) \<Rightarrow> apfst (map_sum id (Cons block)) (collect_blocks os bs (n + 1) paths tr)))"

definition handle_volume_group_create ::
  "os \<Rightarrow> systrace \<Rightarrow> u32 \<Rightarrow> manager \<Rightarrow> string \<Rightarrow> string list \<Rightarrow> manager \<times> handled" where
  "handle_volume_group_create os tr_run uid self arg_name arg_blocks =
     (let w = mgr_world self;
          (blocks, tr) = collect_blocks os (the_blocks w) 0 arg_blocks (the_calls w);
          self = self\<lparr>mgr_world := w\<lparr>the_calls := tr\<rparr>\<rparr>
      in case blocks of
           Inl e \<Rightarrow> (self, Answered (ReturnError e))
         | Inr bs \<Rightarrow>
             let (d, job) = storage_daemon_launch_threaded_job (path_of (the_daemon w)) (the_daemon w) None
                   ''lvm-vg-create'' uid
                   (\<lambda>_. fst (volume_group_create_job_thread os arg_name (map blk_device bs) tr_run)) False
             in (self\<lparr>mgr_world := w\<lparr>the_daemon := d, the_calls := tr\<rparr>\<rparr>,
                 AnswersOnObject job ''Error creating volume group: ''))"

section \<open>The manager as a machine\<close>

text \<open>
  What the main loop delivers: the start, the end of the helper that lists the groups or of the
  \<open>i\<close>-th helper that shows one, the timer if it is armed, and the events of udev and udisks.
\<close>

datatype manager_event =
    InitAsync int "string list \<Rightarrow> gerror + nat"
  | ListDone int "string list \<Rightarrow> gerror + nat" nat reader_result
  | GroupDone int nat reader_result
  | DelayedTimer int "string list \<Rightarrow> gerror + nat"
  | Uevent "(string \<times> string) list" "string option"
  | ObjectAdded "block option list"
  | ObjectRemoved "string option list"

definition drop_nth :: "nat \<Rightarrow> 'a list \<Rightarrow> 'a list" where
  "drop_nth i xs = take i xs @ drop (Suc i) xs"

fun manager_step :: "env \<Rightarrow> manager \<Rightarrow> manager_event \<Rightarrow> abort + manager" where
  "manager_step env self (InitAsync now spawn) = storage_manager_init_async env now spawn self"
| "manager_step env self (ListDone now spawn u result) =
     (if u \<in> set (list_helpers self)
      then lvm_update_from_variant env now spawn u (names_of env result)
             (self\<lparr>list_helpers := filter (\<lambda>v. v \<noteq> u) (list_helpers self)\<rparr>)
      else Inr self)"
| "manager_step env self (GroupDone now i result) =
     (if i < length (group_helpers self)
      then on_group_answer env now (group_helpers self ! i) (answer_of env result)
             (self\<lparr>group_helpers := drop_nth i (group_helpers self)\<rparr>)
      else Inr self)"
| "manager_step env self (DelayedTimer now spawn) =
     (if lvm_delayed_update_id self then delayed_lvm_update env now spawn self else Inr self)"
| "manager_step env self (Uevent device real_block) = Inr (handle_block_uevent_for_lvm self device real_block)"
| "manager_step env self (ObjectAdded interfaces) = on_udisks_object_added interfaces self"
| "manager_step env self (ObjectRemoved interfaces) = Inr (on_udisks_object_removed interfaces self)"

end
