(* ===== verification/Manager_Cycles.thy ===== *)
theory Manager_Cycles
  imports Manager
begin

text \<open>
  The cycles of updates of the manager: the data of a cycle is freed once and not used afterwards,
  the start-up task is completed at most once, what strands a cycle, and that events of udev lead
  to an update.
\<close>

section \<open>Results that do not use freed data\<close>

definition no_use_after_free :: "abort + 'a \<Rightarrow> bool" where
  "no_use_after_free r \<longleftrightarrow> (\<forall>x. r \<noteq> Inl (UseAfterFree x))"

named_theorems no_uaf

lemma no_uaf_Inr [simp, no_uaf]: "no_use_after_free (Inr a)"
  and no_uaf_Null [simp]: "no_use_after_free (Inl (NullDereference x))"
  and no_uaf_Uninit [simp]: "no_use_after_free (Inl (UninitialisedRead x))"
  by (simp_all add: no_use_after_free_def)

lemma no_uaf_bind [no_uaf]:
  "no_use_after_free r \<Longrightarrow> (\<And>a. r = Inr a \<Longrightarrow> no_use_after_free (f a)) \<Longrightarrow> no_use_after_free (ebind r f)"
  by (cases r) (auto simp: no_use_after_free_def)

lemma no_uaf_map [no_uaf]: "no_use_after_free r \<Longrightarrow> no_use_after_free (map_sum id f r)"
  by (cases r) (auto simp: no_use_after_free_def)

lemma no_uaf_notify: "no_use_after_free (on_notify_progress (self :: 'b job_scheme) now)"
  by (auto simp: on_notify_progress_def Let_def split: option.split)

lemma no_uaf_report_progress: "no_use_after_free (report_progress now p j)"
  by (cases j) (auto simp: set_progress_def Let_def intro!: no_uaf no_uaf_notify)

lemma no_uaf_report_objects: "no_use_after_free (report_objects now bs dev p paths j)"
  by (induction paths arbitrary: j) (auto intro!: no_uaf no_uaf_report_progress split: option.split)

lemma no_uaf_report_jobs: "no_use_after_free (report_jobs now bs op dev p ts d)"
  by (induction ts arbitrary: d) (auto intro!: no_uaf no_uaf_report_objects split: option.split)

lemma no_uaf_operations: "no_use_after_free (update_operations now name i w polling)"
  by (auto simp: update_operations_def update_progress_for_device_def intro!: no_uaf no_uaf_report_jobs split: option.split)

lemma no_uaf_update_volume: "no_use_after_free (update_volume os now i s)"
  by (auto simp: update_volume_def Let_def intro!: no_uaf no_uaf_operations split: option.split prod.split)

lemma no_uaf_update_volumes: "no_use_after_free (update_volumes os now is s)"
  by (induction "is" arbitrary: s) (auto intro!: no_uaf no_uaf_update_volume)

lemma no_uaf_update_block: "no_use_after_free (storage_volume_group_update_block g d b)"
  by (auto simp: storage_volume_group_update_block_def update_block_lv_def intro!: no_uaf split: option.split prod.split)

lemma no_uaf_all_blocks: "no_use_after_free (update_all_blocks g w)"
proof -
  have "no_use_after_free (each_block (storage_volume_group_update_block g) d bs)" for d bs
    by (induction bs arbitrary: d) (auto intro!: no_uaf no_uaf_update_block split: prod.split)
  then show ?thesis by (auto simp: update_all_blocks_def intro!: no_uaf split: prod.split)
qed

lemma no_uaf_group_update: "no_use_after_free (update_with_variant os now answer w g)"
  by (auto simp: update_with_variant_def Let_def intro!: no_uaf no_uaf_update_volumes no_uaf_all_blocks
      split: sum.split prod.split)

lemma no_uaf_group_dispose: "no_use_after_free (storage_volume_group_dispose w g)"
  by (auto simp: storage_volume_group_dispose_def Let_def intro!: no_uaf no_uaf_all_blocks split: option.split)

lemma no_uaf_all_groups: "no_use_after_free (update_block_from_all_volume_groups gs d b)"
  by (induction gs d b rule: update_block_from_all_volume_groups.induct)
    (auto intro!: no_uaf no_uaf_update_block split: prod.split)

lemma no_uaf_added: "no_use_after_free (on_udisks_object_added is m)"
proof (induction "is" arbitrary: m)
  case (Cons i "is")
  have "no_use_after_free (on_udisks_interface_added i m)"
    by (auto simp: on_udisks_interface_added_def Let_def intro!: no_uaf no_uaf_all_groups split: option.split prod.split)
  with Cons.IH show ?case by (auto intro: no_uaf)
qed simp

section \<open>What an update keeps of a group\<close>

lemma update_volume_thing:
  assumes "update_volume os now i (w, g, p, ns) = Inr (w', g', p', ns')"
  shows "vgo_thing g' = vgo_thing g"
proof -
  obtain name where name: "lookup_s i ''name'' = Some name"
    using assms by (auto simp: update_volume_def split: option.splits)
  obtain r where r: "update_operations now name i w p = Inr r"
    using assms name by (auto simp: update_volume_def ebind_Inr)
  obtain w1 q where "r = (w1, q)" by fastforce
  with assms r show ?thesis
    by (auto simp: update_volume_def name Let_def split: option.splits if_splits prod.splits)
qed

lemma update_volumes_thing:
  "update_volumes os now is (w, g, p, ns) = Inr (w', g', p', ns') \<Longrightarrow> vgo_thing g' = vgo_thing g"
proof (induction "is" arbitrary: w g p ns)
  case (Cons i "is")
  then obtain w1 g1 p1 ns1 where "update_volume os now i (w, g, p, ns) = Inr (w1, g1, p1, ns1)"
    and "update_volumes os now is (w1, g1, p1, ns1) = Inr (w', g', p', ns')"
    by (auto simp: ebind_Inr)
  with Cons.IH update_volume_thing show ?case by metis
qed simp

lemma published_group_thing: "vgo_thing (snd (published_group w g)) = vgo_thing g"
  by (simp add: published_group_def)

lemma update_with_variant_thing:
  assumes "update_with_variant os now answer w g = Inr (w', g', called)"
  shows "vgo_thing g' = vgo_thing g" and "called \<Longrightarrow> \<exists>info. answer = Inr info \<and> last_info g \<noteq> Some info"
proof -
  have "vgo_thing g' = vgo_thing g \<and> (called \<longrightarrow> (\<exists>info. answer = Inr info \<and> last_info g \<noteq> Some info))"
  proof (cases answer)
    case (Inl e)
    with assms show ?thesis by (auto simp: update_with_variant_def Let_def split: if_splits)
  next
    case (Inr info)
    obtain w1 g1 where 1: "published_group w (volume_group_update_props g info) = (w1, g1)" by fastforce
    have g1: "vgo_thing g1 = vgo_thing g" "last_info g1 = last_info g"
      using 1 by (auto simp: published_group_def split: if_splits)
    show ?thesis
    proof (cases "last_info g = Some info")
      case True
      with assms g1 show ?thesis by (auto simp: Inr update_with_variant_eq 1)
    next
      case False
      then obtain r where r: "update_volumes os now (dicts_of info ''lvs'') (w1, g1\<lparr>last_info := Some info\<rparr>, False, []) = Inr r"
        using assms g1 unfolding Inr update_with_variant_eq 1 by (auto simp: Let_def ebind_Inr)
      obtain w2 g2 p2 ns2 where "r = (w2, g2, p2, ns2)" by (cases r)
      with r have "vgo_thing g2 = vgo_thing g" using update_volumes_thing g1 by fastforce
      with assms False g1 r \<open>r = _\<close> show ?thesis
        unfolding Inr update_with_variant_eq 1 by (auto simp: Let_def ebind_Inr split: prod.splits)
    qed
  qed
  then show "vgo_thing g' = vgo_thing g" and "called \<Longrightarrow> \<exists>info. answer = Inr info \<and> last_info g \<noteq> Some info"
    by blast+
qed

lemma dispose_thing:
  "storage_volume_group_dispose w g = Inr (w', g') \<Longrightarrow> vgo_thing g' = vgo_thing g"
  by (auto simp: storage_volume_group_dispose_def Let_def ebind_Inr split: option.splits)

lemma variant_spawn_failure:
  "storage_daemon_spawn_for_variant lib data d spawn argv = Inl f \<Longrightarrow> \<exists>e. f = ReaderError e"
  by (auto simp: storage_daemon_spawn_for_variant_def split: sum.splits)

section \<open>The invariant of the cycles\<close>

definition known_groups :: "manager \<Rightarrow> thing set" where
  "known_groups m = (vgo_thing \<circ> snd) ` set (name_to_volume_group m) \<union> vgo_thing ` set (dropped_groups m)"

text \<open>The helpers that show a group for the cycle \<open>u\<close>, and the cycles that owe a completion.\<close>

definition helpers_of :: "nat \<Rightarrow> manager \<Rightarrow> nat" where
  "helpers_of u m = count_list (map fst (group_helpers m)) u"

definition open_tasks :: "manager \<Rightarrow> nat" where
  "open_tasks m = length (filter (upd_task \<circ> snd) (update_datas m))"

definition tasks :: "manager \<Rightarrow> nat" where
  "tasks m = tasks_done m + open_tasks m"

text \<open>
  The data of a cycle lives while a helper may use it: a helper that lists the groups has counted
  nothing yet, and a cycle waits for at least as many groups as it has helpers.
\<close>

abbreviation live :: "manager \<Rightarrow> nat \<Rightarrow> update_data option" where
  "live m \<equiv> map_of (update_datas m)"

definition cycles_ok :: "manager \<Rightarrow> bool" where
  "cycles_ok m \<longleftrightarrow>
     ht_wf (name_to_volume_group m) \<and> distinct (map fst (update_datas m)) \<and>
     (\<forall>u d. live m u = Some d \<longrightarrow>
        u < next_update m \<and> int (helpers_of u m) \<le> pending_vg_updates d \<and>
        (u \<in> set (list_helpers m) \<longrightarrow> pending_vg_updates d = 0)) \<and>
     (\<forall>u\<in>set (list_helpers m). live m u \<noteq> None) \<and>
     (\<forall>h\<in>set (group_helpers m). live m (fst h) \<noteq> None \<and> snd h \<in> known_groups m)"

lemma cycles_okD:
  "cycles_ok m \<Longrightarrow> live m u = Some d \<Longrightarrow>
   u < next_update m \<and> int (helpers_of u m) \<le> pending_vg_updates d \<and>
   (u \<in> set (list_helpers m) \<longrightarrow> pending_vg_updates d = 0)"
  by (simp add: cycles_ok_def del: map_of_eq_Some_iff)

definition run_ok :: "('a \<Rightarrow> bool) \<Rightarrow> abort + 'a \<Rightarrow> bool" where
  "run_ok P r = (case r of Inl a \<Rightarrow> \<forall>x. a \<noteq> UseAfterFree x | Inr m \<Rightarrow> P m)"

lemma run_ok_Inr [simp]: "run_ok P (Inr m) = P m"
  by (simp add: run_ok_def)

lemma run_ok_bind:
  "no_use_after_free r \<Longrightarrow> (\<And>a. r = Inr a \<Longrightarrow> run_ok Q (f a)) \<Longrightarrow> run_ok Q (ebind r f)"
  by (cases r) (auto simp: run_ok_def no_use_after_free_def)

lemma run_ok_seq:
  "run_ok P r \<Longrightarrow> (\<And>a. P a \<Longrightarrow> run_ok Q (f a)) \<Longrightarrow> run_ok Q (ebind r f)"
  by (cases r) (auto simp: run_ok_def)

lemma run_ok_mono: "run_ok P r \<Longrightarrow> (\<And>a. P a \<Longrightarrow> Q a) \<Longrightarrow> run_ok Q r"
  by (cases r) (auto simp: run_ok_def)

text \<open>Steps that touch only the groups and the blocks keep the cycles.\<close>

lemma cycles_ok_frame:
  assumes "cycles_ok m" and "ht_wf (name_to_volume_group m')" and "known_groups m \<subseteq> known_groups m'"
    and "update_datas m' = update_datas m" and "list_helpers m' = list_helpers m"
    and "group_helpers m' = group_helpers m" and "next_update m' = next_update m"
  shows "cycles_ok m'"
  using assms unfolding cycles_ok_def helpers_of_def by fastforce

lemma in_table: "ht_wf t \<Longrightarrow> (u, d) \<in> set t \<longleftrightarrow> ht_lookup t u = Some d"
  by (simp add: ht_wf_def ht_lookup_def)

lemma helpers_of_simps [simp]:
  "helpers_of u (m\<lparr>update_datas := l\<rparr>) = helpers_of u m"
  "helpers_of u (m\<lparr>lvm_delayed_update_id := b\<rparr>) = helpers_of u m"
  "helpers_of u (m\<lparr>tasks_done := n\<rparr>) = helpers_of u m"
  "helpers_of u (m\<lparr>list_helpers := ls\<rparr>) = helpers_of u m"
  "helpers_of u (m\<lparr>mgr_world := w\<rparr>) = helpers_of u m"
  by (simp_all add: helpers_of_def)

lemma helpers_of_0: "helpers_of u m = 0 \<longleftrightarrow> (\<forall>h\<in>set (group_helpers m). fst h \<noteq> u)"
  by (auto simp: helpers_of_def count_list_0_iff)

lemma known_groups_simps [simp]:
  "known_groups (m\<lparr>update_datas := l\<rparr>) = known_groups m"
  "known_groups (m\<lparr>lvm_delayed_update_id := b\<rparr>) = known_groups m"
  "known_groups (m\<lparr>tasks_done := n\<rparr>) = known_groups m"
  "known_groups (m\<lparr>list_helpers := ls\<rparr>) = known_groups m"
  "known_groups (m\<lparr>group_helpers := hs\<rparr>) = known_groups m"
  "known_groups (m\<lparr>mgr_world := w\<rparr>) = known_groups m"
  by (simp_all add: known_groups_def)

text \<open>The table of the open cycles.\<close>

lemma live_freed [simp]: "map_of (filter (\<lambda>(v, _). v \<noteq> u) l) = (map_of l)(u := None)"
  by (induction l) auto

lemma live_counted [simp]:
  "map_of (count_pending u n l) =
   (map_of l)(u := map_option (\<lambda>d. d\<lparr>pending_vg_updates := pending_vg_updates d + n\<rparr>) (map_of l u))"
  by (induction l) (auto simp: count_pending_def)

lemma keys_counted [simp]: "map fst (count_pending u n l) = map fst l"
  by (induction l) (auto simp: count_pending_def)

lemma tasks_counted [simp]: "tasks (m\<lparr>update_datas := count_pending u n (update_datas m)\<rparr>) = tasks m"
proof -
  have "length (filter (upd_task \<circ> snd) (count_pending u n l)) = length (filter (upd_task \<circ> snd) l)" for l
    by (induction l) (auto simp: count_pending_def split: if_splits)
  then show ?thesis by (simp add: tasks_def open_tasks_def)
qed

lemma length_filter_drop_key:
  "distinct (map fst l) \<Longrightarrow> map_of l u = Some d \<Longrightarrow>
   length (filter P l) = length (filter P (filter (\<lambda>(v, _). v \<noteq> u) l)) + (if P (u, d) then 1 else 0)"
proof (induction l)
  case (Cons a l)
  have same: "filter (\<lambda>(v, _). v \<noteq> u) l = l" if "u \<notin> fst ` set l"
    using that by (force simp: filter_id_conv)
  show ?case
  proof (cases "fst a = u")
    case True
    with Cons.prems same show ?thesis by (cases a) auto
  next
    case False
    with Cons show ?thesis by (auto simp: split_beta)
  qed
qed simp

text \<open>Freeing the data of a cycle that no helper knows.\<close>

lemma lvm_update_done_ok:
  assumes "cycles_ok m" and "live m u = Some d" and "helpers_of u m = 0" and "u \<notin> set (list_helpers m)"
  shows "cycles_ok (lvm_update_done u d m) \<and> tasks (lvm_update_done u d m) = tasks m"
proof -
  have "open_tasks m = length (filter (upd_task \<circ> snd) (filter (\<lambda>(v, _). v \<noteq> u) (update_datas m))) + (if upd_task d then 1 else 0)"
    unfolding open_tasks_def by (subst length_filter_drop_key) (use assms in \<open>auto simp: cycles_ok_def simp del: map_of_eq_Some_iff\<close>)
  then have "tasks (lvm_update_done u d m) = tasks m"
    by (simp add: tasks_def open_tasks_def lvm_update_done_def trigger_delayed_lvm_update_def Let_def)
  moreover have "cycles_ok (lvm_update_done u d m)"
    using assms unfolding cycles_ok_def
    by (auto simp: lvm_update_done_def trigger_delayed_lvm_update_def Let_def helpers_of_0 distinct_map_filter
        simp del: map_of_eq_Some_iff)
  ultimately show ?thesis by simp
qed

lemma lvm_vg_update_done_ok:
  assumes "cycles_ok m" and "live m u = Some d" and "int (helpers_of u m) < pending_vg_updates d"
  shows "run_ok (\<lambda>m'. cycles_ok m' \<and> tasks m' = tasks m) (lvm_vg_update_done u m)"
proof -
  let ?d = "d\<lparr>pending_vg_updates := pending_vg_updates d - 1\<rparr>"
  let ?m = "m\<lparr>update_datas := count_pending u (- 1) (update_datas m)\<rparr>"
  have u: "u \<notin> set (list_helpers m)" using assms by (auto simp: cycles_ok_def)
  have "cycles_ok ?m" using assms u unfolding cycles_ok_def by (auto simp del: map_of_eq_Some_iff)
  moreover have "helpers_of u ?m = 0" if "pending_vg_updates ?d = 0" using that assms by simp
  ultimately show ?thesis
    using lvm_update_done_ok [of ?m u ?d] assms u by (auto simp: lvm_vg_update_done_def Let_def)
qed

section \<open>The steps keep the cycles\<close>

lemma find_group_Some: "find_group t gs = Some (k, g) \<Longrightarrow> (k, g) \<in> set gs \<and> vgo_thing g = t"
  by (induction gs) (auto split: if_splits)

lemma find_group_None: "find_group t gs = None \<longleftrightarrow> t \<notin> (vgo_thing \<circ> snd) ` set gs"
  by (induction t gs rule: find_group.induct) auto

lemma things_ht_insert:
  "(k, g) \<in> set t \<Longrightarrow> ht_wf t \<Longrightarrow> vgo_thing h = vgo_thing g \<Longrightarrow>
   map (vgo_thing \<circ> snd) (ht_insert t k h) = map (vgo_thing \<circ> snd) t"
  by (induction t k h rule: ht_insert.induct) (force simp: ht_wf_def)+

lemma known_groups_table:
  assumes "(k, g) \<in> set (name_to_volume_group m)" and "ht_wf (name_to_volume_group m)" and "vgo_thing h = vgo_thing g"
  shows "known_groups (m\<lparr>mgr_world := w, name_to_volume_group := ht_insert (name_to_volume_group m) k h\<rparr>) = known_groups m"
  using arg_cong [OF things_ht_insert [OF assms], of set] by (simp add: known_groups_def)

lemma known_groups_dropped:
  "known_groups (m\<lparr>mgr_world := w, dropped_groups := map (\<lambda>h. if vgo_thing h = vgo_thing g then g else h) (dropped_groups m)\<rparr>) = known_groups m"
proof -
  have "vgo_thing (if vgo_thing h = vgo_thing g then g else h) = vgo_thing h" for h by simp
  then show ?thesis by (simp add: known_groups_def image_image del: if_image_distrib)
qed

lemma helper_gone:
  assumes "i < length (group_helpers m)"
  shows "helpers_of u m = helpers_of u (m\<lparr>group_helpers := drop_nth i (group_helpers m)\<rparr>) +
    (if fst (group_helpers m ! i) = u then 1 else 0)"
    and "set (drop_nth i (group_helpers m)) \<subseteq> set (group_helpers m)"
proof -
  let ?hs = "group_helpers m"
  have "count_list (map fst ?hs) u = count_list (map fst (take i ?hs @ ?hs ! i # drop (Suc i) ?hs)) u"
    using id_take_nth_drop [OF assms] by (rule arg_cong)
  then show "helpers_of u m = helpers_of u (m\<lparr>group_helpers := drop_nth i ?hs\<rparr>) +
      (if fst (?hs ! i) = u then 1 else 0)"
    by (simp add: helpers_of_def drop_nth_def)
  show "set (drop_nth i ?hs) \<subseteq> set ?hs"
    by (auto simp: drop_nth_def dest: in_set_takeD in_set_dropD)
qed

lemma cycles_ok_fewer:
  assumes ok: "cycles_ok m" and hs: "set hs \<subseteq> set (group_helpers m)"
    and le: "\<And>v. helpers_of v (m\<lparr>group_helpers := hs\<rparr>) \<le> helpers_of v m"
  shows "cycles_ok (m\<lparr>group_helpers := hs\<rparr>)"
proof -
  have "int (helpers_of u (m\<lparr>group_helpers := hs\<rparr>)) \<le> pending_vg_updates d" if "live m u = Some d" for u d
    using cycles_okD [OF ok that] le [of u] by linarith
  with ok hs show ?thesis unfolding cycles_ok_def by (auto simp del: map_of_eq_Some_iff)
qed

lemma on_group_answer_ok:
  assumes ok: "cycles_ok m" and i: "i < length (group_helpers m)"
  shows "run_ok (\<lambda>m'. cycles_ok m' \<and> tasks m' = tasks m)
    (on_group_answer env now (group_helpers m ! i) answer (m\<lparr>group_helpers := drop_nth i (group_helpers m)\<rparr>))"
proof -
  obtain u t where ut: "group_helpers m ! i = (u, t)" by fastforce
  let ?m = "m\<lparr>group_helpers := drop_nth i (group_helpers m)\<rparr>"
  have "(u, t) \<in> set (group_helpers m)" using i ut by (metis nth_mem)
  with ok obtain d where d: "live m u = Some d" and t: "t \<in> known_groups m" by (fastforce simp: cycles_ok_def)
  have less: "int (helpers_of u ?m) < pending_vg_updates d"
    using cycles_okD [OF ok d] helper_gone(1) [OF i, of u] by (simp add: ut)
  have le: "helpers_of v ?m \<le> helpers_of v m" for v using helper_gone(1) [OF i, of v] by simp
  have okm: "cycles_ok ?m"
    using ok helper_gone(2) [OF i] le by (rule cycles_ok_fewer)
  have step: "run_ok (\<lambda>m'. cycles_ok m' \<and> tasks m' = tasks m) (if called then lvm_vg_update_done u m' else Inr m')"
    if "ht_wf (name_to_volume_group m')" and "known_groups m' = known_groups ?m"
      and "update_datas m' = update_datas m" and "list_helpers m' = list_helpers m"
      and "group_helpers m' = group_helpers ?m" and "next_update m' = next_update m" and "tasks_done m' = tasks_done m"
    for m' called
  proof -
    have "cycles_ok m'" by (rule cycles_ok_frame [OF okm]) (use that in auto)
    moreover have "tasks m' = tasks m" "helpers_of u m' = helpers_of u ?m"
      using that by (simp_all add: tasks_def open_tasks_def helpers_of_def)
    ultimately show ?thesis using lvm_vg_update_done_ok [of m' u d] that d less by auto
  qed
  have wf: "ht_wf (name_to_volume_group m)" using ok by (simp add: cycles_ok_def)
  show ?thesis
  proof (cases "find_group t (name_to_volume_group m)")
    case (Some kg)
    obtain k g where kg: "kg = (k, g)" by fastforce
    with Some have g: "(k, g) \<in> set (name_to_volume_group m)" "vgo_thing g = t"
      using find_group_Some by fastforce+
    have "run_ok (\<lambda>m'. cycles_ok m' \<and> tasks m' = tasks m)
        (if called then lvm_vg_update_done u (?m\<lparr>mgr_world := w, name_to_volume_group := ht_insert (name_to_volume_group m) k h\<rparr>)
         else Inr (?m\<lparr>mgr_world := w, name_to_volume_group := ht_insert (name_to_volume_group m) k h\<rparr>))"
      if "update_with_variant (env_os env) now answer (mgr_world m) g = Inr (w, h, called)" for w h called
      using known_groups_table [of k g ?m h w] g wf update_with_variant_thing(1) [OF that]
      by (intro step) (simp_all add: ht_wf_def distinct_ht_insert)
    with Some kg show ?thesis
      by (auto simp: on_group_answer_def ut Let_def intro!: run_ok_bind no_uaf_group_update)
  next
    case None
    with t obtain g where g: "g \<in> set (dropped_groups m)" "vgo_thing g = t"
      by (auto simp: known_groups_def find_group_None)
    obtain h where h: "find (\<lambda>g. vgo_thing g = t) (dropped_groups m) = Some h"
      using g by (cases "find (\<lambda>g. vgo_thing g = t) (dropped_groups m)") (auto simp: find_None_iff)
    let ?drop = "\<lambda>w g'. ?m\<lparr>mgr_world := w, dropped_groups :=
        map (\<lambda>h. if vgo_thing h = vgo_thing g' then g' else h) (dropped_groups m)\<rparr>"
    have "run_ok (\<lambda>m'. cycles_ok m' \<and> tasks m' = tasks m)
        (if called then lvm_vg_update_done u (?drop w g') else Inr (?drop w g'))" for w g' called
      using known_groups_dropped [where m = ?m and g = g' and w = w] wf by (intro step) simp_all
    from this [of True] this [of False] None h show ?thesis
      by (auto simp: on_group_answer_def ut Let_def intro!: run_ok_bind no_uaf_group_update)
  qed
qed

text \<open>The list of the groups.\<close>

lemma remove_obsolete_groups_safe: "no_use_after_free (remove_obsolete_groups names w gs)"
  by (induction names w gs rule: remove_obsolete_groups.induct)
    (auto intro!: no_uaf no_uaf_group_dispose)

lemma remove_obsolete_groups_Inr:
  "remove_obsolete_groups names w gs = Inr (w', gs', dropped) \<Longrightarrow>
   gs' = filter (\<lambda>(k, _). k \<in> names) gs \<and>
   (vgo_thing \<circ> snd) ` set gs = (vgo_thing \<circ> snd) ` set gs' \<union> vgo_thing ` set dropped"
proof (induction gs arbitrary: w w' gs' dropped)
  case (Cons kg gs)
  obtain k g where kg: "kg = (k, g)" by fastforce
  show ?case
  proof (cases "k \<in> names")
    case True
    with Cons.prems obtain gs1 where "remove_obsolete_groups names w gs = Inr (w', gs1, dropped)" "gs' = (k, g) # gs1"
      by (auto simp: kg ebind_Inr)
    with Cons.IH True show ?thesis by (auto simp: kg)
  next
    case False
    with Cons.prems obtain w1 g1 dr where "storage_volume_group_dispose w g = Inr (w1, g1)"
      and "remove_obsolete_groups names w1 gs = Inr (w', gs', dr)" "dropped = g1 # dr"
      by (auto simp: kg ebind_Inr)
    with Cons.IH [of w1 w' gs' dr] False dispose_thing [of w g w1 g1] show ?thesis by (simp add: kg)
  qed
qed simp

lemma add_group_facts:
  assumes "add_group name m = (m', g)" and "ht_wf (name_to_volume_group m)"
  shows "ht_wf (name_to_volume_group m')" and "known_groups m \<subseteq> known_groups m'"
    and "(name, g) \<in> set (name_to_volume_group m')" and "vgo_thing g \<in> known_groups m'"
    and "update_datas m' = update_datas m" and "list_helpers m' = list_helpers m"
    and "group_helpers m' = group_helpers m" and "next_update m' = next_update m" and "tasks_done m' = tasks_done m"
proof -
  show wf: "ht_wf (name_to_volume_group m')"
    using assms by (auto simp: add_group_def Let_def ht_wf_def distinct_ht_insert split: option.splits prod.splits)
  have "ht_lookup (name_to_volume_group m') name = Some g"
    using assms by (auto simp: add_group_def Let_def ht_lookup_def split: option.splits prod.splits)
  with in_table [OF wf] show g: "(name, g) \<in> set (name_to_volume_group m')" by blast
  then show "vgo_thing g \<in> known_groups m'" by (force simp: known_groups_def)
  have new: "set t \<subseteq> set (ht_insert t k v)" if "ht_lookup t k = None" for t :: "volume_group htab" and k v
    using that by (induction t k v rule: ht_insert.induct) (auto simp: ht_lookup_def split: if_splits)
  show "known_groups m \<subseteq> known_groups m'"
    using assms(1) new [of "name_to_volume_group m" name]
    by (fastforce simp: add_group_def Let_def known_groups_def split: option.splits prod.splits)
qed (use assms in \<open>auto simp: add_group_def Let_def split: option.splits prod.splits\<close>)

lemma cycles_ok_change:
  assumes ok: "cycles_ok m" and keys: "map fst (update_datas m') = map fst (update_datas m)"
    and same: "name_to_volume_group m' = name_to_volume_group m" "known_groups m' = known_groups m"
      "list_helpers m' = list_helpers m" "next_update m' = next_update m"
    and counts: "\<And>v d. live m' v = Some d \<Longrightarrow>
      int (helpers_of v m') \<le> pending_vg_updates d \<and> (v \<in> set (list_helpers m) \<longrightarrow> pending_vg_updates d = 0)"
    and hs: "\<And>h. h \<in> set (group_helpers m') \<Longrightarrow> live m (fst h) \<noteq> None \<and> snd h \<in> known_groups m"
  shows "cycles_ok m'"
proof -
  have "fst ` set (update_datas m') = fst ` set (update_datas m)" using keys by (metis list.set_map)
  then have dom: "live m' v \<noteq> None \<longleftrightarrow> live m v \<noteq> None" for v by (metis map_of_eq_None_iff)
  have "v < next_update m'" if "live m' v = Some d" for v d
    using that dom [of v] cycles_okD [OF ok, of v] same(4) by fastforce
  with counts dom hs keys same ok show ?thesis unfolding cycles_ok_def by metis
qed

lemma cycles_ok_counted:
  assumes ok: "cycles_ok m" and u: "u \<notin> set (list_helpers m)"
  shows "cycles_ok (m\<lparr>update_datas := count_pending u 1 (update_datas m)\<rparr>)"
proof (rule cycles_ok_change [OF ok])
  fix v d
  assume v: "live (m\<lparr>update_datas := count_pending u 1 (update_datas m)\<rparr>) v = Some d"
  show "int (helpers_of v (m\<lparr>update_datas := count_pending u 1 (update_datas m)\<rparr>)) \<le> pending_vg_updates d \<and>
      (v \<in> set (list_helpers m) \<longrightarrow> pending_vg_updates d = 0)"
  proof (cases "v = u")
    case True
    with v obtain e where e: "live m u = Some e" "d = e\<lparr>pending_vg_updates := pending_vg_updates e + 1\<rparr>"
      by auto
    with cycles_okD [OF ok e(1)] u True show ?thesis by simp
  next
    case False
    with v cycles_okD [OF ok, of v d] show ?thesis by simp
  qed
qed (use ok in \<open>auto simp: cycles_ok_def simp del: map_of_eq_Some_iff\<close>)

lemma cycles_ok_started:
  assumes ok: "cycles_ok m" and d: "live m u = Some d" "int (helpers_of u m) < pending_vg_updates d"
    and t: "t \<in> known_groups m"
  shows "cycles_ok (m\<lparr>group_helpers := group_helpers m @ [(u, t)]\<rparr>)"
proof (rule cycles_ok_change [OF ok])
  fix v e
  assume "live (m\<lparr>group_helpers := group_helpers m @ [(u, t)]\<rparr>) v = Some e"
  then show "int (helpers_of v (m\<lparr>group_helpers := group_helpers m @ [(u, t)]\<rparr>)) \<le> pending_vg_updates e \<and>
      (v \<in> set (list_helpers m) \<longrightarrow> pending_vg_updates e = 0)"
    using d cycles_okD [OF ok, of v e] by (cases "v = u") (auto simp: helpers_of_def)
next
  fix h
  assume "h \<in> set (group_helpers (m\<lparr>group_helpers := group_helpers m @ [(u, t)]\<rparr>))"
  with d t ok show "live m (fst h) \<noteq> None \<and> snd h \<in> known_groups m"
    by (auto simp: cycles_ok_def simp del: map_of_eq_Some_iff)
qed simp_all

lemma update_listed_group_ok:
  assumes ok: "cycles_ok m" and u: "live m u \<noteq> None" "u \<notin> set (list_helpers m)"
  shows "run_ok (\<lambda>m'. cycles_ok m' \<and> tasks m' = tasks m \<and> live m' u \<noteq> None \<and> u \<notin> set (list_helpers m'))
    (update_listed_group env now spawn u ignore_locks name m)"
proof -
  obtain m1 g where add: "add_group name m = (m1, g)" by fastforce
  have wf: "ht_wf (name_to_volume_group m)" using ok by (simp add: cycles_ok_def)
  note facts = add_group_facts [OF add wf]
  let ?m = "m1\<lparr>update_datas := count_pending u 1 (update_datas m1)\<rparr>"
  have ok1: "cycles_ok m1" by (rule cycles_ok_frame [OF ok]) (use facts in auto)
  have okm: "cycles_ok ?m" using cycles_ok_counted [OF ok1] u facts by simp
  have "tasks m1 = tasks m" using facts by (simp add: tasks_def open_tasks_def)
  with tasks_counted [where m = m1 and u = u and n = 1] have tasks: "tasks ?m = tasks m" by simp
  obtain d where d: "live m1 u = Some d" using u facts by auto
  have started: "cycles_ok (?m\<lparr>group_helpers := group_helpers ?m @ [(u, vgo_thing g)]\<rparr>)"
    by (rule cycles_ok_started [OF okm]) (use d cycles_okD [OF ok1 d] facts in auto)
  let ?n = "\<lambda>w h. ?m\<lparr>mgr_world := w, name_to_volume_group := ht_insert (name_to_volume_group m1) name h\<rparr>"
  have failed: "\<not> called \<and> cycles_ok (?n w h) \<and> tasks (?n w h) = tasks m"
    if "update_with_variant (env_os env) now (Inl e) (mgr_world m1) g = Inr (w, h, called)" for w h e called
  proof -
    have called: "\<not> called" and thing: "vgo_thing h = vgo_thing g"
      using update_with_variant_thing [OF that] by blast+
    have "known_groups (?n w h) = known_groups m1"
      using known_groups_table [of name g ?m h w] facts(1,3) thing by simp
    then have "cycles_ok (?n w h)"
      using facts(1) by (intro cycles_ok_frame [OF okm]) (simp_all add: ht_wf_def distinct_ht_insert)
    moreover have "tasks (?n w h) = tasks m" using tasks by (simp add: tasks_def open_tasks_def)
    ultimately show ?thesis using called by simp
  qed
  have "tasks (?m\<lparr>group_helpers := group_helpers ?m @ [(u, vgo_thing g)]\<rparr>) = tasks m"
    using tasks by (simp add: tasks_def open_tasks_def)
  moreover have "u \<notin> set (list_helpers m1)" using u facts by simp
  ultimately show ?thesis
    using started d
    by (auto simp: update_listed_group_def add Let_def dest!: variant_spawn_failure failed
        intro!: run_ok_bind no_uaf_group_update split: sum.split)
qed

lemma update_listed_groups_ok:
  "cycles_ok m \<Longrightarrow> live m u \<noteq> None \<Longrightarrow> u \<notin> set (list_helpers m) \<Longrightarrow>
   run_ok (\<lambda>m'. cycles_ok m' \<and> tasks m' = tasks m \<and> live m' u \<noteq> None \<and> u \<notin> set (list_helpers m'))
     (update_listed_groups env now spawn u ignore_locks names m)"
proof (induction names arbitrary: m)
  case (Cons name names)
  show ?case unfolding update_listed_groups.simps
  proof (rule run_ok_seq [OF update_listed_group_ok [OF Cons.prems]])
    fix a assume a: "cycles_ok a \<and> tasks a = tasks m \<and> live a u \<noteq> None \<and> u \<notin> set (list_helpers a)"
    with Cons.IH [of a] show "run_ok (\<lambda>m'. cycles_ok m' \<and> tasks m' = tasks m \<and> live m' u \<noteq> None \<and>
        u \<notin> set (list_helpers m')) (update_listed_groups env now spawn u ignore_locks names a)"
      by simp
  qed
qed simp

lemma lvm_update_from_variant_ok:
  assumes ok: "cycles_ok m" and u: "live m u \<noteq> None" "u \<notin> set (list_helpers m)"
  shows "run_ok (\<lambda>m'. cycles_ok m' \<and> tasks m' = tasks m) (lvm_update_from_variant env now spawn u answer m)"
proof (cases answer)
  case (Inl e)
  with ok show ?thesis by (simp add: lvm_update_from_variant_def)
next
  case (Inr names)
  obtain d where d: "live m u = Some d" using u by blast
  show ?thesis
    unfolding lvm_update_from_variant_def Inr d sum.case option.case
  proof (rule run_ok_bind [OF remove_obsolete_groups_safe])
    fix r
    assume r: "remove_obsolete_groups (set names) (mgr_world m) (name_to_volume_group m) = Inr r"
    obtain w gs dropped where wgd: "r = (w, gs, dropped)" by (cases r)
    let ?m = "m\<lparr>mgr_world := w, name_to_volume_group := gs, dropped_groups := dropped_groups m @ dropped\<rparr>"
    note gone = remove_obsolete_groups_Inr [OF r [unfolded wgd]]
    have "ht_wf gs" using ok gone by (auto simp: cycles_ok_def ht_wf_def distinct_map_filter)
    moreover have "known_groups m = known_groups ?m" using gone by (auto simp: known_groups_def)
    ultimately have "cycles_ok ?m" by (intro cycles_ok_frame [OF ok]) simp_all
    then have "run_ok (\<lambda>m'. cycles_ok m' \<and> tasks m' = tasks ?m \<and> live m' u \<noteq> None \<and> u \<notin> set (list_helpers m'))
        (update_listed_groups env now spawn u (upd_ignore_locks d) names ?m)"
      using u by (intro update_listed_groups_ok) simp_all
    moreover have "tasks ?m = tasks m" by (simp add: tasks_def open_tasks_def)
    moreover have "helpers_of u a = 0" if "cycles_ok a" "live a u = Some e" "pending_vg_updates e = 0" for a e
      using cycles_okD [OF that(1,2)] that(3) by simp
    ultimately show "run_ok (\<lambda>m'. cycles_ok m' \<and> tasks m' = tasks m)
        (case r of (w, gs, dropped) \<Rightarrow>
          ebind (update_listed_groups env now spawn u (upd_ignore_locks d) names
                  (m\<lparr>mgr_world := w, name_to_volume_group := gs, dropped_groups := dropped_groups m @ dropped\<rparr>))
            (\<lambda>self. case live self u of
               None \<Rightarrow> Inl (UseAfterFree ''data->pending_vg_updates'')
             | Some data \<Rightarrow> Inr (if pending_vg_updates data = 0 then lvm_update_done u data self else self)))"
      unfolding wgd prod.case by (elim run_ok_seq) (auto simp: lvm_update_done_ok split: option.split)
  qed
qed

text \<open>A new cycle, and the events.\<close>

definition new_cycle :: "bool \<Rightarrow> bool \<Rightarrow> manager \<Rightarrow> manager" where
  "new_cycle ignore_locks task m =
     m\<lparr>next_update := next_update m + 1, update_datas := update_datas m @
         [(next_update m, \<lparr>upd_ignore_locks = ignore_locks, upd_task = task, pending_vg_updates = 0\<rparr>)]\<rparr>"

lemma new_cycle_ok:
  assumes ok: "cycles_ok m"
  shows "cycles_ok (new_cycle ignore_locks task m) \<and>
    cycles_ok (new_cycle ignore_locks task m\<lparr>list_helpers := list_helpers m @ [next_update m]\<rparr>) \<and>
    tasks (new_cycle ignore_locks task m) = tasks m + (if task then 1 else 0)"
proof -
  have below: "u < next_update m" if "live m u = Some d" for u d using cycles_okD [OF ok that] by blast
  then have u: "live m (next_update m) = None" by (metis less_irrefl option.exhaust)
  have "helpers_of (next_update m) m = 0"
    unfolding helpers_of_0 using ok u unfolding cycles_ok_def by metis
  then have counts: "u < Suc (next_update m) \<and> int (helpers_of u m) \<le> pending_vg_updates d \<and>
      (u \<in> set (list_helpers m @ [next_update m]) \<longrightarrow> pending_vg_updates d = 0)"
    if "live (new_cycle ignore_locks task m) u = Some d" for u d
    using that u cycles_okD [OF ok, of u d] below
    by (cases "u = next_update m") (auto simp: new_cycle_def map_add_def intro: less_SucI split: option.splits)
  have dom: "live (new_cycle ignore_locks task m) v \<noteq> None \<longleftrightarrow> live m v \<noteq> None \<or> v = next_update m" for v
    by (auto simp: new_cycle_def map_add_def split: option.splits)
  have keys: "distinct (map fst (update_datas (new_cycle ignore_locks task m)))"
    using ok u by (simp add: new_cycle_def cycles_ok_def map_of_eq_None_iff)
  have same: "helpers_of v (new_cycle ignore_locks task m) = helpers_of v m"
    "known_groups (new_cycle ignore_locks task m) = known_groups m" for v
    by (simp_all add: new_cycle_def helpers_of_def known_groups_def)
  have tasks_new: "tasks (new_cycle ignore_locks task m) = tasks m + (if task then 1 else 0)"
    by (simp add: new_cycle_def tasks_def open_tasks_def)
  have part: "ht_wf (name_to_volume_group m)" "\<And>u. u \<in> set (list_helpers m) \<Longrightarrow> live m u \<noteq> None"
    "\<And>h. h \<in> set (group_helpers m) \<Longrightarrow> live m (fst h) \<noteq> None \<and> snd h \<in> known_groups m"
    using ok unfolding cycles_ok_def by blast+
  have fields: "name_to_volume_group (new_cycle ignore_locks task m) = name_to_volume_group m"
    "list_helpers (new_cycle ignore_locks task m) = list_helpers m"
    "group_helpers (new_cycle ignore_locks task m) = group_helpers m"
    "next_update (new_cycle ignore_locks task m) = Suc (next_update m)"
    by (simp_all add: new_cycle_def)
  show ?thesis
    unfolding cycles_ok_def using counts dom keys part
    by (auto simp: fields same tasks_new simp del: map_of_eq_Some_iff)
qed

lemma lvm_update_ok:
  assumes ok: "cycles_ok m"
  shows "run_ok (\<lambda>m'. cycles_ok m' \<and> tasks m' = tasks m + (if task then 1 else 0))
    (lvm_update env now spawn ignore_locks task m)"
proof -
  let ?m = "new_cycle ignore_locks task m"
  note new = new_cycle_ok [OF ok, of ignore_locks task]
  have "next_update m \<notin> set (list_helpers m)"
    using ok cycles_okD [OF ok, of "next_update m"] unfolding cycles_ok_def by blast
  moreover have "live ?m (next_update m) \<noteq> None" by (simp add: new_cycle_def map_add_def split: option.split)
  ultimately have "run_ok (\<lambda>m'. cycles_ok m' \<and> tasks m' = tasks ?m)
      (lvm_update_from_variant env now spawn (next_update m) answer ?m)" for answer
    using new by (intro lvm_update_from_variant_ok) (simp_all add: new_cycle_def)
  moreover have "tasks (?m\<lparr>list_helpers := list_helpers m @ [next_update m]\<rparr>) = tasks ?m"
    by (simp add: tasks_def open_tasks_def)
  ultimately show ?thesis
    using new unfolding lvm_update_def Let_def new_cycle_def [symmetric]
    by (auto simp: new_cycle_def split: sum.split)
qed

fun is_init :: "manager_event \<Rightarrow> bool" where
  "is_init (InitAsync now spawn) = True"
| "is_init _ = False"

lemma on_udisks_interface_added_frame:
  "on_udisks_interface_added i m = Inr m' \<Longrightarrow> \<exists>w. m' = m\<lparr>mgr_world := w\<rparr>"
  by (cases m) (auto simp: on_udisks_interface_added_def Let_def ebind_Inr split: option.splits)

lemma on_udisks_object_added_frame:
  "on_udisks_object_added is m = Inr m' \<Longrightarrow> \<exists>w. m' = m\<lparr>mgr_world := w\<rparr>"
proof (induction "is" arbitrary: m)
  case (Cons i "is")
  then obtain m1 where "on_udisks_interface_added i m = Inr m1" "on_udisks_object_added is m1 = Inr m'"
    by (auto simp: ebind_Inr)
  with Cons.IH on_udisks_interface_added_frame show ?case by fastforce
qed (metis manager.surjective manager.update_convs(1) on_udisks_object_added.simps(1) sum.inject(2))

lemma on_udisks_object_removed_frame: "\<exists>w. on_udisks_object_removed is m = m\<lparr>mgr_world := w\<rparr>"
proof (induction "is" arbitrary: m)
  case Nil
  show ?case by (metis fold_simps(1) manager.surjective manager.update_convs(1) on_udisks_object_removed_def)
next
  case (Cons i "is")
  have "\<exists>w. on_udisks_interface_removed i m = m\<lparr>mgr_world := w\<rparr>"
    by (cases m) (auto simp: on_udisks_interface_removed_def Let_def split: option.split)
  then obtain w where w: "on_udisks_interface_removed i m = m\<lparr>mgr_world := w\<rparr>" by blast
  obtain w' where "on_udisks_object_removed is (m\<lparr>mgr_world := w\<rparr>) = m\<lparr>mgr_world := w, mgr_world := w'\<rparr>"
    using Cons.IH by blast
  with w show ?case by (auto simp: on_udisks_object_removed_def)
qed

lemma cycles_ok_world: "cycles_ok m \<Longrightarrow> cycles_ok (m\<lparr>mgr_world := w\<rparr>)"
  by (frule cycles_ok_frame) (auto simp: cycles_ok_def simp del: map_of_eq_Some_iff)

lemma cycles_ok_armed: "cycles_ok m \<Longrightarrow> cycles_ok (m\<lparr>lvm_delayed_update_id := b\<rparr>)"
  by (frule cycles_ok_frame) (auto simp: cycles_ok_def simp del: map_of_eq_Some_iff)

lemma tasks_simps [simp]: "tasks (m\<lparr>mgr_world := w\<rparr>) = tasks m"
  "tasks (m\<lparr>lvm_delayed_update_id := b\<rparr>) = tasks m" "tasks (m\<lparr>list_helpers := l\<rparr>) = tasks m"
  by (simp_all add: tasks_def open_tasks_def)

lemma manager_step_ok:
  assumes ok: "cycles_ok m"
  shows "run_ok (\<lambda>m'. cycles_ok m' \<and> tasks m' = tasks m + (if is_init e then 1 else 0)) (manager_step env m e)"
proof (cases e)
  case (InitAsync now spawn)
  with lvm_update_ok [OF ok, where task = True] show ?thesis by (simp add: storage_manager_init_async_def)
next
  case (ListDone now spawn u result)
  let ?m = "m\<lparr>list_helpers := filter (\<lambda>v. v \<noteq> u) (list_helpers m)\<rparr>"
  have "cycles_ok ?m" using ok unfolding cycles_ok_def by (simp del: map_of_eq_Some_iff)
  moreover have "live m u \<noteq> None" if "u \<in> set (list_helpers m)" using ok that unfolding cycles_ok_def by blast
  ultimately show ?thesis
    using ok lvm_update_from_variant_ok [of ?m u env now spawn "names_of env result"] by (simp add: ListDone)
next
  case (GroupDone now i result)
  with ok on_group_answer_ok [OF ok, of i] show ?thesis by simp
next
  case (DelayedTimer now spawn)
  have "run_ok (\<lambda>m'. cycles_ok m' \<and> tasks m' = tasks m) (delayed_lvm_update env now spawn m)"
    unfolding delayed_lvm_update_def
    by (rule run_ok_seq [OF lvm_update_ok [OF ok, where task = False]]) (simp add: cycles_ok_armed)
  with ok show ?thesis by (simp add: DelayedTimer)
next
  case (Uevent device real_block)
  with ok show ?thesis
    by (simp add: handle_block_uevent_for_lvm_def trigger_delayed_lvm_update_def cycles_ok_armed)
next
  case (ObjectAdded interfaces)
  have "run_ok (\<lambda>m'. \<exists>w. m' = m\<lparr>mgr_world := w\<rparr>) (on_udisks_object_added interfaces m)"
    using no_uaf_added [of interfaces m] on_udisks_object_added_frame [of interfaces m]
    by (auto simp: run_ok_def no_use_after_free_def split: sum.split)
  then have "run_ok (\<lambda>m'. cycles_ok m' \<and> tasks m' = tasks m) (on_udisks_object_added interfaces m)"
    by (rule run_ok_mono) (use ok cycles_ok_world in auto)
  with ObjectAdded show ?thesis by simp
next
  case (ObjectRemoved interfaces)
  then show ?thesis
    using ok cycles_ok_world on_udisks_object_removed_frame [of interfaces m] by fastforce
qed

text \<open>The invariant as that of a machine.\<close>

interpretation cy: guarded_machine "manager_step env" cycles_ok for env
proof unfold_locales
  show "cycles_ok m'" if "cycles_ok m" "manager_step env m e = Inr m'" for m e m'
    using manager_step_ok [OF that(1), where env = env and e = e] that(2) by simp
qed

lemma storage_manager_new_ok: "cycles_ok (storage_manager_new d)" "tasks (storage_manager_new d) = 0"
  by (simp_all add: cycles_ok_def storage_manager_new_def ht_wf_def tasks_def open_tasks_def)

lemma run_manager_ok:
  "cycles_ok m \<Longrightarrow>
   run_ok (\<lambda>m'. cycles_ok m' \<and> tasks m' = tasks m + length (filter is_init es)) (run_steps (manager_step env) m es)"
proof (induction es arbitrary: m)
  case (Cons e es)
  show ?case
  proof (cases "manager_step env m e")
    case (Inl a)
    with manager_step_ok [OF Cons.prems, where env = env and e = e] show ?thesis by (simp add: run_ok_def)
  next
    case (Inr m1)
    with manager_step_ok [OF Cons.prems, where env = env and e = e] have m1: "cycles_ok m1"
      "tasks m1 = tasks m + (if is_init e then 1 else 0)" by simp_all
    with Cons.IH [OF m1(1)] Inr show ?thesis by (cases "is_init e") simp_all
  qed
qed simp

section \<open>What other cycles leave alone\<close>

text \<open>A step of one cycle does not touch the data of another, and keeps the timer armed.\<close>

definition apart :: "nat \<Rightarrow> manager \<Rightarrow> manager \<Rightarrow> bool" where
  "apart u m m' \<longleftrightarrow>
     live m' u = live m u \<and> helpers_of u m' = helpers_of u m \<and> next_update m' = next_update m \<and>
     (lvm_delayed_update_id m \<longrightarrow> lvm_delayed_update_id m')"

lemma apart_refl [simp]: "apart u m m"
  by (simp add: apart_def)

lemma apart_trans: "apart u m m1 \<Longrightarrow> apart u m1 m2 \<Longrightarrow> apart u m m2"
  by (simp add: apart_def)

lemma apart_done: "v \<noteq> u \<Longrightarrow> apart u m (lvm_update_done v d m)"
  by (simp add: apart_def lvm_update_done_def trigger_delayed_lvm_update_def Let_def)

lemma apart_vg_done:
  assumes "lvm_vg_update_done v m = Inr m'" and "v \<noteq> u"
  shows "apart u m m'"
proof -
  let ?m = "m\<lparr>update_datas := count_pending v (- 1) (update_datas m)\<rparr>"
  have "apart u m ?m" using assms(2) by (simp add: apart_def)
  moreover have "apart u ?m (lvm_update_done v d ?m)" for d using assms(2) by (rule apart_done)
  ultimately show ?thesis
    using assms(1) by (auto simp: lvm_vg_update_done_def Let_def split: option.splits if_splits intro: apart_trans)
qed

lemma apart_listed:
  assumes "update_listed_group env now spawn v ignore_locks name m = Inr m'" and "v \<noteq> u"
  shows "apart u m m'"
proof -
  obtain m1 g where add: "add_group name m = (m1, g)" by fastforce
  let ?m = "m1\<lparr>update_datas := count_pending v 1 (update_datas m1)\<rparr>"
  have 1: "apart u m ?m"
    using add assms(2) by (auto simp: apart_def add_group_def helpers_of_def Let_def split: option.splits prod.splits)
  show ?thesis
  proof (cases "storage_daemon_spawn_for_variant (env_lib env) (env_data env) (the_daemon (mgr_world m1)) spawn
      (storage_volume_group_update g ignore_locks)")
    case (Inr r)
    then have "m' = ?m\<lparr>group_helpers := group_helpers m1 @ [(v, vgo_thing g)]\<rparr>"
      using assms(1) by (simp add: update_listed_group_def add)
    then have "apart u ?m m'" using assms(2) by (simp add: apart_def helpers_of_def)
    with 1 show ?thesis by (rule apart_trans)
  next
    case (Inl f)
    then obtain w h called where
      m': "(if called then lvm_vg_update_done v (?m\<lparr>mgr_world := w, name_to_volume_group := ht_insert (name_to_volume_group m1) name h\<rparr>)
        else Inr (?m\<lparr>mgr_world := w, name_to_volume_group := ht_insert (name_to_volume_group m1) name h\<rparr>)) = Inr m'"
      using assms(1) by (auto simp: update_listed_group_def add Let_def ebind_Inr)
    have "apart u ?m (?m\<lparr>mgr_world := w, name_to_volume_group := ht_insert (name_to_volume_group m1) name h\<rparr>)"
      by (simp add: apart_def helpers_of_def)
    with 1 m' assms(2) apart_vg_done show ?thesis by (auto split: if_splits intro: apart_trans)
  qed
qed

lemma apart_listed_groups:
  "update_listed_groups env now spawn v ignore_locks names m = Inr m' \<Longrightarrow> v \<noteq> u \<Longrightarrow> apart u m m'"
proof (induction names arbitrary: m)
  case (Cons name names)
  then obtain m1 where "update_listed_group env now spawn v ignore_locks name m = Inr m1"
    and "update_listed_groups env now spawn v ignore_locks names m1 = Inr m'" by (auto simp: ebind_Inr)
  with Cons apart_listed show ?case by (blast intro: apart_trans)
qed simp

lemma apart_list_answer:
  assumes "lvm_update_from_variant env now spawn v answer m = Inr m'" and "v \<noteq> u"
  shows "apart u m m'"
proof (cases answer)
  case (Inl e)
  with assms show ?thesis by (simp add: lvm_update_from_variant_def)
next
  case (Inr names)
  obtain d where d: "live m v = Some d" using assms Inr by (auto simp: lvm_update_from_variant_def split: option.splits)
  obtain r where r: "remove_obsolete_groups (set names) (mgr_world m) (name_to_volume_group m) = Inr r"
    using assms Inr d by (auto simp: lvm_update_from_variant_def ebind_Inr)
  obtain w gs dropped where "r = (w, gs, dropped)" by (cases r)
  with assms Inr d r obtain m1 d' where
    "update_listed_groups env now spawn v (upd_ignore_locks d) names
       (m\<lparr>mgr_world := w, name_to_volume_group := gs, dropped_groups := dropped_groups m @ dropped\<rparr>) = Inr m1"
    and m': "m' = (if pending_vg_updates d' = 0 then lvm_update_done v d' m1 else m1)"
    by (auto simp: lvm_update_from_variant_def ebind_Inr split: option.splits)
  then have "apart u (m\<lparr>mgr_world := w, name_to_volume_group := gs, dropped_groups := dropped_groups m @ dropped\<rparr>) m1"
    using assms(2) apart_listed_groups by blast
  then have "apart u m m1" by (simp add: apart_def helpers_of_def)
  with m' assms(2) apart_done [of v u m1 d'] show ?thesis by (auto intro: apart_trans)
qed

text \<open>The group a helper answers about, and the manager after its update.\<close>

definition helper_group :: "manager \<Rightarrow> thing \<Rightarrow> volume_group option" where
  "helper_group m t =
     (case find_group t (name_to_volume_group m) of
        Some (_, g) \<Rightarrow> Some g
      | None \<Rightarrow> find (\<lambda>g. vgo_thing g = t) (dropped_groups m))"

definition with_group :: "manager \<Rightarrow> thing \<Rightarrow> world \<Rightarrow> volume_group \<Rightarrow> manager" where
  "with_group m t w g =
     (case find_group t (name_to_volume_group m) of
        Some (k, _) \<Rightarrow> m\<lparr>mgr_world := w, name_to_volume_group := ht_insert (name_to_volume_group m) k g\<rparr>
      | None \<Rightarrow> m\<lparr>mgr_world := w, dropped_groups := map (\<lambda>h. if vgo_thing h = vgo_thing g then g else h) (dropped_groups m)\<rparr>)"

lemma with_group_fields [simp]:
  "update_datas (with_group m t w g) = update_datas m" "group_helpers (with_group m t w g) = group_helpers m"
  "next_update (with_group m t w g) = next_update m"
  "lvm_delayed_update_id (with_group m t w g) = lvm_delayed_update_id m"
  by (simp_all add: with_group_def split: option.split)

lemma on_group_answer_Inr:
  assumes "on_group_answer env now (u, t) answer m = Inr m'"
  obtains g w h called where "helper_group m t = Some g"
    and "update_with_variant (env_os env) now answer (mgr_world m) g = Inr (w, h, called)"
    and "(if called then lvm_vg_update_done u (with_group m t w h) else Inr (with_group m t w h)) = Inr m'"
proof -
  obtain g where g: "helper_group m t = Some g"
    using assms by (auto simp: on_group_answer_def helper_group_def Let_def split: option.splits)
  obtain r where r: "update_with_variant (env_os env) now answer (mgr_world m) g = Inr r"
    using assms g by (auto simp: on_group_answer_def helper_group_def Let_def ebind_Inr split: option.splits)
  obtain w h called where "r = (w, h, called)" by (cases r)
  with assms g r have "(if called then lvm_vg_update_done u (with_group m t w h) else Inr (with_group m t w h)) = Inr m'"
    by (auto simp: on_group_answer_def helper_group_def with_group_def Let_def split: option.splits if_splits)
  with g r \<open>r = _\<close> that show ?thesis by blast
qed

lemma apart_group_answer:
  assumes "on_group_answer env now (v, t) answer m = Inr m'" and "v \<noteq> u"
  shows "apart u m m'"
proof -
  obtain g w h called where m': "(if called then lvm_vg_update_done v (with_group m t w h) else Inr (with_group m t w h)) = Inr m'"
    using assms(1) by (rule on_group_answer_Inr)
  have "apart u m (with_group m t w h)" by (simp add: apart_def helpers_of_def)
  with m' assms(2) apart_vg_done show ?thesis by (auto split: if_splits intro: apart_trans)
qed

lemma apart_cycle:
  assumes "lvm_update env now spawn ignore_locks task m = Inr m'" and "u < next_update m"
  shows "live m' u = live m u \<and> helpers_of u m' = helpers_of u m \<and> next_update m' = Suc (next_update m)"
proof -
  let ?m = "new_cycle ignore_locks task m"
  have 1: "live ?m u = live m u" "helpers_of u ?m = helpers_of u m" "next_update ?m = Suc (next_update m)"
    using assms(2) by (auto simp: new_cycle_def map_add_def helpers_of_def split: option.split)
  have "apart u ?m m'"
  proof (cases "storage_daemon_spawn_for_variant (env_lib env) (env_data env) (the_daemon (mgr_world m)) spawn lvm_list_argv")
    case (Inr r)
    then have "m' = ?m\<lparr>list_helpers := list_helpers m @ [next_update m]\<rparr>"
      using assms by (simp add: lvm_update_def new_cycle_def Let_def)
    then show ?thesis by (simp add: apart_def)
  next
    case (Inl f)
    with assms have "lvm_update_from_variant env now spawn (next_update m) (names_of env f) ?m = Inr m'"
      by (simp add: lvm_update_def new_cycle_def Let_def)
    then show ?thesis by (rule apart_list_answer) (use assms(2) in simp)
  qed
  with 1 show ?thesis by (simp add: apart_def)
qed

section \<open>Cycles that never end\<close>

text \<open>A cycle that waits for more groups than it has helpers.\<close>

definition never_ends :: "nat \<Rightarrow> bool \<Rightarrow> manager \<Rightarrow> bool" where
  "never_ends u task m \<longleftrightarrow>
     cycles_ok m \<and> (\<exists>d. live m u = Some d \<and> upd_task d = task \<and> int (helpers_of u m) < pending_vg_updates d)"

lemma never_ends_apart: "never_ends u task m \<Longrightarrow> apart u m m' \<Longrightarrow> cycles_ok m' \<Longrightarrow> never_ends u task m'"
  by (simp add: never_ends_def apart_def)

lemma never_ends_frame:
  assumes "never_ends u task m" and "cycles_ok m'" and "update_datas m' = update_datas m" and "group_helpers m' = group_helpers m"
  shows "never_ends u task m'"
  using assms by (simp add: never_ends_def helpers_of_def)

lemma never_ends_answer:
  assumes st: "never_ends u task m" and i: "i < length (group_helpers m)"
    and step: "on_group_answer env now (group_helpers m ! i) answer (m\<lparr>group_helpers := drop_nth i (group_helpers m)\<rparr>) = Inr m'"
    and ok': "cycles_ok m'"
  shows "never_ends u task m'"
proof -
  let ?m = "m\<lparr>group_helpers := drop_nth i (group_helpers m)\<rparr>"
  obtain v t where vt: "group_helpers m ! i = (v, t)" by fastforce
  obtain d where d: "live m u = Some d" "upd_task d = task" "int (helpers_of u m) < pending_vg_updates d"
    using st by (auto simp: never_ends_def)
  show ?thesis
  proof (cases "v = u")
    case False
    with apart_group_answer [of env now v t answer ?m m' u] step
    have "apart u ?m m'" by (simp add: vt)
    moreover have "helpers_of u ?m = helpers_of u m" using helper_gone(1) [OF i, of u] False by (simp add: vt)
    ultimately show ?thesis using d ok' by (simp add: never_ends_def apart_def)
  next
    case True
    have h: "helpers_of u m = Suc (helpers_of u ?m)" using helper_gone(1) [OF i, of u] True by (simp add: vt)
    obtain g w h called where m': "(if called then lvm_vg_update_done u (with_group ?m t w h) else Inr (with_group ?m t w h)) = Inr m'"
      using step [unfolded vt True] by (rule on_group_answer_Inr)
    have "helpers_of u (with_group ?m t w h) = helpers_of u ?m" by (simp add: helpers_of_def)
    with m' d h ok' show ?thesis
      by (auto simp: lvm_vg_update_done_def Let_def never_ends_def helpers_of_def split: if_splits)
  qed
qed

lemma never_ends_step:
  assumes st: "never_ends u task m" and step: "manager_step env m e = Inr m'"
  shows "never_ends u task m'"
proof -
  have ok: "cycles_ok m" using st by (simp add: never_ends_def)
  have ok': "cycles_ok m'" using ok step by (rule cy.step_inv)
  obtain d where d: "live m u = Some d" "int (helpers_of u m) < pending_vg_updates d"
    using st by (auto simp: never_ends_def)
  have below: "u < next_update m" and unlisted: "u \<notin> set (list_helpers m)"
    using cycles_okD [OF ok d(1)] d(2) by auto
  have cycle: "never_ends u task m''" if "lvm_update env now spawn ignore_locks tsk m = Inr m''" "cycles_ok m''"
    for now spawn ignore_locks tsk m''
    using apart_cycle [OF that(1) below] that(2) st by (simp add: never_ends_def)
  show ?thesis
  proof (cases e)
    case (InitAsync now spawn)
    with step ok' cycle show ?thesis by (simp add: storage_manager_init_async_def)
  next
    case (ListDone now spawn v result)
    show ?thesis
    proof (cases "v \<in> set (list_helpers m)")
      case True
      with unlisted have "v \<noteq> u" by blast
      let ?m = "m\<lparr>list_helpers := filter (\<lambda>w. w \<noteq> v) (list_helpers m)\<rparr>"
      have "apart u ?m m'"
        using step True apart_list_answer [OF _ \<open>v \<noteq> u\<close>] by (simp add: ListDone)
      then have "apart u m m'" by (simp add: apart_def)
      with st ok' show ?thesis by (simp add: never_ends_apart)
    qed (use step st ListDone in simp)
  next
    case (GroupDone now i result)
    with step st never_ends_answer [OF st _ _ ok'] show ?thesis by (auto split: if_splits)
  next
    case (DelayedTimer now spawn)
    show ?thesis
    proof (cases "lvm_delayed_update_id m")
      case True
      with step DelayedTimer obtain m1 where m1: "lvm_update env now spawn False False m = Inr m1"
        and m': "m' = m1\<lparr>lvm_delayed_update_id := False\<rparr>"
        by (auto simp: delayed_lvm_update_def ebind_Inr)
      have "cycles_ok m1" using lvm_update_ok [OF ok, where task = False] m1 by (metis run_ok_Inr)
      from never_ends_frame [OF cycle [OF m1 this] ok'] show ?thesis by (simp add: m')
    qed (use step st DelayedTimer in simp)
  next
    case (Uevent device real_block)
    with step st ok' show ?thesis
      by (auto simp: handle_block_uevent_for_lvm_def trigger_delayed_lvm_update_def never_ends_def split: if_splits)
  next
    case (ObjectAdded interfaces)
    with step on_udisks_object_added_frame st ok' show ?thesis by (fastforce simp: never_ends_def)
  next
    case (ObjectRemoved interfaces)
    with step on_udisks_object_removed_frame [of interfaces m] st ok' show ?thesis by (fastforce simp: never_ends_def)
  qed
qed

interpretation sc: guarded_machine "manager_step env" "never_ends u task" for env u task
  by unfold_locales (rule never_ends_step)

end
