(* ===== verification/Manager_Updates.thy ===== *)
theory Manager_Updates
  imports Manager_Cycles
begin

text \<open>
  What the cycles of updates of \<open>src/manager.c\<close> achieve: they never use freed data, an answer
  that changes nothing strands its cycle, a udev event about LVM leads to a new cycle, and the
  table of groups is the list of LVM.
\<close>

text \<open>
  C2: Whatever the main loop delivers, in any order, the manager never uses the data of a cycle
  after it was freed, nor a group that is gone: a run ends only in one of the crashes of a group's
  update. Every start-up call is either answered once or still open, and every helper that runs
  reports to a cycle whose data lives.
\<close>

theorem cycles_use_live_data:
  "case run_steps (manager_step env) (storage_manager_new d) es of
     Inl a \<Rightarrow> \<nexists>x. a = UseAfterFree x
   | Inr m \<Rightarrow>
       tasks_done m + open_tasks m = length (filter is_init es) \<and>
       set (list_helpers m) \<union> fst ` set (group_helpers m) \<subseteq> fst ` set (update_datas m)"
proof -
  have live: "u \<in> fst ` set (update_datas m) \<longleftrightarrow> live m u \<noteq> None" for u m
    by (simp add: map_of_eq_None_iff)
  have "set (list_helpers m) \<union> fst ` set (group_helpers m) \<subseteq> fst ` set (update_datas m)" if "cycles_ok m" for m
    using that unfolding cycles_ok_def live subset_iff by blast
  moreover have "tasks (storage_manager_new d) = 0" by (rule storage_manager_new_ok(2))
  ultimately show ?thesis
    using run_manager_ok [OF storage_manager_new_ok(1) [of d], where env = env and es = es]
    by (auto simp: run_ok_def tasks_def split: sum.splits)
qed

section \<open>Answers that change nothing\<close>

text \<open>The answer is an error, or what the group already shows.\<close>

definition nothing_new :: "env \<Rightarrow> manager \<Rightarrow> thing \<Rightarrow> reader_result \<Rightarrow> bool" where
  "nothing_new env m t result =
     (case (answer_of env result, helper_group m t) of
        (Inr news, Some g) \<Rightarrow> last_info g = Some news
      | _ \<Rightarrow> True)"

lemma nothing_new_strands:
  assumes ok: "cycles_ok m" and i: "i < length (group_helpers m)" and ut: "group_helpers m ! i = (u, t)"
    and same: "nothing_new env m t result" and d: "live m u = Some d"
    and step: "manager_step env m (GroupDone now i result) = Inr m'"
  shows "never_ends u (upd_task d) m'"
proof -
  let ?m = "m\<lparr>group_helpers := drop_nth i (group_helpers m)\<rparr>"
  have answer: "on_group_answer env now (u, t) (answer_of env result) ?m = Inr m'" using step i ut by simp
  then obtain g w h called where g: "helper_group ?m t = Some g"
    and up: "update_with_variant (env_os env) now (answer_of env result) (mgr_world ?m) g = Inr (w, h, called)"
    and m': "(if called then lvm_vg_update_done u (with_group ?m t w h) else Inr (with_group ?m t w h)) = Inr m'"
    by (rule on_group_answer_Inr)
  have "helper_group m t = Some g" using g by (simp add: helper_group_def split: option.splits prod.splits)
  then have "last_info g = Some news" if "answer_of env result = Inr news" for news
    using same that by (simp add: nothing_new_def)
  with update_with_variant_thing(2) [OF up] have "\<not> called" by auto
  with m' have "m' = with_group ?m t w h" by simp
  moreover have "int (helpers_of u ?m) < pending_vg_updates d"
    using helper_gone(1) [OF i, of u] cycles_okD [OF ok d] ut by simp
  moreover have "cycles_ok m'" using ok step by (rule cy.step_inv)
  ultimately show ?thesis using d by (simp add: never_ends_def helpers_of_def)
qed

text \<open>
  C18: The callback of a group's update is not called when the helper fails or says what the group
  already shows. One such answer strands its cycle: whatever happens later, its data is never
  freed, and when it is the start-up cycle, the task of the start-up is never completed.
\<close>

theorem nothing_new_strands_cycle:
  assumes "run_steps (manager_step env) (storage_manager_new d) es = Inr m"
    and "i < length (group_helpers m)" and "nothing_new env m (snd (group_helpers m ! i)) result"
    and "run_steps (manager_step env) m (GroupDone now i result # es') = Inr m'"
  shows "\<exists>data data'. live m (fst (group_helpers m ! i)) = Some data \<and>
    live m' (fst (group_helpers m ! i)) = Some data' \<and> upd_task data' = upd_task data \<and>
    pending_vg_updates data' \<noteq> 0"
proof -
  obtain u t where ut: "group_helpers m ! i = (u, t)" by fastforce
  have ok: "cycles_ok m" using storage_manager_new_ok(1) assms(1) by (rule cy.run_inv)
  have "group_helpers m ! i \<in> set (group_helpers m)" using assms(2) by simp
  with ok obtain data where data: "live m u = Some data"
    unfolding cycles_ok_def by (metis fst_conv not_Some_eq ut)
  obtain m1 where m1: "manager_step env m (GroupDone now i result) = Inr m1"
    and rest: "run_steps (manager_step env) m1 es' = Inr m'"
    using assms(4) by (auto split: sum.splits)
  have "never_ends u (upd_task data) m1"
    using nothing_new_strands [OF ok assms(2) ut _ data m1] assms(3) by (simp add: ut)
  then have "never_ends u (upd_task data) m'" using rest by (rule sc.run_inv)
  with data show ?thesis by (auto simp: ut never_ends_def)
qed

text \<open>A start-up with one group, whose helper fails.\<close>

definition one_group :: env where
  "one_group = \<lparr>env_lib = ''/usr/lib'', env_data = ''/usr/share'', env_os = agreeing_os,
     env_parse = (\<lambda>_. []), env_names = (\<lambda>_. [''vg0''])\<rparr>"

abbreviation start_up :: "manager_event list" where
  "start_up \<equiv> [InitAsync 0 (\<lambda>_. Inr 7), ListDone 0 (\<lambda>_. Inr 8) 0 (ReaderData [])]"

lemmas manager_eval = storage_manager_init_async_def lvm_update_def lvm_update_from_variant_def Let_def
  storage_daemon_spawn_for_variant_def update_listed_group_def add_group_def storage_manager_new_def
  storage_daemon_init_def one_group_def count_pending_def new_thing_def ht_lookup_def
  storage_volume_group_new_def on_group_answer_def drop_nth_def update_with_variant_def

lemma demo_start_up:
  "\<exists>m. run_steps (manager_step one_group) (storage_manager_new (storage_daemon_init True None)) start_up = Inr m \<and>
     group_helpers m = [(0, Thing 0 StorageVolumeGroup)] \<and>
     (\<exists>m'. run_steps (manager_step one_group) m (GroupDone 0 0 (ReaderError e) # [InitAsync 0 (\<lambda>_. Inr 9)]) = Inr m')"
  by (simp add: manager_eval)

lemma nothing_new_strands_cycle_witness:
  "\<exists>m m'. run_steps (manager_step one_group) (storage_manager_new (storage_daemon_init True None)) start_up = Inr m \<and>
     run_steps (manager_step one_group) m
       (GroupDone 0 0 (ReaderError (udisks_error UDISKS_ERROR_FAILED ''no locks'')) # [InitAsync 0 (\<lambda>_. Inr 9)]) = Inr m' \<and>
     live m' 0 \<noteq> None"
proof -
  let ?e = "udisks_error UDISKS_ERROR_FAILED ''no locks''"
  obtain m where m: "run_steps (manager_step one_group) (storage_manager_new (storage_daemon_init True None)) start_up = Inr m"
    "group_helpers m = [(0, Thing 0 StorageVolumeGroup)]"
    "\<exists>m'. run_steps (manager_step one_group) m (GroupDone 0 0 (ReaderError ?e) # [InitAsync 0 (\<lambda>_. Inr 9)]) = Inr m'"
    using demo_start_up by blast
  then obtain m' where m': "run_steps (manager_step one_group) m (GroupDone 0 0 (ReaderError ?e) # [InitAsync 0 (\<lambda>_. Inr 9)]) = Inr m'"
    by blast
  from nothing_new_strands_cycle [OF m(1) _ _ m'] m(1,2) m' show ?thesis by (auto simp: nothing_new_def)
qed

section \<open>Events of udev\<close>

text \<open>The timer is armed, or a cycle has started since \<open>n\<close> cycles were known.\<close>

definition due :: "nat \<Rightarrow> manager \<Rightarrow> bool" where
  "due n m \<longleftrightarrow> n \<le> next_update m \<and> (lvm_delayed_update_id m \<or> n < next_update m)"

lemma due_apart: "due n m \<Longrightarrow> apart u m m' \<Longrightarrow> due n m'"
  by (auto simp: due_def apart_def)

lemma cycle_starts:
  assumes "lvm_update env now spawn ignore_locks task m = Inr m'"
  shows "next_update m' = Suc (next_update m)"
proof -
  have "apart (Suc (next_update m)) (new_cycle ignore_locks task m) m'"
  proof (cases "storage_daemon_spawn_for_variant (env_lib env) (env_data env) (the_daemon (mgr_world m)) spawn lvm_list_argv")
    case (Inr r)
    then have "m' = new_cycle ignore_locks task m\<lparr>list_helpers := list_helpers m @ [next_update m]\<rparr>"
      using assms by (simp add: lvm_update_def new_cycle_def Let_def)
    then show ?thesis by (simp add: apart_def)
  next
    case (Inl f)
    with assms have "lvm_update_from_variant env now spawn (next_update m) (names_of env f)
        (new_cycle ignore_locks task m) = Inr m'"
      by (simp add: lvm_update_def new_cycle_def Let_def)
    then show ?thesis by (rule apart_list_answer) simp
  qed
  then show ?thesis by (simp add: apart_def new_cycle_def)
qed

lemma timer_starts:
  "delayed_lvm_update env now spawn m = Inr m' \<Longrightarrow> next_update m' = Suc (next_update m)"
  by (auto simp: delayed_lvm_update_def ebind_Inr dest: cycle_starts)

lemma due_step:
  assumes due: "due n m" and step: "manager_step env m e = Inr m'"
  shows "due n m'"
proof (cases e)
  case (InitAsync now spawn)
  with step due cycle_starts show ?thesis by (fastforce simp: storage_manager_init_async_def due_def)
next
  case (ListDone now spawn v result)
  have "apart (Suc v) m m'" if "v \<in> set (list_helpers m)"
  proof -
    have "apart (Suc v) (m\<lparr>list_helpers := filter (\<lambda>w. w \<noteq> v) (list_helpers m)\<rparr>) m'"
      by (rule apart_list_answer [of env now spawn v "names_of env result"]) (use step that ListDone in simp_all)
    then show ?thesis by (simp add: apart_def)
  qed
  with due step ListDone show ?thesis by (auto split: if_splits intro: due_apart)
next
  case (GroupDone now i result)
  obtain v t where vt: "group_helpers m ! i = (v, t)" by fastforce
  have "apart (Suc v) (m\<lparr>group_helpers := drop_nth i (group_helpers m)\<rparr>) m'" if "i < length (group_helpers m)"
    using step that vt by (intro apart_group_answer) (auto simp: GroupDone)
  with due step GroupDone show ?thesis by (auto simp: due_def apart_def split: if_splits)
next
  case (DelayedTimer now spawn)
  with step due timer_starts show ?thesis by (fastforce simp: due_def split: if_splits)
next
  case (Uevent device real_block)
  with step due show ?thesis
    by (auto simp: handle_block_uevent_for_lvm_def trigger_delayed_lvm_update_def due_def split: if_splits)
next
  case (ObjectAdded interfaces)
  with step due on_udisks_object_added_frame show ?thesis by (fastforce simp: due_def)
next
  case (ObjectRemoved interfaces)
  with step due on_udisks_object_removed_frame [of interfaces m] show ?thesis by (fastforce simp: due_def)
qed

interpretation du: guarded_machine "manager_step env" "due n" for env n
  by unfold_locales (rule due_step)

text \<open>
  C16: A udev event about a logical volume, about a device with a physical-volume label, or about a
  block that is exported as a physical volume leads to a new cycle, whatever happens between the
  event and the next time the timer may fire. Any number of events in between share that cycle.
\<close>

theorem uevent_leads_to_update:
  assumes "is_logical_volume device \<or> has_physical_volume_label device \<or>
      is_recorded_as_physical_volume m real_block"
    and "run_steps (manager_step env) m (Uevent device real_block # es @ [DelayedTimer now spawn]) = Inr m'"
  shows "next_update m < next_update m'"
proof -
  have "due (next_update m) (handle_block_uevent_for_lvm m device real_block)"
    using assms(1) by (auto simp: due_def handle_block_uevent_for_lvm_def trigger_delayed_lvm_update_def)
  moreover have "run_steps (manager_step env) (handle_block_uevent_for_lvm m device real_block)
      (es @ [DelayedTimer now spawn]) = Inr m'" using assms(2) by simp
  ultimately obtain m1 where "due (next_update m) m1"
    and timer: "run_steps (manager_step env) m1 [DelayedTimer now spawn] = Inr m'"
    by (rule du.prefix_inv)
  then show ?thesis using timer_starts [of env now spawn m1]
    by (auto simp: due_def split: sum.splits if_splits)
qed

lemma uevent_leads_to_update_witness:
  "\<exists>m'. run_steps (manager_step one_group) (storage_manager_new (storage_daemon_init True None))
       (Uevent [(''ID_FS_TYPE'', ''LVM2_member'')] None # [] @ [DelayedTimer 0 (\<lambda>_. Inr 7)]) = Inr m' \<and>
     0 < next_update m'"
proof -
  obtain m' where run: "run_steps (manager_step one_group) (storage_manager_new (storage_daemon_init True None))
      (Uevent [(''ID_FS_TYPE'', ''LVM2_member'')] None # [] @ [DelayedTimer 0 (\<lambda>_. Inr 7)]) = Inr m'"
    by (simp add: manager_eval handle_block_uevent_for_lvm_def has_physical_volume_label_def
        trigger_delayed_lvm_update_def delayed_lvm_update_def)
  with uevent_leads_to_update [OF _ run] show ?thesis
    by (auto simp: has_physical_volume_label_def storage_manager_new_def)
qed

section \<open>The table of groups\<close>

abbreviation group_thing :: "volume_group htab \<Rightarrow> string \<Rightarrow> thing option" where
  "group_thing t k \<equiv> map_option vgo_thing (ht_lookup t k)"

lemma vg_done_groups:
  "lvm_vg_update_done u m = Inr m' \<Longrightarrow>
   name_to_volume_group m' = name_to_volume_group m \<and> dropped_groups m' = dropped_groups m"
  by (auto simp: lvm_vg_update_done_def lvm_update_done_def trigger_delayed_lvm_update_def Let_def
      split: option.splits if_splits)

lemma update_listed_group_table:
  assumes "update_listed_group env now spawn u ignore_locks name m = Inr m'"
  shows "ht_keys (name_to_volume_group m') = insert name (ht_keys (name_to_volume_group m)) \<and>
    dropped_groups m' = dropped_groups m \<and>
    (\<forall>k\<in>ht_keys (name_to_volume_group m). group_thing (name_to_volume_group m') k = group_thing (name_to_volume_group m) k)"
proof -
  obtain m1 g where add: "add_group name m = (m1, g)" by fastforce
  have 1: "ht_keys (name_to_volume_group m1) = insert name (ht_keys (name_to_volume_group m))"
    "dropped_groups m1 = dropped_groups m" "ht_lookup (name_to_volume_group m1) name = Some g"
    "\<forall>k\<in>ht_keys (name_to_volume_group m). group_thing (name_to_volume_group m1) k = group_thing (name_to_volume_group m) k"
    using add
    by (auto simp: add_group_def Let_def ht.keys_ins ht.lookup_ins split: option.splits prod.splits if_splits)
      (auto simp: ht.keys_dom)
  show ?thesis
  proof (cases "storage_daemon_spawn_for_variant (env_lib env) (env_data env) (the_daemon (mgr_world m1)) spawn
      (storage_volume_group_update g ignore_locks)")
    case (Inr r)
    with assms 1 show ?thesis by (auto simp: update_listed_group_def add Let_def)
  next
    case (Inl f)
    obtain r where r: "update_with_variant (env_os env) now (answer_of env f) (mgr_world m1) g = Inr r"
      using assms Inl by (auto simp: update_listed_group_def add Let_def ebind_Inr)
    obtain w h called where "r = (w, h, called)" by (cases r)
    note up = r [unfolded this]
    let ?m = "m1\<lparr>update_datas := count_pending u 1 (update_datas m1), mgr_world := w,
      name_to_volume_group := ht_insert (name_to_volume_group m1) name h\<rparr>"
    have "(if called then lvm_vg_update_done u ?m else Inr ?m) = Inr m'"
      using assms Inl up by (simp add: update_listed_group_def add Let_def)
    then have "name_to_volume_group m' = ht_insert (name_to_volume_group m1) name h" "dropped_groups m' = dropped_groups m1"
      using vg_done_groups [of u ?m m'] by (auto split: if_splits)
    with 1 update_with_variant_thing(1) [OF up] show ?thesis by (auto simp: ht.keys_ins ht.lookup_ins)
  qed
qed

lemma update_listed_groups_table:
  "update_listed_groups env now spawn u ignore_locks names m = Inr m' \<Longrightarrow>
   ht_keys (name_to_volume_group m') = set names \<union> ht_keys (name_to_volume_group m) \<and>
   dropped_groups m' = dropped_groups m \<and>
   (\<forall>k\<in>ht_keys (name_to_volume_group m). group_thing (name_to_volume_group m') k = group_thing (name_to_volume_group m) k)"
proof (induction names arbitrary: m)
  case (Cons name names)
  then obtain m1 where 1: "update_listed_group env now spawn u ignore_locks name m = Inr m1"
    and 2: "update_listed_groups env now spawn u ignore_locks names m1 = Inr m'" by (auto simp: ebind_Inr)
  from update_listed_group_table [OF 1] Cons.IH [OF 2] show ?case by auto
qed simp

lemma remove_obsolete_groups_list:
  "remove_obsolete_groups names w gs = Inr (w', gs', dropped) \<Longrightarrow>
   gs' = filter (\<lambda>(k, _). k \<in> names) gs \<and>
   map vgo_thing dropped = map (vgo_thing \<circ> snd) (filter (\<lambda>(k, _). k \<notin> names) gs)"
proof (induction gs arbitrary: w w' gs' dropped)
  case (Cons kg gs)
  obtain k g where kg: "kg = (k, g)" by fastforce
  show ?case
  proof (cases "k \<in> names")
    case True
    with Cons.prems obtain gs1 where "remove_obsolete_groups names w gs = Inr (w', gs1, dropped)" "gs' = (k, g) # gs1"
      by (auto simp: kg ebind_Inr)
    with Cons.IH True show ?thesis by (auto simp: kg)
  next
    case False
    with Cons.prems obtain w1 g1 dr where "storage_volume_group_dispose w g = Inr (w1, g1)"
      and "remove_obsolete_groups names w1 gs = Inr (w', gs', dr)" "dropped = g1 # dr"
      by (auto simp: kg ebind_Inr)
    with Cons.IH [of w1 w' gs' dr] False dispose_thing [of w g w1 g1] show ?thesis by (simp add: kg)
  qed
qed simp

lemma list_answer_tables:
  assumes run: "lvm_update_from_variant env now spawn u (Inr names) m = Inr m'"
    and wf: "ht_wf (name_to_volume_group m)"
  shows "ht_keys (name_to_volume_group m') = set names \<and>
    (\<forall>k\<in>set names \<inter> ht_keys (name_to_volume_group m).
       group_thing (name_to_volume_group m') k = group_thing (name_to_volume_group m) k) \<and>
    (\<exists>gone. dropped_groups m' = dropped_groups m @ gone \<and>
       map vgo_thing gone = map (vgo_thing \<circ> snd) (filter (\<lambda>(k, _). k \<notin> set names) (name_to_volume_group m)))"
proof -
  obtain d where d: "live m u = Some d" using run by (auto simp: lvm_update_from_variant_def split: option.splits)
  obtain r where r: "remove_obsolete_groups (set names) (mgr_world m) (name_to_volume_group m) = Inr r"
    using run d by (auto simp: lvm_update_from_variant_def ebind_Inr)
  obtain w gs gone where "r = (w, gs, gone)" by (cases r)
  note r = r [unfolded this]
  let ?m = "m\<lparr>mgr_world := w, name_to_volume_group := gs, dropped_groups := dropped_groups m @ gone\<rparr>"
  from run d r obtain m1 d' where
    1: "update_listed_groups env now spawn u (upd_ignore_locks d) names ?m = Inr m1"
    and m': "m' = (if pending_vg_updates d' = 0 then lvm_update_done u d' m1 else m1)"
    by (auto simp: lvm_update_from_variant_def ebind_Inr split: option.splits)
  have gs: "gs = filter (\<lambda>(k, _). k \<in> set names) (name_to_volume_group m)"
    and gone: "map vgo_thing gone = map (vgo_thing \<circ> snd) (filter (\<lambda>(k, _). k \<notin> set names) (name_to_volume_group m))"
    using remove_obsolete_groups_list [OF r] by simp_all
  have same: "name_to_volume_group m' = name_to_volume_group m1" "dropped_groups m' = dropped_groups m1"
    using m' by (simp_all add: lvm_update_done_def trigger_delayed_lvm_update_def Let_def)
  have keys: "ht_keys gs = set names \<inter> ht_keys (name_to_volume_group m)"
    by (auto simp: gs ht_keys_def)
  have lookup: "ht_lookup gs k = ht_lookup (name_to_volume_group m) k" if "k \<in> set names" for k
  proof -
    have "map_of (filter (\<lambda>(k, _). k \<in> set names) t) k = map_of t k" for t :: "volume_group htab"
      using that by (induction t) auto
    then show ?thesis by (simp add: gs ht_lookup_def)
  qed
  show ?thesis
    using update_listed_groups_table [OF 1] keys lookup gone unfolding same by auto
qed

lemmas list_answer_keys = list_answer_tables [THEN conjunct1]

text \<open>
  C17: When LVM has listed its groups, the table holds exactly the groups of the list, each group
  that stays is the object it was, and the groups that are no longer listed, and only they, have
  left.
\<close>

theorem listed_groups_exact:
  assumes run: "lvm_update_from_variant env now spawn u (Inr names) m = Inr m'"
    and wf: "ht_wf (name_to_volume_group m)"
  shows "ht_keys (name_to_volume_group m') = set names \<and>
    (\<forall>k\<in>set names \<inter> ht_keys (name_to_volume_group m).
       group_thing (name_to_volume_group m') k = group_thing (name_to_volume_group m) k) \<and>
    (\<exists>gone. dropped_groups m' = dropped_groups m @ gone \<and>
       map vgo_thing gone = map (vgo_thing \<circ> snd) (filter (\<lambda>(k, _). k \<notin> set names) (name_to_volume_group m)))"
  using assms by (rule list_answer_tables)

lemma listed_groups_exact_witness:
  "\<exists>m m'. run_steps (manager_step one_group) (storage_manager_new (storage_daemon_init True None)) start_up = Inr m \<and>
     lvm_update_from_variant one_group 0 (\<lambda>_. Inr 9) 0 (Inr [''vg1'', ''vg0'']) m = Inr m' \<and>
     ht_keys (name_to_volume_group m') = {''vg0'', ''vg1''}"
proof -
  obtain m where m: "run_steps (manager_step one_group) (storage_manager_new (storage_daemon_init True None)) start_up = Inr m"
    and run: "\<exists>m'. lvm_update_from_variant one_group 0 (\<lambda>_. Inr 9) 0 (Inr [''vg1'', ''vg0'']) m = Inr m'"
    by (simp add: manager_eval)
  then obtain m' where run: "lvm_update_from_variant one_group 0 (\<lambda>_. Inr 9) 0 (Inr [''vg1'', ''vg0'']) m = Inr m'"
    by blast
  have "cycles_ok m" using storage_manager_new_ok(1) m by (rule cy.run_inv)
  then have "ht_wf (name_to_volume_group m)" by (simp add: cycles_ok_def)
  with listed_groups_exact [OF run] m run show ?thesis by auto
qed

end
