(* ===== verification/Manager_Groups.thy ===== *)
theory Manager_Groups
  imports Manager_Updates
begin

text \<open>
  All groups of the manager at once: the groups of the table and their volumes are on the bus at the
  paths of their names, and no other group or volume is, whatever the order of the events. Groups
  that were disposed may still get the answer of a helper; they publish nothing.
\<close>

section \<open>The paths of different groups\<close>

lemma no_slash_escape: "CHR ''/'' \<notin> set (escape name)"
  using escape_chars [of name] by (auto simp: list_all_iff path_char_def)

lemma split_slash: "c \<notin> set xs \<Longrightarrow> c \<notin> set ys \<Longrightarrow> xs @ c # us = ys @ c # vs \<longleftrightarrow> xs = ys \<and> us = vs"
proof (induction xs arbitrary: ys)
  case Nil
  then show ?case by (cases ys) auto
next
  case (Cons x xs)
  then show ?case by (cases ys) auto
qed

lemma own_paths_disjoint:
  assumes "escape m \<noteq> escape n"
  shows "own_paths m \<inter> own_paths n = {}"
proof -
  have "escape m \<noteq> escape n @ ''/'' @ escape k" "escape n \<noteq> escape m @ ''/'' @ escape k" for k
    using no_slash_escape [of m] no_slash_escape [of n] by auto
  moreover have "escape m @ ''/'' @ escape j \<noteq> escape n @ ''/'' @ escape k" for j k
    using assms split_slash [OF no_slash_escape no_slash_escape] by auto
  ultimately show ?thesis using assms by (auto simp: own_paths_def volume_path_def group_path_def)
qed

section \<open>The groups of the table and those that were disposed\<close>

definition in_place :: "string set \<Rightarrow> daemon \<Rightarrow> volume_group \<Rightarrow> bool" where
  "in_place S d g \<longleftrightarrow>
     vgo_name g \<in> S \<and> ht_keys (logical_volumes g) \<subseteq> S \<and> (group_ok d g \<or> group_new d g)"

definition gone :: "daemon \<Rightarrow> volume_group \<Rightarrow> bool" where
  "gone d z \<longleftrightarrow>
     \<not> need_publish z \<and> ht_wf (logical_volumes z) \<and> thing_type (vgo_thing z) = StorageVolumeGroup \<and>
     (\<forall>k v. ht_lookup (logical_volumes z) k = Some v \<longrightarrow> thing_type (lvo_thing v) = StorageLogicalVolume) \<and>
     (\<forall>t \<in> group_things z. thing_id t < next_thing d \<and> places (objects d) t = {})"

definition family_ok :: "string set \<Rightarrow> world \<Rightarrow> volume_group set \<Rightarrow> volume_group set \<Rightarrow> bool" where
  "family_ok S w G Z \<longleftrightarrow>
     world_ok w \<and> (\<forall>g \<in> G. in_place S (the_daemon w) g) \<and> (\<forall>z \<in> Z. gone (the_daemon w) z) \<and>
     inj_on vgo_name G \<and> inj_on vgo_thing (G \<union> Z) \<and>
     (\<forall>t. lvm_type (thing_type t) \<longrightarrow> places (objects (the_daemon w)) t \<noteq> {} \<longrightarrow> (\<exists>g \<in> G. t \<in> group_things g))"

lemma group_things_cases:
  assumes "t \<in> group_things g"
  obtains "t = vgo_thing g" | k v where "ht_lookup (logical_volumes g) k = Some v" and "t = lvo_thing v"
  using assms by (auto simp: group_things_def)

lemma group_thingsI:
  "vgo_thing g \<in> group_things g"
  "ht_lookup (logical_volumes g) k = Some v \<Longrightarrow> lvo_thing v \<in> group_things g"
  by (auto simp: group_things_def intro!: exI [of _ k])

lemma gone_types: "gone d z \<Longrightarrow> t \<in> group_things z \<Longrightarrow> lvm_type (thing_type t)"
  by (auto simp: gone_def lvm_type_def elim!: group_things_cases)

lemma ok_things:
  assumes "group_ok d g" and "t \<in> group_things g"
  shows "lvm_type (thing_type t)" and "\<exists>p \<in> own_paths (vgo_name g). places (objects d) t = {p}"
  using assms(1) by (cases rule: group_things_cases [OF assms(2)];
      fastforce simp: group_ok_def volume_ok_def lvm_type_def own_paths_def)+

lemma new_things: "group_new d g \<Longrightarrow> group_things g = {vgo_thing g}"
  by (simp add: group_new_def group_things_def ht_lookup_def)

lemma placed_known:
  assumes "bus_ok d" and "places (objects d) t \<noteq> {}"
  shows "thing_id t < next_thing d"
  using assms by (auto simp: bus_ok_def places_iff)

lemma place_known:
  assumes "bus_ok d" and "in_place S d g" and "t \<in> group_things g"
  shows "thing_id t < next_thing d"
  using assms ok_things(2) [of d g t] placed_known [of d t]
  by (auto simp: in_place_def new_things group_new_def)

text \<open>Two groups of the table have no instance in common.\<close>

lemma things_disjoint:
  assumes "family_ok S w G Z" and "inj_on escape S" and "g \<in> G" and "h \<in> G" and "g \<noteq> h"
  shows "group_things g \<inter> group_things h = {}"
proof (rule ccontr)
  let ?d = "the_daemon w"
  assume "group_things g \<inter> group_things h \<noteq> {}"
  then obtain t where t: "t \<in> group_things g" "t \<in> group_things h" by blast
  have in_S: "vgo_name g \<in> S" "vgo_name h \<in> S" and "vgo_name g \<noteq> vgo_name h" "vgo_thing g \<noteq> vgo_thing h"
    and state: "group_ok ?d g \<or> group_new ?d g" "group_ok ?d h \<or> group_new ?d h"
    using assms by (auto simp: family_ok_def in_place_def inj_on_def)
  then have "own_paths (vgo_name g) \<inter> own_paths (vgo_name h) = {}"
    using assms(2) by (intro own_paths_disjoint) (auto simp: inj_on_def)
  then show False
    using state t ok_things(2) [of ?d g t] ok_things(2) [of ?d h t] \<open>vgo_thing g \<noteq> vgo_thing h\<close>
    by (auto simp: new_things group_new_def disjoint_iff)
qed

section \<open>What one group does leaves the others in place\<close>

lemma ok_aside:
  assumes "aside n T d d'" and "group_ok d h" and "T \<inter> group_things h = {}" and "own_paths n \<inter> own_paths (vgo_name h) = {}"
  shows "group_ok d' h"
proof -
  have "places (objects d') t = places (objects d) t" if t: "t \<in> group_things h" for t
  proof -
    obtain p where p: "p \<in> own_paths (vgo_name h)" "places (objects d) t = {p}"
      using ok_things(2) [OF assms(2) t] by blast
    moreover have "lvm_type (thing_type t)" by (rule ok_things(1) [OF assms(2) t])
    moreover have "t \<notin> T" using assms(3) t by blast
    ultimately show ?thesis using assms(1,4) by (fastforce simp: aside_def)
  qed
  then show ?thesis
    using assms(2) by (simp add: group_ok_def volume_ok_def group_thingsI)
qed

lemma new_aside:
  assumes "aside n T d d'" and "group_new d h" and "vgo_thing h \<notin> T"
  shows "group_new d' h"
  using assms by (fastforce simp: aside_def group_new_def lvm_type_def)

lemma gone_aside:
  assumes "aside n T d d'" and "gone d z" and "T \<inter> group_things z = {}"
  shows "gone d' z"
  using assms gone_types [OF assms(2)] by (fastforce simp: aside_def gone_def)

lemma family_move:
  assumes fam: "family_ok S w G Z" and inj: "inj_on escape S" and g: "g \<in> G"
    and moves: "group_moves (the_daemon w) (the_daemon w') g g'"
  shows "\<forall>h \<in> G - {g}. in_place S (the_daemon w') h"
    and "\<forall>z \<in> Z. gone (the_daemon w') z"
    and "\<forall>t. lvm_type (thing_type t) \<longrightarrow> places (objects (the_daemon w')) t \<noteq> {} \<longrightarrow>
           t \<in> group_things g' \<or> (\<exists>h \<in> G - {g}. t \<in> group_things h)"
proof -
  let ?d = "the_daemon w" and ?d' = "the_daemon w'"
  obtain T where T: "group_things g \<subseteq> T" "group_things g' \<subseteq> T"
      "\<forall>t\<in>T. t \<in> group_things g \<or> next_thing ?d \<le> thing_id t" "aside (vgo_name g) T ?d ?d'"
      "\<forall>t\<in>T. t \<notin> group_things g' \<longrightarrow> places (objects ?d') t = {}"
    using moves unfolding group_moves_def by blast
  have bus: "bus_ok ?d" using fam by (simp add: family_ok_def world_ok_def)
  show "\<forall>h \<in> G - {g}. in_place S ?d' h"
  proof
    fix h
    assume h: "h \<in> G - {g}"
    then have place: "in_place S ?d h" using fam by (simp add: family_ok_def)
    have "T \<inter> group_things h = {}"
      using T(3) things_disjoint [OF fam inj g, of h] place_known [OF bus place] h by fastforce
    moreover have "vgo_name g \<noteq> vgo_name h" "vgo_name g \<in> S" "vgo_name h \<in> S"
      using fam g h by (auto simp: family_ok_def in_place_def inj_on_def)
    then have "own_paths (vgo_name g) \<inter> own_paths (vgo_name h) = {}"
      using inj by (intro own_paths_disjoint) (auto simp: inj_on_def)
    ultimately show "in_place S ?d' h"
      using place ok_aside [OF T(4)] new_aside [OF T(4)] by (auto simp: in_place_def new_things)
  qed
  show "\<forall>z \<in> Z. gone ?d' z"
  proof
    fix z
    assume z: "z \<in> Z"
    then have "gone ?d z" using fam by (simp add: family_ok_def)
    moreover have "t \<notin> group_things g" if t: "t \<in> group_things z" for t
    proof
      assume tg: "t \<in> group_things g"
      have "places (objects ?d) t = {}" using \<open>gone ?d z\<close> t by (simp add: gone_def)
      moreover have "group_ok ?d g \<or> group_new ?d g" using fam g by (simp add: family_ok_def in_place_def)
      ultimately have new: "group_new ?d g" "t = vgo_thing g"
        using tg ok_things(2) [of ?d g t] by (auto simp: new_things)
      then have "thing_type t = StorageVolumeGroup" "g \<noteq> z" using \<open>gone ?d z\<close> by (auto simp: group_new_def gone_def)
      then have "t = vgo_thing z" using t \<open>gone ?d z\<close> by (auto simp: gone_def elim: group_things_cases)
      with new \<open>g \<noteq> z\<close> g z fam show False by (auto simp: family_ok_def inj_on_def)
    qed
    ultimately have "T \<inter> group_things z = {}" using T(3) by (fastforce simp: gone_def)
    then show "gone ?d' z" using gone_aside [OF T(4)] \<open>gone ?d z\<close> by blast
  qed
  show "\<forall>t. lvm_type (thing_type t) \<longrightarrow> places (objects ?d') t \<noteq> {} \<longrightarrow>
      t \<in> group_things g' \<or> (\<exists>h \<in> G - {g}. t \<in> group_things h)"
  proof (intro allI impI)
    fix t
    assume t: "lvm_type (thing_type t)" "places (objects ?d') t \<noteq> {}"
    show "t \<in> group_things g' \<or> (\<exists>h \<in> G - {g}. t \<in> group_things h)"
    proof (cases "t \<in> T")
      case False
      with T(4) t have "places (objects ?d) t \<noteq> {}" by (auto simp: aside_def)
      with fam t False T(1) show ?thesis by (fastforce simp: family_ok_def)
    qed (use T(5) t in blast)
  qed
qed

text \<open>A group of the table is not one that was disposed.\<close>

lemma family_apart:
  assumes "family_ok S w G Z" and "g \<in> G"
  shows "\<And>z. z \<in> Z \<Longrightarrow> vgo_thing z \<noteq> vgo_thing g"
    and "\<And>h. h \<in> G - {g} \<Longrightarrow> vgo_thing h \<noteq> vgo_thing g"
    and "\<And>h. h \<in> G - {g} \<Longrightarrow> vgo_name h \<noteq> vgo_name g"
proof -
  fix z
  assume z: "z \<in> Z"
  have "gone (the_daemon w) z" "in_place S (the_daemon w) g" using assms z by (simp_all add: family_ok_def)
  then have "z \<noteq> g" using group_thingsI(1) [of g] by (auto simp: gone_def in_place_def group_ok_def group_new_def)
  with assms z show "vgo_thing z \<noteq> vgo_thing g" by (auto simp: family_ok_def inj_on_def)
next
  show "vgo_thing h \<noteq> vgo_thing g" if "h \<in> G - {g}" for h using assms that by (auto simp: family_ok_def inj_on_def)
  show "vgo_name h \<noteq> vgo_name g" if "h \<in> G - {g}" for h using assms that by (auto simp: family_ok_def inj_on_def)
qed

lemma family_inj:
  assumes "family_ok S w G Z" and "g \<in> G" and "vgo_thing g' = vgo_thing g"
  shows "inj_on vgo_thing (insert g' (G - {g} \<union> Z))"
proof -
  have "inj_on vgo_thing (G - {g} \<union> Z)" using assms(1) by (auto simp: family_ok_def inj_on_def)
  moreover have "vgo_thing g' \<notin> vgo_thing ` (G - {g} \<union> Z)" using family_apart [OF assms(1,2)] assms(3) by force
  ultimately show ?thesis by auto
qed

lemma family_update:
  assumes "family_ok S w G Z" and "inj_on escape S" and "g \<in> G"
    and "group_moves (the_daemon w) (the_daemon w') g g'" and "world_ok w'"
    and "vgo_name g' = vgo_name g" and "vgo_thing g' = vgo_thing g" and "in_place S (the_daemon w') g'"
  shows "family_ok S w' (insert g' (G - {g})) Z"
proof -
  note m = family_move [OF assms(1-4)]
  have "inj_on vgo_name (G - {g})" using assms(1) by (auto simp: family_ok_def inj_on_def)
  moreover have "vgo_name g' \<notin> vgo_name ` (G - {g})" using family_apart(3) [OF assms(1,3)] assms(6) by force
  ultimately have "inj_on vgo_name (insert g' (G - {g}))" by auto
  with m assms(5,8) family_inj [OF assms(1,3,7)] show ?thesis by (simp add: family_ok_def)
qed

lemma family_drop:
  assumes "family_ok S w G Z" and "inj_on escape S" and "g \<in> G"
    and "group_moves (the_daemon w) (the_daemon w') g g'" and "world_ok w'"
    and "vgo_thing g' = vgo_thing g" and "gone (the_daemon w') g'"
  shows "family_ok S w' (G - {g}) (insert g' Z)"
proof -
  note m = family_move [OF assms(1-4)]
  have "inj_on vgo_name (G - {g})" using assms(1) by (auto simp: family_ok_def inj_on_def)
  moreover have "inj_on vgo_thing (G - {g} \<union> insert g' Z)" using family_inj [OF assms(1,3,6)] by simp
  moreover have "\<exists>h \<in> G - {g}. t \<in> group_things h"
    if "lvm_type (thing_type t)" "places (objects (the_daemon w')) t \<noteq> {}" for t
    using m(3) that assms(7) by (auto simp: gone_def)
  ultimately show ?thesis using m(1,2) assms(5,7) by (simp add: family_ok_def)
qed

text \<open>Nothing that happens elsewhere touches a family.\<close>

definition still :: "daemon \<Rightarrow> daemon \<Rightarrow> bool" where
  "still d d' \<longleftrightarrow> next_thing d \<le> next_thing d' \<and>
     (\<forall>t. lvm_type (thing_type t) \<longrightarrow> places (objects d') t = places (objects d) t)"

lemma still_trans: "still d e \<Longrightarrow> still e f \<Longrightarrow> still d f"
  by (simp add: still_def)

lemma still_aside: "still d d' \<Longrightarrow> aside n T d d'"
  by (auto simp: still_def aside_def)

lemma still_group:
  assumes "still d d'"
  shows "in_place S d g \<Longrightarrow> in_place S d' g" and "gone d z \<Longrightarrow> gone d' z"
proof -
  show "gone d z \<Longrightarrow> gone d' z" using gone_aside [OF still_aside [OF assms, of "[]" "{}"]] by simp
  have "group_ok d g \<Longrightarrow> group_ok d' g"
    using assms by (auto simp: group_ok_def volume_ok_def still_def lvm_type_def)
  moreover have "group_new d g \<Longrightarrow> group_new d' g"
    using assms by (auto simp: group_new_def still_def lvm_type_def)
  ultimately show "in_place S d g \<Longrightarrow> in_place S d' g" by (auto simp: in_place_def)
qed

lemma family_still:
  assumes "family_ok S w G Z" and "world_ok w'" and "still (the_daemon w) (the_daemon w')"
  shows "family_ok S w' G Z"
  using assms still_group [OF assms(3)] by (auto simp: family_ok_def still_def)

lemma family_new:
  assumes fam: "family_ok S w G Z" and n: "new_thing (the_daemon w) StorageVolumeGroup = (d, t)"
    and name: "name \<in> S" "name \<noteq> []" "name \<notin> vgo_name ` G"
  shows "family_ok S (w\<lparr>the_daemon := d\<rparr>) (insert (storage_volume_group_new t name) G) Z"
proof -
  let ?g = "storage_volume_group_new t name"
  have d: "objects d = objects (the_daemon w)" "next_thing d = Suc (next_thing (the_daemon w))"
    and t: "t = Thing (next_thing (the_daemon w)) StorageVolumeGroup" using n by (auto simp: new_thing_def)
  have w: "world_ok w" and bus: "bus_ok (the_daemon w)" using fam by (simp_all add: family_ok_def world_ok_def)
  have st: "still (the_daemon w) d" by (simp add: still_def d)
  have "off_blocks (the_daemon w) d"
    using bus_ok_new [OF bus n] by (simp add: off_blocks_def interfaces_at_def d)
  from family_still [OF fam world_ok_off_blocks [OF w this]] st
  have fam': "family_ok S (w\<lparr>the_daemon := d\<rparr>) G Z" by simp
  have "group_new d ?g"
    using fresh_place [OF bus, of t] by (simp add: group_new_def storage_volume_group_new_def name d t)
  then have "in_place S d ?g"
    by (simp add: in_place_def storage_volume_group_new_def name ht_keys_def)
  moreover have "vgo_thing h \<noteq> t" if "h \<in> G \<union> Z" for h
  proof -
    have "in_place S (the_daemon w) h \<or> gone (the_daemon w) h" using that fam by (auto simp: family_ok_def)
    then have "thing_id (vgo_thing h) < next_thing (the_daemon w)"
      using place_known [OF bus _ group_thingsI(1)] group_thingsI(1) [of h] by (auto simp: gone_def)
    then show ?thesis by (auto simp: t)
  qed
  then have "vgo_thing ?g \<notin> vgo_thing ` (G \<union> Z)" by (force simp: storage_volume_group_new_def)
  moreover have "vgo_name ?g \<notin> vgo_name ` G" using name by (simp add: storage_volume_group_new_def)
  ultimately show ?thesis using fam' by (auto simp: family_ok_def)
qed

section \<open>The answer about a group of the table\<close>

definition good_answer :: "string set \<Rightarrow> gerror + vardict \<Rightarrow> bool" where
  "good_answer S answer \<longleftrightarrow>
     (case answer of Inl _ \<Rightarrow> True | Inr info \<Rightarrow> set (visible_names (dicts_of info ''lvs'')) \<subseteq> S)"

text \<open>What an answer achieves for its group.\<close>

definition settles :: "string set \<Rightarrow> world \<Rightarrow> volume_group \<Rightarrow> world \<Rightarrow> volume_group \<Rightarrow> bool" where
  "settles S w g w' g' \<longleftrightarrow>
     world_ok w' \<and> in_place S (the_daemon w') g' \<and> group_moves (the_daemon w) (the_daemon w') g g' \<and>
     vgo_name g' = vgo_name g \<and> vgo_thing g' = vgo_thing g \<and> \<not> need_publish g'"

lemma published_settles:
  assumes "world_ok w" and "in_place S (the_daemon w) g" and "published_group w g = (w', g')"
  shows "settles S w g w' g'"
proof -
  have g: "group_ok (the_daemon w) g \<or> group_new (the_daemon w) g" using assms(2) by (simp add: in_place_def)
  note pub = published_group_ok [OF assms(1) g assms(3)]
  have same: "vgo_thing g' = vgo_thing g" "vgo_name g' = vgo_name g" "logical_volumes g' = logical_volumes g"
    using assms(3) by (auto simp: published_group_def split: if_splits)
  have things: "group_things g' = group_things g" by (simp add: group_things_def same)
  have "thing_type (vgo_thing g) = StorageVolumeGroup" using g by (auto simp: group_ok_def group_new_def)
  then have "aside (vgo_name g) (group_things g) (the_daemon w) (the_daemon w')"
    using published_group_aside [OF _ assms(3)] group_thingsI(1) [of g] by (auto intro: aside_mono)
  then have "group_moves (the_daemon w) (the_daemon w') g g'" by (auto simp: group_moves_def things)
  then show ?thesis
    using pub assms(2) same by (auto simp: settles_def in_place_def group_ok_def)
qed

lemma update_with_error:
  "update_with_variant os now (Inl e) w g = Inr (fst (published_group w g), snd (published_group w g), False)"
  by (simp add: update_with_variant_def published_group_def)

lemma props_in_place:
  "in_place S d (volume_group_update_props g info) = in_place S d g"
  "group_things (volume_group_update_props g info) = group_things g"
  by (simp_all add: in_place_def group_ok_def group_new_def volume_ok_def group_things_def)

lemma answer_settles:
  assumes "world_ok w" and "in_place S (the_daemon w) g" and "inj_on escape S" and "good_answer S answer"
    and u: "update_with_variant os now answer w g = Inr (w', g', called)"
  shows "settles S w g w' g'"
proof (cases answer)
  case (Inl e)
  then have "published_group w g = (w', g')" using u by (simp add: update_with_error prod_eq_iff)
  then show ?thesis by (rule published_settles [OF assms(1,2)])
next
  case (Inr info)
  show ?thesis
  proof (cases "called")
    case True
    let ?N = "ht_keys (logical_volumes g) \<union> set (visible_names (dicts_of info ''lvs''))"
    have "?N \<subseteq> S" using assms(2,4) by (simp add: Inr in_place_def good_answer_def)
    then have inj: "inj_on escape ?N" by (rule inj_on_subset [OF assms(3)])
    have g: "group_ok (the_daemon w) g \<or> group_new (the_daemon w) g" using assms(2) by (simp add: in_place_def)
    have "update_with_variant os now (Inr info) w g = Inr (w', g', True)" using u Inr True by simp
    note run = group_update_run [OF assms(1) g inj this]
    show ?thesis
      using run(1-4,11,12) assms(2) \<open>?N \<subseteq> S\<close> by (auto simp: settles_def in_place_def group_ok_def)
  next
    case False
    obtain w1 g1 where 1: "published_group w (volume_group_update_props g info) = (w1, g1)" by fastforce
    with u False have "w' = w1" "g' = g1"
      by (auto simp: Inr update_with_variant_eq Let_def ebind_Inr split: if_splits prod.splits)
    with published_settles [OF assms(1) _ 1] assms(2) show ?thesis
      by (simp add: settles_def props_in_place group_moves_def)
  qed
qed

section \<open>The answer about a group that was disposed\<close>

text \<open>A change of the daemon in which nothing is exported or withdrawn.\<close>

definition unseen :: "daemon \<Rightarrow> daemon \<Rightarrow> bool" where
  "unseen d d' \<longleftrightarrow> objects d' = objects d \<and> next_thing d \<le> next_thing d' \<and> emitted d' = emitted d"

lemma unseen_still: "unseen d d' \<Longrightarrow> still d d'"
  by (simp add: unseen_def still_def)

lemma unseen_off: "bus_ok d \<Longrightarrow> unseen d d' \<Longrightarrow> off_blocks d d'"
  by (fastforce simp: unseen_def off_blocks_def bus_ok_def interfaces_at_def)

lemma no_place_path:
  assumes "bus_ok d" and "places (objects d) t = {}"
  shows "path_of d t = None"
proof (rule ccontr)
  assume "path_of d t \<noteq> None"
  then obtain p ifs where "(p, ifs) \<in> set (objects d)" "t \<in> set ifs"
    by (auto simp: path_of_def dest!: find_SomeD)
  then have "p \<in> places (objects d) t"
    using assms(1) by (auto simp: places_def ht_lookup_def bus_ok_def ht_wf_def)
  with assms(2) show False by simp
qed

lemma gone_path: "bus_ok d \<Longrightarrow> gone d z \<Longrightarrow> t \<in> group_things z \<Longrightarrow> path_of d t = None"
  by (rule no_place_path) (simp_all add: gone_def)

lemma no_base [simp]: "build_object_path None parts = None"
  by (simp add: build_object_path_def)

lemma gone_volume:
  assumes "gone (the_daemon w) z" and bus: "bus_ok (the_daemon w)"
    and u: "update_volume os now i (w, z, p, ns) = Inr (w', z', p', ns')"
  shows "gone (the_daemon w') z' \<and> unseen (the_daemon w) (the_daemon w') \<and> the_blocks w' = the_blocks w \<and>
    vgo_thing z' = vgo_thing z"
proof -
  obtain name where name: "lookup_s i ''name'' = Some name"
    using u by (auto simp: update_volume_def split: option.splits)
  obtain w1 p1 where o: "update_operations now name i w p = Inr (w1, p1)"
    using u by (auto simp: update_volume_def name ebind_Inr)
  note ops = update_operations_world [OF o]
  have s1: "unseen (the_daemon w) (the_daemon w1)" "bus_ok (the_daemon w1)" "gone (the_daemon w1) z"
    using ops same_bus_off [OF bus] assms(1) by (auto simp: unseen_def same_bus_def off_blocks_def gone_def)
  have no_path: "path_of d (vgo_thing z) = None" if "objects d = objects (the_daemon w1)" for d :: daemon
    using gone_path [OF s1(2,3) group_thingsI(1)] that by (simp add: path_of_def)
  show ?thesis
  proof (cases "lv_is_visible name")
    case False
    with u name o s1 ops show ?thesis by (auto simp: update_volume_def Let_def)
  next
    case True
    show ?thesis
    proof (cases "ht_lookup (logical_volumes z) name")
      case (Some v)
      obtain d' tr' np' v' where uv: "storage_logical_volume_update os (logical_volumes z) (vgo_thing z) i
          (the_daemon w1) (the_calls w1) (p1 \<or> lv_is_pvmove_volume name) v = (d', tr', np', v')"
        by (metis prod_cases4)
      note f = update_simps [OF uv]
      have eq: "w' = w1\<lparr>the_calls := tr'\<rparr>" "z' = z\<lparr>logical_volumes := ht_insert (logical_volumes z) name v'\<rparr>"
        using u name o True Some uv f(4) no_path [of "the_daemon w1"] by (auto simp: update_volume_def Let_def)
      have "group_things z' = group_things z" using Some f(1) by (simp add: eq)
      then have "gone (the_daemon w') z'"
        using s1(3) Some f(1) by (auto simp: eq gone_def ht.invar_ins ht.lookup_ins)
      with s1 ops show ?thesis by (simp add: eq)
    next
      case None
      obtain d1 t where n: "new_thing (the_daemon w1) StorageLogicalVolume = (d1, t)" by fastforce
      obtain d' tr' np' v' where uv: "storage_logical_volume_update os (logical_volumes z) (vgo_thing z) i
          d1 (the_calls w1) (p1 \<or> lv_is_pvmove_volume name)
          (storage_logical_volume_new t (vgo_thing z) name) = (d', tr', np', v')"
        by (metis prod_cases4)
      note f = update_simps [OF uv]
      have d1: "objects d1 = objects (the_daemon w1)" "next_thing d1 = Suc (next_thing (the_daemon w1))"
          "emitted d1 = emitted (the_daemon w1)"
        and t: "t = Thing (next_thing (the_daemon w1)) StorageLogicalVolume" using n by (auto simp: new_thing_def)
      have d': "d' = d1" using f(4) no_path [OF d1(1)] by simp
      have eq: "w' = w1\<lparr>the_daemon := d1, the_calls := tr'\<rparr>"
          "z' = z\<lparr>logical_volumes := ht_insert (logical_volumes z) name v'\<rparr>"
        using u name o True None n uv d' by (auto simp: update_volume_def Let_def)
      have v': "lvo_thing v' = t" using f(1) by (simp add: storage_logical_volume_new_def)
      have "group_things z' = insert t (group_things z)" using group_things_insert [OF None] by (simp add: eq v')
      moreover have "places (objects (the_daemon w1)) t = {}" using fresh_place [OF s1(2), of t] by (simp add: t)
      ultimately have "gone (the_daemon w') z'"
        using s1(3) v' by (auto simp: eq gone_def ht.invar_ins ht.lookup_ins d1 t)
      with s1 ops show ?thesis by (simp add: eq unseen_def d1)
    qed
  qed
qed

lemma gone_volumes:
  "gone (the_daemon w) z \<Longrightarrow> bus_ok (the_daemon w) \<Longrightarrow> update_volumes os now is (w, z, p, ns) = Inr (w', z', p', ns') \<Longrightarrow>
   gone (the_daemon w') z' \<and> unseen (the_daemon w) (the_daemon w') \<and> the_blocks w' = the_blocks w \<and>
   vgo_thing z' = vgo_thing z"
proof (induction "is" arbitrary: w z p ns)
  case Nil
  then show ?case by (simp add: unseen_def)
next
  case (Cons i "is")
  obtain w1 z1 p1 ns1 where 1: "update_volume os now i (w, z, p, ns) = Inr (w1, z1, p1, ns1)"
    and rest: "update_volumes os now is (w1, z1, p1, ns1) = Inr (w', z', p', ns')"
    using Cons.prems(3) by (auto simp: ebind_Inr)
  note g = gone_volume [OF Cons.prems(1,2) 1]
  then have "bus_ok (the_daemon w1)" using unseen_off [OF Cons.prems(2)] by (simp add: off_blocks_def)
  with Cons.IH [OF _ _ rest] g show ?case by (auto simp: unseen_def)
qed

lemma gone_drop:
  assumes "gone d z" and "bus_ok d" and "drop_stale_volumes ns d (logical_volumes z) = (d', vs)"
  shows "d' = d" and "gone d (z\<lparr>logical_volumes := vs, needs_polling := b, physical_volumes := pt\<rparr>)"
proof -
  let ?t = "logical_volumes z"
  have wf: "ht_wf ?t" using assms(1) by (simp add: gone_def)
  have same: "fst (storage_logical_volume_dispose d v) = d" if "(k, v) \<in> set ?t" for k v
  proof -
    have "lvo_thing v \<in> group_things z" using table_things [OF wf] that by force
    with gone_path [OF assms(2,1)] show ?thesis by (simp add: storage_logical_volume_dispose_def Let_def)
  qed
  have "fold (\<lambda>kv d. fst (storage_logical_volume_dispose d (snd kv))) l d = d" if "set l \<subseteq> set ?t" for l
    using that by (induction l) (auto simp: same)
  with assms(3) show "d' = d" by (auto simp: drop_stale_volumes_eq)
  have look: "ht_lookup vs k = (if k \<in> ns then ht_lookup ?t k else None)" for k
    using assms(3) lookup_filter_keys [OF wf] by (auto simp: drop_stale_volumes_eq)
  have "ht_wf vs" using assms(3) wf by (auto simp: drop_stale_volumes_eq ht_wf_def distinct_map_filter)
  moreover have "group_things (z\<lparr>logical_volumes := vs, needs_polling := b, physical_volumes := pt\<rparr>) \<subseteq> group_things z"
    by (auto simp: look group_thingsI elim!: group_things_cases split: if_splits)
  ultimately show "gone d (z\<lparr>logical_volumes := vs, needs_polling := b, physical_volumes := pt\<rparr>)"
    using assms(1) by (auto simp: gone_def look split: if_splits)
qed

lemma blocks_still:
  assumes "world_ok w" and u: "update_all_blocks z w = Inr w'"
  shows "world_ok w' \<and> still (the_daemon w) (the_daemon w')"
proof -
  obtain d bs where e: "each_block (storage_volume_group_update_block z) (the_daemon w) (the_blocks w) = Inr (d, bs)"
    and w': "w' = w\<lparr>the_daemon := d, the_blocks := bs\<rparr>"
    using u by (auto simp: update_all_blocks_def ebind_Inr)
  have pre: "blocks_ok (the_daemon w) (the_blocks w)" "bus_ok (the_daemon w)" using assms(1) by (simp_all add: world_ok_def)
  note ok = vgb.each_block_ok [OF pre e]
  have "fst ` set bs = fst ` set (the_blocks w)" using ok by (metis list.set_map)
  then have "world_ok w'" using ok assms(1) by (simp add: world_ok_def only_blocks_def w')
  moreover have "places (objects d) t = places (objects (the_daemon w)) t" if "lvm_type (thing_type t)" for t
    using places_blocks [OF pre(1), of d bs t] ok that by (auto simp: lvm_type_def block_type_def)
  moreover have "next_thing (the_daemon w) \<le> next_thing d"
    using each_block_next [OF _ e] update_block_next by blast
  ultimately show ?thesis by (simp add: still_def w')
qed

text \<open>A change of the daemon that says nothing of groups and volumes.\<close>

definition quiet :: "daemon \<Rightarrow> daemon \<Rightarrow> bool" where
  "quiet d d' \<longleftrightarrow>
     (\<exists>news. emitted d' = emitted d @ news \<and> (\<forall>t p. Published t p \<in> set news \<longrightarrow> \<not> lvm_type (thing_type t)))"

lemma quiet_same: "emitted d' = emitted d \<Longrightarrow> quiet d d'"
  by (simp add: quiet_def)

lemma quiet_trans: "quiet d e \<Longrightarrow> quiet e f \<Longrightarrow> quiet d f"
  by (fastforce simp: quiet_def)

lemma quiet_publish_new:
  "block_type ty \<Longrightarrow> quiet d (publish_at (fst (new_thing d ty)) p (snd (new_thing d ty)))"
  by (auto simp: quiet_def block_type_def lvm_type_def new_thing_def is_dbus_interface_def emitted_publish)

lemma quiet_block:
  assumes "storage_volume_group_update_block g d b = Inr (d', b')"
  shows "quiet d d'"
proof -
  obtain d1 b1 where 1: "update_block_lv g d b = Inr (d1, b1)" and 2: "update_block_pv g d1 b1 = (d', b')"
    using assms by (auto simp: storage_volume_group_update_block_def ebind_Inr)
  have "quiet d d1"
    using 1 quiet_publish_new [of LvmLogicalVolumeBlockSkeleton d "blk_path b"]
    by (auto simp: update_block_lv_def storage_block_update_lv_def drop_logical_volume_def Let_def split_beta
        block_type_def quiet_same split: if_splits option.splits)
  moreover have "quiet d1 d'"
    using 2 quiet_publish_new [of StoragePhysicalVolume d1 "blk_path b1"]
    by (auto simp: update_block_pv_def storage_block_update_pv_def drop_physical_volume_def Let_def split_beta
        block_type_def quiet_same split: if_splits option.splits)
  ultimately show ?thesis by (rule quiet_trans)
qed

lemma quiet_blocks: "update_all_blocks g w = Inr w' \<Longrightarrow> quiet (the_daemon w) (the_daemon w')"
proof -
  have "each_block (storage_volume_group_update_block g) d bs = Inr (d', bs') \<Longrightarrow> quiet d d'" for d bs d' bs'
  proof (induction bs arbitrary: d bs')
    case (Cons kb bs)
    then show ?case by (cases kb) (auto simp: ebind_Inr intro: quiet_trans quiet_block)
  qed (simp add: quiet_same)
  then show "update_all_blocks g w = Inr w' \<Longrightarrow> quiet (the_daemon w) (the_daemon w')"
    by (auto simp: update_all_blocks_def ebind_Inr)
qed

lemma gone_answer:
  assumes "world_ok w" and z: "gone (the_daemon w) z"
    and u: "update_with_variant os now answer w z = Inr (w', z', called)"
  shows "world_ok w' \<and> still (the_daemon w) (the_daemon w') \<and> gone (the_daemon w') z' \<and> vgo_thing z' = vgo_thing z \<and>
    quiet (the_daemon w) (the_daemon w')"
proof (cases answer)
  case (Inl e)
  then have "w' = w" "z' = z" using u z by (auto simp: update_with_error published_group_def gone_def)
  with assms show ?thesis by (simp add: still_def quiet_same)
next
  case (Inr info)
  let ?z = "volume_group_update_props z info"
  have z0: "gone (the_daemon w) ?z" "vgo_thing ?z = vgo_thing z"
    using z by (simp_all add: gone_def group_things_def)
  have pub: "published_group w ?z = (w, ?z)" using z by (simp add: published_group_def gone_def)
  show ?thesis
  proof (cases "last_info z = Some info")
    case True
    with u pub have "w' = w" "z' = ?z" by (auto simp: Inr update_with_variant_eq)
    with assms(1) z0 show ?thesis by (simp add: still_def quiet_same)
  next
    case False
    let ?z1 = "?z\<lparr>last_info := Some info\<rparr>"
    from u False obtain w2 z2 p2 ns2 where
        2: "update_volumes os now (dicts_of info ''lvs'') (w, ?z1, False, []) = Inr (w2, z2, p2, ns2)"
      and rest: "(let (d, vs) = drop_stale_volumes (set ns2) (the_daemon w2) (logical_volumes z2);
           g = z2\<lparr>logical_volumes := vs, needs_polling := p2,
                 physical_volumes := read_physical_volumes (dicts_of info ''pvs'')\<rparr>
         in ebind (update_all_blocks g (w2\<lparr>the_daemon := d\<rparr>)) (\<lambda>w. Inr (w, g, True))) = Inr (w', z', called)"
      by (auto simp: Inr update_with_variant_eq pub ebind_Inr)
    have bus: "bus_ok (the_daemon w)" using assms(1) by (simp add: world_ok_def)
    have "gone (the_daemon w) ?z1" using z0(1) by (simp add: gone_def group_things_def)
    note v = gone_volumes [OF this bus 2]
    then have off: "off_blocks (the_daemon w) (the_daemon w2)" using unseen_off [OF bus] by simp
    have w2: "world_ok w2" using world_ok_off_blocks [OF assms(1) off] v by (simp add: world_ok_def)
    obtain d vs where 3: "drop_stale_volumes (set ns2) (the_daemon w2) (logical_volumes z2) = (d, vs)" by fastforce
    have bus2: "bus_ok (the_daemon w2)" using w2 by (simp add: world_ok_def)
    note dr = gone_drop [OF conjunct1 [OF v] bus2 3]
    let ?g = "z2\<lparr>logical_volumes := vs, needs_polling := p2,
                 physical_volumes := read_physical_volumes (dicts_of info ''pvs'')\<rparr>"
    from rest have 4: "update_all_blocks ?g w2 = Inr w'" and z': "z' = ?g"
      by (auto simp: 3 dr(1) Let_def ebind_Inr)
    note bl = blocks_still [OF w2 4]
    have "still (the_daemon w) (the_daemon w2)" using v by (simp add: unseen_still)
    with bl have "still (the_daemon w) (the_daemon w')" by (blast intro: still_trans)
    moreover have "gone (the_daemon w') z'" using still_group(2) [OF conjunct2 [OF bl]] dr(2) by (simp add: z')
    moreover have "quiet (the_daemon w) (the_daemon w2)" using v by (simp add: unseen_def quiet_same)
    then have "quiet (the_daemon w) (the_daemon w')" using quiet_blocks [OF 4] by (rule quiet_trans)
    ultimately show ?thesis using bl v z0(2) by (simp add: z')
  qed
qed

section \<open>Disposal\<close>

lemma still_moves: "still d d' \<Longrightarrow> group_things g' = group_things g \<Longrightarrow> group_moves d d' g g'"
  using still_aside by (auto simp: group_moves_def)

lemma dispose_settles:
  assumes w: "world_ok w" and g: "in_place S (the_daemon w) g" and inj: "inj_on escape S"
    and u: "storage_volume_group_dispose w g = Inr (w', g')"
  shows "world_ok w' \<and> group_moves (the_daemon w) (the_daemon w') g g' \<and> vgo_thing g' = vgo_thing g \<and>
    gone (the_daemon w') g'"
proof -
  let ?g = "g\<lparr>need_publish := False, logical_volumes := [], physical_volumes := [], last_info := None\<rparr>"
  have bus: "bus_ok (the_daemon w)" using w by (simp add: world_ok_def)
  have things: "group_things ?g = {vgo_thing g}" by (simp add: group_things_def ht_lookup_def)
  have ty: "thing_type (vgo_thing g) = StorageVolumeGroup"
    using g by (auto simp: in_place_def group_ok_def group_new_def)
  have id: "thing_id (vgo_thing g) < next_thing (the_daemon w)"
    by (rule place_known [OF bus g group_thingsI(1)])
  have gone: "gone d ?g" if "next_thing (the_daemon w) \<le> next_thing d" "places (objects d) (vgo_thing g) = {}" for d
    using that ty id unfolding gone_def things by (simp add: ht_wf_def ht_lookup_def)
  show ?thesis
  proof (cases "group_ok (the_daemon w) g")
    case True
    have "inj_on escape (ht_keys (logical_volumes g))" using g inj by (auto simp: in_place_def intro: inj_on_subset)
    note r = group_dispose_run [OF w True this u]
    have "next_thing (the_daemon w) \<le> next_thing (the_daemon w')" using r(6) by (auto simp: group_moves_def aside_def)
    with gone r show ?thesis by simp
  next
    case False
    then have new: "group_new (the_daemon w) g" using g by (simp add: in_place_def)
    then have empty: "logical_volumes g = []" and at: "places (objects (the_daemon w)) (vgo_thing g) = {}"
      by (simp_all add: group_new_def)
    obtain w1 where 1: "update_all_blocks ?g w = Inr w1"
      and 2: "(case path_of (the_daemon w1) (vgo_thing ?g) of
                 None \<Rightarrow> (w1, ?g)
               | Some path \<Rightarrow> (w1\<lparr>the_daemon := unpublish_at (the_daemon w1) path (vgo_thing ?g)\<rparr>, ?g)) = (w', g')"
      using u unfolding storage_volume_group_dispose_def Let_def ebind_Inr sum.inject by (auto simp: empty)
    note bl = blocks_still [OF w 1]
    have at1: "places (objects (the_daemon w1)) (vgo_thing g) = {}" using bl at ty by (simp add: still_def lvm_type_def)
    moreover have "bus_ok (the_daemon w1)" using bl by (simp add: world_ok_def)
    ultimately have "path_of (the_daemon w1) (vgo_thing g) = None" by (simp add: no_place_path)
    with 2 have "w' = w1" "g' = ?g" by simp_all
    moreover have "group_moves (the_daemon w) (the_daemon w1) g ?g"
      using still_moves bl new_things [OF new] things by simp
    ultimately show ?thesis using bl gone [of "the_daemon w1"] at1 by (simp add: still_def)
  qed
qed

section \<open>Blocks that come and go\<close>

lemma in_ht_insert:
  assumes "distinct (map fst t)"
  shows "(k, c) \<in> set (ht_insert t p b) \<longleftrightarrow> (if k = p then c = b else (k, c) \<in> set t)"
  using map_of_eq_Some_iff [OF distinct_ht_insert [OF assms, of p b], of k c] map_of_eq_Some_iff [OF assms, of k c]
  by (auto simp del: map_of_eq_Some_iff)

lemma only_at_still:
  assumes "only_at p d d'" and "next_thing d \<le> next_thing d'"
    and "\<And>t. lvm_type (thing_type t) \<Longrightarrow> t \<notin> interfaces_at d p \<and> t \<notin> interfaces_at d' p"
  shows "still d d'"
proof -
  have "q \<in> places (objects d') t \<longleftrightarrow> q \<in> places (objects d) t" if "lvm_type (thing_type t)" for q t
    using assms(1) assms(3) [OF that] by (cases "q = p") (auto simp: places_iff only_at_def)
  with assms(2) show ?thesis by (auto simp: still_def)
qed

lemma block_things_types: "block_types_ok b \<Longrightarrow> t \<in> block_things b \<Longrightarrow> \<not> lvm_type (thing_type t)"
  by (auto simp: block_types_ok_def block_things_def lvm_type_def)

text \<open>A block at its path, where there was the block of the same path or nothing.\<close>

lemma put_block:
  assumes w: "world_ok w" and p: "block_path p" "blk_path b = p"
    and d: "bus_ok d" "only_at p (the_daemon w) d" "block_ok d b" "next_thing (the_daemon w) \<le> next_thing d"
  shows "world_ok (w\<lparr>the_daemon := d, the_blocks := ht_insert (the_blocks w) p b\<rparr>)" and "still (the_daemon w) d"
proof -
  have wf: "distinct (map fst (the_blocks w))" using w by (simp add: world_ok_def blocks_ok_def)
  have "blk_path c = k \<and> block_ok d c" if "(k, c) \<in> set (ht_insert (the_blocks w) p b)" for k c
  proof (cases "k = p")
    case False
    then have "(k, c) \<in> set (the_blocks w)" using that by (simp add: in_ht_insert [OF wf])
    then have "blk_path c = k" "block_ok (the_daemon w) c" using w by (auto simp: world_ok_def blocks_ok_def)
    with False d(2) show ?thesis by (simp add: block_ok_only_at)
  next
    case True
    then have "c = b" using that by (simp add: in_ht_insert [OF wf])
    with True p d(3) show ?thesis by simp
  qed
  moreover have "interfaces_at d q = {}" if "block_path q" "q \<notin> fst ` set (ht_insert (the_blocks w) p b)" for q
    using w d(2) that by (simp add: world_ok_def only_at_def)
  ultimately show "world_ok (w\<lparr>the_daemon := d, the_blocks := ht_insert (the_blocks w) p b\<rparr>)"
    using w d(1) p distinct_ht_insert [OF wf] by (auto simp: world_ok_def blocks_ok_def)
  show "still (the_daemon w) d"
  proof (rule only_at_still [OF d(2,4)])
    fix t
    assume t: "lvm_type (thing_type t)"
    have "t \<notin> interfaces_at (the_daemon w) p"
    proof (cases "p \<in> fst ` set (the_blocks w)")
      case True
      with w t show ?thesis using not_at_block [of "the_daemon w" "the_blocks w" p t]
        by (auto simp: world_ok_def lvm_type_def block_type_def)
    next
      case False
      with w p show ?thesis by (simp add: world_ok_def)
    qed
    moreover have "t \<notin> interfaces_at d p"
      using d(3) p(2) t by (auto simp: block_ok_def dest: block_things_types)
    ultimately show "t \<notin> interfaces_at (the_daemon w) p \<and> t \<notin> interfaces_at d p" ..
  qed
qed

lemma take_block:
  assumes w: "world_ok w" and b: "ht_lookup (the_blocks w) p = Some b"
    and d: "d = fst (storage_block_dispose (the_daemon w) b)"
  shows "world_ok (w\<lparr>the_daemon := d, the_blocks := ht_remove (the_blocks w) p\<rparr>)" and "still (the_daemon w) d"
    and "bus_ok d" and "only_at p (the_daemon w) d" and "interfaces_at d p = {}"
    and "next_thing d = next_thing (the_daemon w)"
proof -
  have wf: "distinct (map fst (the_blocks w))" using w by (simp add: world_ok_def blocks_ok_def)
  have mem: "(p, b) \<in> set (the_blocks w)" using b by (simp add: ht_lookup_def map_of_SomeD)
  then have bo: "block_ok (the_daemon w) b" "blk_path b = p" and bus: "bus_ok (the_daemon w)"
    using w by (auto simp: world_ok_def blocks_ok_def)
  obtain b' where b': "storage_block_dispose (the_daemon w) b = (d, b')" using d by (metis prod.collapse)
  have st: "block_step (the_daemon w) b (d, b')" using storage_block_dispose_step [OF bo(1) bus] by (simp add: b')
  then show bus': "bus_ok d" and only: "only_at p (the_daemon w) d" by (simp_all add: block_step_def bo)
  have none: "block_things b' = {}"
    using b' by (auto simp: storage_block_dispose_def drop_physical_volume_def drop_logical_volume_def block_things_def
        split: option.splits prod.splits)
  have b'p: "blk_path b' = p" using st bo(2) by (simp add: block_step_def same_device_def)
  have "interfaces_at d (blk_path b') = {}" using st none by (simp add: block_step_def block_ok_def)
  then show empty: "interfaces_at d p = {}" by (simp add: b'p)
  show nx: "next_thing d = next_thing (the_daemon w)"
    using b' by (auto simp: storage_block_dispose_def drop_physical_volume_def drop_logical_volume_def split: option.splits)
  have "t \<notin> interfaces_at (the_daemon w) p" if "lvm_type (thing_type t)" for t
    using bo that by (auto simp: block_ok_def dest: block_things_types)
  with only empty nx show "still (the_daemon w) d" by (intro only_at_still) auto
  have "blk_path c = k \<and> block_ok d c" if "(k, c) \<in> set (ht_remove (the_blocks w) p)" for k c
  proof -
    have k: "k \<noteq> p" "(k, c) \<in> set (the_blocks w)" using that by (auto simp: ht_remove_def)
    then have "blk_path c = k" "block_ok (the_daemon w) c" using w by (auto simp: world_ok_def blocks_ok_def)
    with k(1) only show ?thesis by (simp add: block_ok_only_at)
  qed
  moreover have "interfaces_at d q = {}" if "block_path q" "q \<notin> fst ` set (ht_remove (the_blocks w) p)" for q
    using w only empty that by (cases "q = p") (auto simp: world_ok_def only_at_def ht_remove_def image_iff)
  ultimately show "world_ok (w\<lparr>the_daemon := d, the_blocks := ht_remove (the_blocks w) p\<rparr>)"
    using w bus' distinct_ht_remove [OF wf] by (auto simp: world_ok_def blocks_ok_def ht_remove_def)
qed

lemma groups_update_block:
  "block_ok d b \<Longrightarrow> bus_ok d \<Longrightarrow> update_block_from_all_volume_groups gs d b = Inr (d', b') \<Longrightarrow>
   block_step d b (d', b') \<and> next_thing d \<le> next_thing d'"
proof (induction gs d b rule: update_block_from_all_volume_groups.induct)
  case (2 k g gs d b)
  then obtain d1 b1 where 1: "storage_volume_group_update_block g d b = Inr (d1, b1)"
    and rest: "update_block_from_all_volume_groups gs d1 b1 = Inr (d', b')"
    by (auto simp: ebind_Inr)
  have st: "block_step d b (d1, b1)" by (rule update_block_step [OF 2(2,3) 1])
  then have "block_step d1 b1 (d', b') \<and> next_thing d1 \<le> next_thing d'"
    using 2(1) rest by (auto simp: block_step_def)
  with st update_block_next [OF 1] show ?case by (auto intro: block_step_trans)
qed (simp add: block_step_refl)

section \<open>The manager\<close>

text \<open>The table of the manager and the groups that were dropped from it.\<close>

definition groups_ok :: "string set \<Rightarrow> manager \<Rightarrow> bool" where
  "groups_ok S m \<longleftrightarrow>
     ht_wf (name_to_volume_group m) \<and> (\<forall>(k, g) \<in> set (name_to_volume_group m). vgo_name g = k) \<and>
     family_ok S (mgr_world m) (snd ` set (name_to_volume_group m)) (set (dropped_groups m))"

lemma groups_ok_frame [simp]:
  "groups_ok S (m\<lparr>update_datas := x1\<rparr>) = groups_ok S m"
  "groups_ok S (m\<lparr>group_helpers := x2\<rparr>) = groups_ok S m"
  "groups_ok S (m\<lparr>list_helpers := x3\<rparr>) = groups_ok S m"
  "groups_ok S (m\<lparr>lvm_delayed_update_id := x4\<rparr>) = groups_ok S m"
  "groups_ok S (m\<lparr>tasks_done := x5\<rparr>) = groups_ok S m"
  "groups_ok S (m\<lparr>next_update := x6\<rparr>) = groups_ok S m"
  by (simp_all add: groups_ok_def)

lemma update_done_groups [simp]: "groups_ok S (lvm_update_done u d m) = groups_ok S m"
  by (simp add: lvm_update_done_def trigger_delayed_lvm_update_def Let_def)

lemma vg_update_done_groups: "lvm_vg_update_done u m = Inr m' \<Longrightarrow> groups_ok S m' = groups_ok S m"
  by (auto simp: lvm_vg_update_done_def Let_def split: option.splits if_splits)

lemma find_groupD: "find_group t gs = Some (k, g) \<Longrightarrow> (k, g) \<in> set gs \<and> vgo_thing g = t"
  by (induction t gs rule: find_group.induct) (auto split: if_splits)

text \<open>An entry of the table is replaced by a new state of the same group.\<close>

lemma table_groups:
  assumes "ht_wf t" and "\<forall>(k, g) \<in> set t. vgo_name g = k" and "(k, g) \<in> set t"
  shows "snd ` set (ht_insert t k g') = insert g' (snd ` set t - {g})"
proof -
  have wf: "distinct (map fst t)" using assms(1) by (simp add: ht_wf_def)
  have key: "c = g \<longleftrightarrow> j = k" if "(j, c) \<in> set t" for j c
  proof
    show "j = k" if "c = g" using bspec [OF assms(2) \<open>(j, c) \<in> set t\<close>] bspec [OF assms(2,3)] that by simp
    show "c = g" if "j = k" using eq_key_imp_eq_value [OF wf assms(3), of c] \<open>(j, c) \<in> set t\<close> that by simp
  qed
  show ?thesis
  proof (rule set_eqI)
    fix c
    have "c \<in> snd ` set (ht_insert t k g') \<longleftrightarrow> (\<exists>j. (j, c) \<in> set (ht_insert t k g'))" by force
    also have "\<dots> \<longleftrightarrow> c = g' \<or> (\<exists>j. j \<noteq> k \<and> (j, c) \<in> set t)" by (auto simp: in_ht_insert [OF wf])
    also have "\<dots> \<longleftrightarrow> c = g' \<or> (\<exists>j. (j, c) \<in> set t) \<and> c \<noteq> g" using key by blast
    also have "\<dots> \<longleftrightarrow> c \<in> insert g' (snd ` set t - {g})" by force
    finally show "c \<in> snd ` set (ht_insert t k g') \<longleftrightarrow> c \<in> insert g' (snd ` set t - {g})" .
  qed
qed

lemma groups_table_update:
  assumes "groups_ok S m" and "(k, g) \<in> set (name_to_volume_group m)" and "vgo_name g' = vgo_name g"
    and "family_ok S w (insert g' (snd ` set (name_to_volume_group m) - {g})) (set (dropped_groups m))"
  shows "groups_ok S (m\<lparr>mgr_world := w, name_to_volume_group := ht_insert (name_to_volume_group m) k g'\<rparr>)"
proof -
  let ?t = "name_to_volume_group m"
  have t: "ht_wf ?t" "\<forall>(k, g) \<in> set ?t. vgo_name g = k" using assms(1) by (simp_all add: groups_ok_def)
  have "vgo_name g' = k" using t(2) assms(2,3) by auto
  moreover have "(j, c) \<in> set (ht_insert ?t k g') \<Longrightarrow> (j = k \<and> c = g') \<or> (j, c) \<in> set ?t" for j c
    using in_ht_insert [of ?t j c k g'] t(1) by (auto simp: ht_wf_def split: if_splits)
  ultimately have "\<forall>(j, c) \<in> set (ht_insert ?t k g'). vgo_name c = j" using t(2) by fastforce
  then show ?thesis using assms(4) t(1) by (simp add: groups_ok_def table_groups [OF t assms(2)] ht.invar_ins)
qed

lemma answer_in_table:
  assumes m: "groups_ok S m" and inj: "inj_on escape S" and g: "(k, g) \<in> set (name_to_volume_group m)"
    and "good_answer S answer"
    and "update_with_variant os now answer (mgr_world m) g = Inr (w, g', called)"
  shows "groups_ok S (m\<lparr>mgr_world := w, name_to_volume_group := ht_insert (name_to_volume_group m) k g'\<rparr>)"
proof -
  have fam: "family_ok S (mgr_world m) (snd ` set (name_to_volume_group m)) (set (dropped_groups m))"
    using m by (simp add: groups_ok_def)
  have G: "g \<in> snd ` set (name_to_volume_group m)" using g by force
  then have "settles S (mgr_world m) g w g'"
    using fam assms(4,5) by (intro answer_settles [OF _ _ inj]) (auto simp: family_ok_def)
  then have s: "world_ok w" "in_place S (the_daemon w) g'" "vgo_name g' = vgo_name g" "vgo_thing g' = vgo_thing g"
    "group_moves (the_daemon (mgr_world m)) (the_daemon w) g g'" by (simp_all add: settles_def)
  show ?thesis by (rule groups_table_update [OF m g s(3) family_update [OF fam inj G s(5,1,3,4,2)]])
qed

lemma add_group_ok:
  assumes m: "groups_ok S m" and name: "name \<in> S" "name \<noteq> []" and a: "add_group name m = (m', g)"
  shows "groups_ok S m' \<and> (name, g) \<in> set (name_to_volume_group m') \<and> dropped_groups m' = dropped_groups m"
proof (cases "ht_lookup (name_to_volume_group m) name")
  case (Some h)
  then have "(name, h) \<in> set (name_to_volume_group m)" by (simp add: ht_lookup_def map_of_SomeD)
  with m a Some show ?thesis by (auto simp: add_group_def)
next
  case None
  let ?t = "name_to_volume_group m" and ?w = "mgr_world m"
  obtain d t where n: "new_thing (the_daemon ?w) StorageVolumeGroup = (d, t)" by fastforce
  let ?g = "storage_volume_group_new t name"
  have eq: "m' = m\<lparr>mgr_world := ?w\<lparr>the_daemon := d\<rparr>, name_to_volume_group := ht_insert ?t name ?g\<rparr>" "g = ?g"
    using a None n by (auto simp: add_group_def Let_def)
  have wf: "distinct (map fst ?t)" using m by (simp add: groups_ok_def ht_wf_def)
  have out: "name \<notin> fst ` set ?t" using None by (simp add: ht_lookup_def map_of_eq_None_iff)
  have mem: "(k, c) \<in> set (ht_insert ?t name ?g) \<longleftrightarrow> (k, c) = (name, ?g) \<or> (k, c) \<in> set ?t" for k c
    using in_ht_insert [OF wf, of k c name ?g] out by force
  then have "set (ht_insert ?t name ?g) = insert (name, ?g) (set ?t)" by auto
  moreover have "name \<notin> vgo_name ` snd ` set ?t" using m out by (force simp: groups_ok_def)
  then have "family_ok S (?w\<lparr>the_daemon := d\<rparr>) (insert ?g (snd ` set ?t)) (set (dropped_groups m))"
    using m n name by (intro family_new) (simp_all add: groups_ok_def)
  ultimately show ?thesis
    using m by (simp add: eq groups_ok_def ht.invar_ins storage_volume_group_new_def)
qed

text \<open>A spawn that fails gives an error, for which there is nothing to check.\<close>

lemma spawn_fails:
  "storage_daemon_spawn_for_variant lib dat d spawn argv = Inl r \<Longrightarrow>
   good_answer S (answer_of env r) \<and> isl (names_of env r)"
  by (auto simp: storage_daemon_spawn_for_variant_def good_answer_def split: sum.splits)

lemma update_listed_group_family:
  assumes m: "groups_ok S m" and inj: "inj_on escape S" and name: "name \<in> S" "name \<noteq> []"
    and u: "update_listed_group env now spawn u ignore_locks name m = Inr m'"
  shows "groups_ok S m'"
proof -
  obtain m1 g where a: "add_group name m = (m1, g)" by fastforce
  note add = add_group_ok [OF m name a]
  let ?m = "m1\<lparr>update_datas := count_pending u 1 (update_datas m1)\<rparr>"
  have ok: "groups_ok S ?m" and tab: "(name, g) \<in> set (name_to_volume_group ?m)" using add by simp_all
  show ?thesis
  proof (cases "storage_daemon_spawn_for_variant (env_lib env) (env_data env) (the_daemon (mgr_world ?m)) spawn
      (storage_volume_group_update g ignore_locks)")
    case (Inr r)
    with u a ok show ?thesis by (auto simp: update_listed_group_def Let_def)
  next
    case (Inl failure)
    with u a obtain w g' called where v: "update_with_variant (env_os env) now (answer_of env failure) (mgr_world ?m) g =
        Inr (w, g', called)"
      and m': "(if called then lvm_vg_update_done u (?m\<lparr>mgr_world := w,
          name_to_volume_group := ht_insert (name_to_volume_group m1) name g'\<rparr>)
        else Inr (?m\<lparr>mgr_world := w, name_to_volume_group := ht_insert (name_to_volume_group m1) name g'\<rparr>)) = Inr m'"
      by (auto simp: update_listed_group_def Let_def ebind_Inr)
    have "groups_ok S (?m\<lparr>mgr_world := w, name_to_volume_group := ht_insert (name_to_volume_group m1) name g'\<rparr>)"
      using answer_in_table [OF ok inj tab _ v] spawn_fails [OF Inl, of S env] by simp
    with m' show ?thesis by (auto dest: vg_update_done_groups split: if_splits)
  qed
qed

lemma update_listed_groups_family:
  "groups_ok S m \<Longrightarrow> inj_on escape S \<Longrightarrow> set names \<subseteq> S \<Longrightarrow> [] \<notin> S \<Longrightarrow>
   update_listed_groups env now spawn u ignore_locks names m = Inr m' \<Longrightarrow> groups_ok S m'"
proof (induction names arbitrary: m)
  case (Cons name names)
  then obtain m1 where 1: "update_listed_group env now spawn u ignore_locks name m = Inr m1"
    and rest: "update_listed_groups env now spawn u ignore_locks names m1 = Inr m'"
    by (auto simp: ebind_Inr)
  have "name \<in> S" "name \<noteq> []" using Cons.prems(3,4) by auto
  with Cons 1 rest show ?case using update_listed_group_family [OF Cons.prems(1,2) _ _ 1] by auto
qed simp

lemma remove_obsolete_groups_ok:
  assumes "family_ok S w (A \<union> snd ` set gs) Z" and "inj_on escape S"
    and "distinct (map fst gs)" and "\<forall>(k, g) \<in> set gs. vgo_name g = k" and "\<forall>h \<in> A. vgo_name h \<notin> fst ` set gs"
    and "remove_obsolete_groups names w gs = Inr (w', gs', dropped)"
  shows "family_ok S w' (A \<union> snd ` set gs') (Z \<union> set dropped) \<and> gs' = filter (\<lambda>kg. fst kg \<in> names) gs"
  using assms
proof (induction gs arbitrary: w A Z w' gs' dropped)
  case (Cons kg gs)
  obtain k g where kg: "kg = (k, g)" by (cases kg)
  have g: "vgo_name g = k" "k \<notin> fst ` set gs" "\<forall>(k, g) \<in> set gs. vgo_name g = k" "distinct (map fst gs)"
    using Cons.prems(3,4) by (auto simp: kg)
  have others: "k \<notin> vgo_name ` (A \<union> snd ` set gs)" using g Cons.prems(5) by (force simp: kg)
  show ?case
  proof (cases "k \<in> names")
    case True
    then obtain gs2 where r: "remove_obsolete_groups names w gs = Inr (w', gs2, dropped)" "gs' = (k, g) # gs2"
      using Cons.prems(6) by (auto simp: kg ebind_Inr)
    have "family_ok S w (insert g A \<union> snd ` set gs) Z" using Cons.prems(1) by (simp add: kg)
    moreover have "\<forall>h \<in> insert g A. vgo_name h \<notin> fst ` set gs" using g Cons.prems(5) by (simp add: kg)
    ultimately have "family_ok S w' (insert g A \<union> snd ` set gs2) (Z \<union> set dropped) \<and> gs2 = filter (\<lambda>kg. fst kg \<in> names) gs"
      using Cons.IH [OF _ Cons.prems(2) g(4,3) _ r(1)] by blast
    then show ?thesis using True by (auto simp: r(2) kg)
  next
    case False
    then obtain w1 g1 dr where d: "storage_volume_group_dispose w g = Inr (w1, g1)"
      and r: "remove_obsolete_groups names w1 gs = Inr (w', gs', dr)" "dropped = g1 # dr"
      using Cons.prems(6) by (auto simp: kg ebind_Inr)
    let ?G = "A \<union> snd ` set (kg # gs)"
    have mem: "g \<in> ?G" by (simp add: kg)
    have s: "world_ok w1 \<and> group_moves (the_daemon w) (the_daemon w1) g g1 \<and> vgo_thing g1 = vgo_thing g \<and> gone (the_daemon w1) g1"
      using Cons.prems(1) mem by (intro dispose_settles [OF _ _ Cons.prems(2) d]) (auto simp: family_ok_def)
    have "family_ok S w1 (?G - {g}) (insert g1 Z)"
      using s by (intro family_drop [OF Cons.prems(1,2) mem]) blast+
    moreover have "?G - {g} = A \<union> snd ` set gs" using others g(1) by (auto simp: kg)
    ultimately have "family_ok S w1 (A \<union> snd ` set gs) (insert g1 Z)" by simp
    moreover have "\<forall>h \<in> A. vgo_name h \<notin> fst ` set gs" using Cons.prems(5) by (simp add: kg)
    ultimately have "family_ok S w' (A \<union> snd ` set gs') (insert g1 Z \<union> set dr) \<and> gs' = filter (\<lambda>kg. fst kg \<in> names) gs"
      using Cons.IH [OF _ Cons.prems(2) g(4,3) _ r(1)] by blast
    then show ?thesis using False by (auto simp: r(2) kg)
  qed
qed simp

definition good_names :: "string set \<Rightarrow> gerror + string list \<Rightarrow> bool" where
  "good_names S answer \<longleftrightarrow> (case answer of Inl _ \<Rightarrow> True | Inr names \<Rightarrow> set names \<subseteq> S)"

lemma list_answer_ok:
  assumes m: "groups_ok S m" and inj: "inj_on escape S" and S: "[] \<notin> S" and names: "good_names S answer"
    and u: "lvm_update_from_variant env now spawn u answer m = Inr m'"
  shows "groups_ok S m'"
proof (cases answer)
  case (Inl e)
  with u m show ?thesis by (simp add: lvm_update_from_variant_def)
next
  case (Inr ns)
  let ?t = "name_to_volume_group m"
  obtain data where d: "map_of (update_datas m) u = Some data"
    using u by (auto simp: lvm_update_from_variant_def Inr split: option.splits)
  obtain w gs dropped m1 where 1: "remove_obsolete_groups (set ns) (mgr_world m) ?t = Inr (w, gs, dropped)"
    and 2: "update_listed_groups env now spawn u (upd_ignore_locks data) ns
      (m\<lparr>mgr_world := w, name_to_volume_group := gs, dropped_groups := dropped_groups m @ dropped\<rparr>) = Inr m1"
    and m': "(case map_of (update_datas m1) u of
        None \<Rightarrow> Inl (UseAfterFree ''data->pending_vg_updates'')
      | Some data \<Rightarrow> Inr (if pending_vg_updates data = 0 then lvm_update_done u data m1 else m1)) = Inr m'"
    using u by (auto simp: lvm_update_from_variant_def Inr d ebind_Inr)
  have t: "distinct (map fst ?t)" "\<forall>(k, g) \<in> set ?t. vgo_name g = k"
      "family_ok S (mgr_world m) ({} \<union> snd ` set ?t) (set (dropped_groups m))"
    using m by (simp_all add: groups_ok_def ht_wf_def)
  note r = remove_obsolete_groups_ok [OF t(3) inj t(1,2) _ 1]
  have "groups_ok S (m\<lparr>mgr_world := w, name_to_volume_group := gs, dropped_groups := dropped_groups m @ dropped\<rparr>)"
    using r t(1,2) by (auto simp: groups_ok_def ht_wf_def distinct_map_filter)
  from update_listed_groups_family [OF this inj _ S 2] names have "groups_ok S m1" by (simp add: Inr good_names_def)
  with m' show ?thesis by (auto split: option.splits)
qed

lemma lvm_update_family:
  assumes "groups_ok S m" and "inj_on escape S" and "[] \<notin> S"
    and "lvm_update env now spawn ignore_locks task m = Inr m'"
  shows "groups_ok S m'"
proof -
  let ?m = "m\<lparr>next_update := next_update m + 1, update_datas := update_datas m @
      [(next_update m, \<lparr>upd_ignore_locks = ignore_locks, upd_task = task, pending_vg_updates = 0\<rparr>)]\<rparr>"
  have ok: "groups_ok S ?m" using assms(1) by simp
  show ?thesis
  proof (cases "storage_daemon_spawn_for_variant (env_lib env) (env_data env) (the_daemon (mgr_world ?m)) spawn lvm_list_argv")
    case (Inr r)
    with assms(1,4) show ?thesis by (auto simp: lvm_update_def Let_def)
  next
    case (Inl failure)
    then have "lvm_update_from_variant env now spawn (next_update m) (names_of env failure) ?m = Inr m'"
      using assms(4) by (simp add: lvm_update_def Let_def)
    moreover have "good_names S (names_of env failure)"
      using spawn_fails [OF Inl, of S env] by (auto simp: good_names_def split: sum.splits)
    ultimately show ?thesis by (intro list_answer_ok [OF ok assms(2,3)])
  qed
qed

text \<open>The answer about a group, in the table or dropped.\<close>

lemma family_gone_answer:
  assumes fam: "family_ok S w G Z" and z: "z \<in> Z"
    and u: "update_with_variant os now answer w z = Inr (w', z', called)"
  shows "family_ok S w' G ((\<lambda>h. if vgo_thing h = vgo_thing z' then z' else h) ` Z)"
proof -
  have "world_ok w" "gone (the_daemon w) z" using fam z by (simp_all add: family_ok_def)
  note g = gone_answer [OF this u]
  let ?f = "\<lambda>h. if vgo_thing h = vgo_thing z' then z' else h"
  have fam': "family_ok S w' G Z" using g family_still [OF fam] by blast
  have "vgo_thing h \<noteq> vgo_thing z'" if "h \<in> G" for h
    using family_apart(1) [OF fam that z] g by simp
  then have "?f ` G = G" by simp
  then have "?f ` (G \<union> Z) = G \<union> ?f ` Z" by (simp only: image_Un)
  moreover have "vgo_thing \<circ> ?f = vgo_thing" by (simp add: fun_eq_iff)
  then have "inj_on vgo_thing (?f ` (G \<union> Z))"
    using fam by (intro inj_on_imageI) (simp add: family_ok_def)
  ultimately have "inj_on vgo_thing (G \<union> ?f ` Z)" by simp
  then show ?thesis using fam' g by (auto simp: family_ok_def)
qed

lemma group_answer_ok:
  assumes m: "groups_ok S m" and inj: "inj_on escape S" and "good_answer S answer"
    and u: "on_group_answer env now ut answer m = Inr m'"
  shows "groups_ok S m'"
proof (cases "find_group (snd ut) (name_to_volume_group m)")
  case (Some kg)
  obtain k g where kg: "kg = (k, g)" by (cases kg)
  have tab: "(k, g) \<in> set (name_to_volume_group m)" using find_groupD [OF Some [unfolded kg]] by blast
  obtain w g' called where v: "update_with_variant (env_os env) now answer (mgr_world m) g = Inr (w, g', called)"
    and m': "(if called then lvm_vg_update_done (fst ut)
        (m\<lparr>mgr_world := w, name_to_volume_group := ht_insert (name_to_volume_group m) k g'\<rparr>)
      else Inr (m\<lparr>mgr_world := w, name_to_volume_group := ht_insert (name_to_volume_group m) k g'\<rparr>)) = Inr m'"
    using u by (auto simp: on_group_answer_def Some kg Let_def ebind_Inr)
  from answer_in_table [OF m inj tab assms(3) v] m' show ?thesis
    by (auto dest: vg_update_done_groups split: if_splits)
next
  case None
  obtain z where f: "find (\<lambda>g. vgo_thing g = snd ut) (dropped_groups m) = Some z"
    using u by (auto simp: on_group_answer_def None Let_def split: option.splits)
  then have z: "z \<in> set (dropped_groups m)" by (auto dest: find_SomeD)
  obtain w z' called where v: "update_with_variant (env_os env) now answer (mgr_world m) z = Inr (w, z', called)"
    and m': "(if called then lvm_vg_update_done (fst ut)
        (m\<lparr>mgr_world := w, dropped_groups := map (\<lambda>h. if vgo_thing h = vgo_thing z' then z' else h) (dropped_groups m)\<rparr>)
      else Inr (m\<lparr>mgr_world := w,
          dropped_groups := map (\<lambda>h. if vgo_thing h = vgo_thing z' then z' else h) (dropped_groups m)\<rparr>)) = Inr m'"
    using u by (auto simp: on_group_answer_def None f Let_def ebind_Inr)
  have "groups_ok S (m\<lparr>mgr_world := w,
      dropped_groups := map (\<lambda>h. if vgo_thing h = vgo_thing z' then z' else h) (dropped_groups m)\<rparr>)"
    using m family_gone_answer [OF _ z v, of S] by (simp add: groups_ok_def)
  with m' show ?thesis by (auto dest: vg_update_done_groups split: if_splits)
qed

text \<open>Blocks that come and go.\<close>

lemma groups_world:
  assumes "groups_ok S m" and "world_ok w" and "still (the_daemon (mgr_world m)) (the_daemon w)"
  shows "groups_ok S (m\<lparr>mgr_world := w\<rparr>)"
  using assms family_still [of S "mgr_world m"] by (simp add: groups_ok_def)

lemma interface_added_ok:
  assumes m: "groups_ok S m" and b: "\<And>b. i = Some b \<Longrightarrow> block_path (blk_path b)"
    and u: "on_udisks_interface_added i m = Inr m'"
  shows "groups_ok S m'"
proof (cases i)
  case None
  with u m show ?thesis by (simp add: on_udisks_interface_added_def)
next
  case (Some b)
  let ?w = "mgr_world m" and ?b = "b\<lparr>iface_physical_volume := None, iface_logical_volume := None\<rparr>" and ?p = "blk_path b"
  let ?d = "case ht_lookup (the_blocks ?w) ?p of
      Some old \<Rightarrow> fst (storage_block_dispose (the_daemon ?w) old) | None \<Rightarrow> the_daemon ?w"
  have w: "world_ok ?w" using m by (simp add: groups_ok_def family_ok_def)
  have bp: "block_path ?p" by (rule b [OF Some])
  have d: "bus_ok ?d \<and> only_at ?p (the_daemon ?w) ?d \<and> interfaces_at ?d ?p = {} \<and> next_thing ?d = next_thing (the_daemon ?w)"
  proof (cases "ht_lookup (the_blocks ?w) ?p")
    case None
    then have "?p \<notin> fst ` set (the_blocks ?w)" by (simp add: ht_lookup_def map_of_eq_None_iff)
    with w bp None show ?thesis by (simp add: world_ok_def)
  next
    case (Some old)
    with take_block(3-6) [OF w Some refl] show ?thesis by simp
  qed
  obtain d' b' where r: "update_block_from_all_volume_groups (name_to_volume_group m) ?d ?b = Inr (d', b')"
    and m': "m' = m\<lparr>mgr_world := ?w\<lparr>the_daemon := d', the_blocks := ht_insert (the_blocks ?w) ?p b'\<rparr>\<rparr>"
    using u by (auto simp: on_udisks_interface_added_def Some Let_def ebind_Inr)
  have "block_ok ?d ?b" using d by (simp add: block_ok_def block_types_ok_def block_things_def)
  from groups_update_block [OF this _ r] d
  have st: "block_step ?d ?b (d', b')" "next_thing ?d \<le> next_thing d'" by auto
  then have b': "blk_path b' = ?p" "bus_ok d'" "block_ok d' b'" "only_at ?p ?d d'"
    by (simp_all add: block_step_def same_device_def)
  then have "only_at ?p (the_daemon ?w) d'" using d by (auto intro: only_at_trans)
  moreover have "next_thing (the_daemon ?w) \<le> next_thing d'" using d st by simp
  ultimately show ?thesis
    using put_block [OF w bp b'(1,2) _ b'(3)] groups_world [OF m] by (simp add: m')
qed

lemma object_added_ok:
  "groups_ok S m \<Longrightarrow> (\<And>b. Some b \<in> set is \<Longrightarrow> block_path (blk_path b)) \<Longrightarrow>
   on_udisks_object_added is m = Inr m' \<Longrightarrow> groups_ok S m'"
proof (induction "is" arbitrary: m)
  case (Cons i "is")
  then obtain m1 where "on_udisks_interface_added i m = Inr m1" "on_udisks_object_added is m1 = Inr m'"
    by (auto simp: ebind_Inr)
  with Cons show ?case using interface_added_ok [OF Cons.prems(1)] by (metis list.set_intros)
qed simp

lemma object_removed_ok: "groups_ok S m \<Longrightarrow> groups_ok S (on_udisks_object_removed is m)"
proof -
  have step: "groups_ok S (on_udisks_interface_removed i m)" if m: "groups_ok S m" for i m
  proof -
    have "world_ok (mgr_world m)" using m by (simp add: groups_ok_def family_ok_def)
    then show ?thesis
      using m take_block(1,2) [OF _ _ refl, of "mgr_world m"]
      by (auto simp: on_udisks_interface_removed_def Let_def intro!: groups_world split: option.splits)
  qed
  show "groups_ok S m \<Longrightarrow> groups_ok S (on_udisks_object_removed is m)"
    unfolding on_udisks_object_removed_def by (induction "is" arbitrary: m) (simp_all add: step)
qed

section \<open>Every run of the manager\<close>

text \<open>
  What is asked of the outside: the names LVM gives to groups and volumes are in \<open>S\<close>, which escaping
  keeps apart, and the objects of udisks have paths of blocks.
\<close>

definition names_from :: "string set \<Rightarrow> env \<Rightarrow> bool" where
  "names_from S env \<longleftrightarrow>
     (\<forall>bytes. set (env_names env bytes) \<subseteq> S \<and> set (visible_names (dicts_of (env_parse env bytes) ''lvs'')) \<subseteq> S)"

fun udisks_paths :: "manager_event \<Rightarrow> bool" where
  "udisks_paths (ObjectAdded is) = (\<forall>b. Some b \<in> set is \<longrightarrow> block_path (blk_path b))"
| "udisks_paths _ = True"

lemma names_from_answers:
  assumes "names_from S env"
  shows "good_names S (names_of env r)" and "good_answer S (answer_of env r)"
  using assms by (cases r; simp add: names_from_def good_names_def good_answer_def)+

lemma manager_step_groups:
  assumes env: "inj_on escape S" "[] \<notin> S" "names_from S env" and m: "groups_ok S m"
    and e: "udisks_paths e" and u: "manager_step env m e = Inr m'"
  shows "groups_ok S m'"
proof (cases e)
  case (InitAsync now spawn)
  with u show ?thesis
    using lvm_update_family [OF m env(1,2)] by (auto simp: storage_manager_init_async_def)
next
  case (ListDone now spawn u' r)
  have "groups_ok S (m\<lparr>list_helpers := filter (\<lambda>v. v \<noteq> u') (list_helpers m)\<rparr>)" using m by simp
  from list_answer_ok [OF this env(1,2) names_from_answers(1) [OF env(3)]] u m ListDone show ?thesis
    by (simp split: if_splits)
next
  case (GroupDone now i r)
  have "groups_ok S (m\<lparr>group_helpers := drop_nth i (group_helpers m)\<rparr>)" using m by simp
  from group_answer_ok [OF this env(1) names_from_answers(2) [OF env(3)]] u m GroupDone show ?thesis
    by (simp split: if_splits)
next
  case (DelayedTimer now spawn)
  with u m show ?thesis
    using lvm_update_family [OF m env(1,2)] by (auto simp: delayed_lvm_update_def ebind_Inr split: if_splits)
next
  case (Uevent device real_block)
  with u m show ?thesis
    by (auto simp: handle_block_uevent_for_lvm_def trigger_delayed_lvm_update_def)
next
  case (ObjectAdded "is")
  with u m e show ?thesis using object_added_ok [OF m] by auto
next
  case (ObjectRemoved "is")
  with u m show ?thesis using object_removed_ok [OF m] by auto
qed

interpretation mg: contract_machine "manager_step env"
    "\<lambda>m. inj_on escape S \<and> [] \<notin> S \<and> names_from S env \<and> groups_ok S m" udisks_paths for S env
  by unfold_locales (blast intro: manager_step_groups)

text \<open>What the table of the manager says is on the bus.\<close>

definition shown :: "manager \<Rightarrow> string \<Rightarrow> thing \<Rightarrow> bool" where
  "shown m p t \<longleftrightarrow>
     (\<exists>k g. ht_lookup (name_to_volume_group m) k = Some g \<and> \<not> need_publish g \<and>
        (t = vgo_thing g \<and> p = group_path k \<or>
         (\<exists>n v. ht_lookup (logical_volumes g) n = Some v \<and> t = lvo_thing v \<and> p = volume_path k n)))"

lemma groups_ok_shown:
  assumes m: "groups_ok S m" and t: "lvm_type (thing_type t)"
  shows "t \<in> interfaces_at (the_daemon (mgr_world m)) p \<longleftrightarrow> shown m p t"
proof -
  let ?d = "the_daemon (mgr_world m)" and ?t = "name_to_volume_group m"
  have entry: "ht_lookup ?t k = Some g \<longleftrightarrow> (k, g) \<in> set ?t" for k g
    using m by (simp add: groups_ok_def ht_lookup_def ht_wf_def)
  have known: "vgo_name g = k \<and> (group_ok ?d g \<or> group_new ?d g)" if "(k, g) \<in> set ?t" for k g
    using m that by (force simp: groups_ok_def family_ok_def in_place_def)
  show ?thesis
  proof
    assume at: "t \<in> interfaces_at ?d p"
    then have some: "places (objects ?d) t \<noteq> {}" by (auto simp flip: places_iff)
    then have "\<exists>g \<in> snd ` set ?t. t \<in> group_things g"
      using m t unfolding groups_ok_def family_ok_def by blast
    then obtain k g where kg: "(k, g) \<in> set ?t" "t \<in> group_things g" by force
    then have "group_ok ?d g" using known [OF kg(1)] kg(2) some by (auto simp: new_things group_new_def)
    then have g: "\<not> need_publish g" "places (objects ?d) (vgo_thing g) = {group_path k}"
      "\<And>n v. ht_lookup (logical_volumes g) n = Some v \<Longrightarrow> places (objects ?d) (lvo_thing v) = {volume_path k n}"
      using known [OF kg(1)] by (auto simp: group_ok_def volume_ok_def)
    have at': "p \<in> places (objects ?d) t" using at by (simp add: places_iff)
    show "shown m p t"
      using kg(2)
    proof (cases rule: group_things_cases)
      case 1
      then have "p = group_path k" using at' g(2) by simp
      with 1 g(1) kg(1) show ?thesis unfolding shown_def entry by blast
    next
      case (2 n v)
      then have "p = volume_path k n" using at' g(3) [OF 2(1)] by simp
      with 2 g(1) kg(1) show ?thesis unfolding shown_def entry by blast
    qed
  next
    assume "shown m p t"
    then obtain k g where kg: "(k, g) \<in> set ?t" "\<not> need_publish g"
        "t = vgo_thing g \<and> p = group_path k \<or>
         (\<exists>n v. ht_lookup (logical_volumes g) n = Some v \<and> t = lvo_thing v \<and> p = volume_path k n)"
      by (auto simp: shown_def entry)
    then have "group_ok ?d g" "vgo_name g = k" using known [OF kg(1)] by (auto simp: group_new_def)
    with kg(3) show "t \<in> interfaces_at ?d p"
      by (auto simp: group_ok_def volume_ok_def simp flip: places_iff)
  qed
qed

text \<open>At the start nothing is on the bus.\<close>

lemma groups_ok_start: "groups_ok S (storage_manager_new (storage_daemon_init per dir))"
  by (auto simp: groups_ok_def family_ok_def world_ok_def storage_manager_new_def storage_daemon_init_def bus_ok_def
      blocks_ok_def ht_wf_def interfaces_at_def ht_lookup_def places_def)

text \<open>
  Whatever answers, timers and events of udev and udisks the manager gets, in whatever order, the
  groups and volumes on the bus are exactly those its table says: each group that got an answer at the
  path of its name, each of its volumes below it, and no others, the groups that left the table
  and their late answers included. The names LVM uses must be kept apart by the escaping of paths.
\<close>

theorem bus_shows_table:
  assumes "inj_on escape S" and "[] \<notin> S" and "names_from S env" and "list_all udisks_paths es"
    and "run_steps (manager_step env) (storage_manager_new (storage_daemon_init per dir)) es = Inr m"
    and "thing_type t = StorageVolumeGroup \<or> thing_type t = StorageLogicalVolume"
  shows "t \<in> interfaces_at (the_daemon (mgr_world m)) p \<longleftrightarrow> shown m p t"
proof (rule groups_ok_shown)
  show "groups_ok S m" using mg.run_keeps [OF _ assms(4,5), of S] assms(1-3) groups_ok_start by blast
  show "lvm_type (thing_type t)" using assms(6) by (simp add: lvm_type_def)
qed

lemma bus_shows_table_witness:
  "\<exists>m. run_steps (manager_step one_group) (storage_manager_new (storage_daemon_init True None))
      (start_up @ [GroupDone 0 0 (ReaderData [])]) = Inr m \<and>
    Thing 0 StorageVolumeGroup \<in> interfaces_at (the_daemon (mgr_world m)) (group_path ''vg0'')"
proof -
  have "\<exists>m. run_steps (manager_step one_group) (storage_manager_new (storage_daemon_init True None))
      (start_up @ [GroupDone 0 0 (ReaderData [])]) = Inr m \<and> shown m (group_path ''vg0'') (Thing 0 StorageVolumeGroup)"
    by (simp add: manager_eval published_group_def volume_group_update_props_def dicts_of_def lookup_defs
        update_all_blocks_def read_physical_volumes_def lvm_vg_update_done_def lvm_update_done_def
        trigger_delayed_lvm_update_def shown_def)
  then obtain m where run: "run_steps (manager_step one_group) (storage_manager_new (storage_daemon_init True None))
      (start_up @ [GroupDone 0 0 (ReaderData [])]) = Inr m" and "shown m (group_path ''vg0'') (Thing 0 StorageVolumeGroup)"
    by blast
  moreover have "names_from {''vg0''} one_group"
    by (simp add: names_from_def one_group_def dicts_of_def lookup_defs)
  ultimately show ?thesis
    using bus_shows_table [OF _ _ _ _ run, of "{''vg0''}" "Thing 0 StorageVolumeGroup" "group_path ''vg0''"] by auto
qed

end
