(* ===== verification/Manager_Creation.thy ===== *)
theory Manager_Creation
  imports Manager
begin

text \<open>
  The creation of a volume group in \<open>src/manager.c\<close>: the function of its job and the checks
  before the job is launched.
\<close>

section \<open>The job\<close>

text \<open>Calls that make udev look at a device: it is opened for writing and closed.\<close>

fun is_trigger :: "sysevent \<Rightarrow> bool" where
  "is_trigger (EvOpen dev flags) \<longleftrightarrow> flags = [O_RDWR]"
| "is_trigger (EvClose fd) \<longleftrightarrow> True"
| "is_trigger _ \<longleftrightarrow> False"

lemma trigger_all_calls:
  "\<exists>c. fold (trigger_udev os) devs tr = tr @ c \<and> opened c = devs \<and> list_all is_trigger c"
proof (induction devs arbitrary: tr)
  case (Cons dev devs)
  obtain fd errno where "sys_open os tr dev [O_RDWR] = (fd, errno)" by fastforce
  then have "trigger_udev os dev tr = tr @ (EvOpen dev [O_RDWR] # (if 0 \<le> fd then [EvClose fd] else []))"
    by (simp add: trigger_udev_def)
  then obtain c1 where c1: "trigger_udev os dev tr = tr @ c1" "opened c1 = [dev]" "list_all is_trigger c1" by fastforce
  obtain c where "fold (trigger_udev os) devs (tr @ c1) = (tr @ c1) @ c" "opened c = devs" "list_all is_trigger c"
    using Cons.IH by blast
  with c1 show ?case by (intro exI [of _ "c1 @ c"]) simp
qed simp

interpretation create_job: job_function "\<lambda>_. fst (volume_group_create_job_thread os vg devices tr)" for os vg devices tr
  by unfold_locales
    (auto simp: volume_group_create_job_thread_def dest: verdict_contract split: prod.splits option.splits)

text \<open>
  C13: The job that makes a group first wipes the devices in turn. When one of the wipes did not go
  well, \<open>vgcreate\<close> is not run and the job fails. Otherwise \<open>vgcreate\<close> runs with the name and all
  devices; the job succeeds exactly when it exited with status 0, and exactly then udev is made to look at
  every device. A job that fails carries an error.
\<close>

theorem create_wipes_first:
  "case volume_group_create_job_thread os vg devices tr of ((ok, err), tr') \<Rightarrow>
     let create = EvSpawn ([''vgcreate'', vg] @ devices) in
     (ok \<longleftrightarrow> err = None) \<and>
     (case wipes os devices tr of
        None \<Rightarrow> \<not> ok \<and> (\<exists>c. tr' = tr @ c \<and> prefix (opened c) devices \<and> list_all (wipe_program devices) c)
      | Some wiped \<Rightarrow>
          (ok \<longleftrightarrow> went_well os wiped create) \<and>
          (\<exists>u. tr' = wiped @ create # u \<and> (if ok then opened u = devices \<and> list_all is_trigger u else u = [])))"
proof -
  let ?argv = "[''vgcreate'', vg] @ devices"
  obtain r tr1 where w: "wipe_all os devices tr = (r, tr1)" by fastforce
  obtain c where c: "tr1 = tr @ c" "prefix (opened c) devices" using wipe_all_calls [OF w] by blast
  note wipes = wipe_all_wipes [OF w]
  show ?thesis
  proof (cases r)
    case (Some e)
    with w c wipes wipe_all_programs [OF w c(1)] show ?thesis
      by (simp add: volume_group_create_job_thread_def verdict_def Let_def)
  next
    case None
    obtain r2 tr2 where r2: "run_command os ''vgcreate'' ?argv tr1 = (r2, tr2)" by fastforce
    note tr2 = run_command_trace [OF r2] and well = run_command_well [OF r2]
    obtain u where u: "fold (trigger_udev os) devices tr2 = tr2 @ u" "opened u = devices" "list_all is_trigger u"
      using trigger_all_calls by blast
    have "volume_group_create_job_thread os vg devices tr =
        (case r2 of Some e \<Rightarrow> (verdict (Some e), tr2) | None \<Rightarrow> (verdict None, tr2 @ u))"
      using w None r2 u by (simp add: volume_group_create_job_thread_def split: option.split)
    with None u(2,3) tr2 well wipes show ?thesis
      by (cases r2) (simp_all add: verdict_def Let_def del: went_well.simps(4))
  qed
qed

section \<open>The checks\<close>

text \<open>Calls that only try to open a device for itself.\<close>

fun is_probe :: "sysevent \<Rightarrow> bool" where
  "is_probe (EvOpen dev flags) \<longleftrightarrow> flags = [O_RDONLY, O_EXCL]"
| "is_probe (EvClose fd) \<longleftrightarrow> True"
| "is_probe _ \<longleftrightarrow> False"

lemma collect_blocks_calls:
  "collect_blocks os bs n paths tr = (r, tr') \<Longrightarrow>
   \<exists>c. tr' = tr @ c \<and> list_all is_probe c \<and>
     (case r of
        Inr l \<Rightarrow> map (ht_lookup bs) paths = map Some l \<and> opened c = map blk_device l \<and> all_well os tr c
      | Inl e \<Rightarrow> (\<exists>path \<in> set paths. ht_lookup bs path = None) \<or> \<not> all_well os tr c)"
proof (induction paths arbitrary: n tr r)
  case (Cons path paths)
  show ?case
  proof (cases "ht_lookup bs path")
    case None
    with Cons.prems show ?thesis by auto
  next
    case (Some b)
    let ?open = "EvOpen (blk_device b) [O_RDONLY, O_EXCL]"
    obtain fd errno where fd: "sys_open os tr (blk_device b) [O_RDONLY, O_EXCL] = (fd, errno)" by fastforce
    show ?thesis
    proof (cases "fd < 0")
      case True
      with Cons.prems Some fd show ?thesis by (auto simp: storage_block_is_unused_def)
    next
      case False
      obtain r1 tr1 where col: "collect_blocks os bs (n + 1) paths (tr @ [?open, EvClose fd]) = (r1, tr1)"
        by fastforce
      with Cons.prems Some fd False have r: "r = map_sum id (Cons b) r1" and "tr1 = tr'"
        by (auto simp: storage_block_is_unused_def)
      with col have r1: "collect_blocks os bs (n + 1) paths (tr @ [?open, EvClose fd]) = (r1, tr')" by simp
      from Cons.IH [OF r1] obtain c where c: "tr' = (tr @ [?open, EvClose fd]) @ c" "list_all is_probe c"
        "case r1 of
           Inr l \<Rightarrow> map (ht_lookup bs) paths = map Some l \<and> opened c = map blk_device l \<and>
             all_well os (tr @ [?open, EvClose fd]) c
         | Inl e \<Rightarrow> (\<exists>path \<in> set paths. ht_lookup bs path = None) \<or> \<not> all_well os (tr @ [?open, EvClose fd]) c"
        by blast
      then show ?thesis using Some r fd False by (intro exI [of _ "[?open, EvClose fd] @ c"]) (cases r1; auto)
    qed
  qed
qed simp

text \<open>
  C12: A group is created only from blocks: the job is launched, one, with the function that makes the
  group of these devices, exactly when every object path given is a known block and the kernel
  let each device, in the order given, be opened exclusively; otherwise the caller gets an error and no job
  is launched. Until then no device is written to.
\<close>

theorem create_checks_blocks:
  "case handle_volume_group_create os tr_run uid m name paths of (m', res) \<Rightarrow>
     (\<exists>c. the_calls (mgr_world m') = the_calls (mgr_world m) @ c \<and> list_all is_probe c \<and>
        (case res of
           AnswersOnObject job msg \<Rightarrow>
             all_well os (the_calls (mgr_world m)) c \<and>
             (\<exists>bs j. map (ht_lookup (the_blocks (mgr_world m))) paths = map Some bs \<and>
                opened c = map blk_device bs \<and>
                jobs (the_daemon (mgr_world m')) = jobs (the_daemon (mgr_world m)) @ [(job, ThreadedJob j)] \<and>
                num_jobs (the_daemon (mgr_world m')) = num_jobs (the_daemon (mgr_world m)) + 1 \<and>
                job_objects j = [] \<and> operation j = ''lvm-vg-create'' \<and>
                job_func j = (\<lambda>_. fst (volume_group_create_job_thread os name (map blk_device bs) tr_run)))
         | Answered reply \<Rightarrow>
             (\<exists>e. reply = ReturnError e) \<and> the_daemon (mgr_world m') = the_daemon (mgr_world m) \<and>
             ((\<exists>path \<in> set paths. ht_lookup (the_blocks (mgr_world m)) path = None) \<or>
              \<not> all_well os (the_calls (mgr_world m)) c)
         | AnswersOnJob t msg \<Rightarrow> False))"
proof -
  let ?w = "mgr_world m"
  obtain r tr where r: "collect_blocks os (the_blocks ?w) 0 paths (the_calls ?w) = (r, tr)"
    by fastforce
  obtain c where c: "tr = the_calls ?w @ c" "list_all is_probe c"
    "case r of
       Inr l \<Rightarrow> map (ht_lookup (the_blocks ?w)) paths = map Some l \<and> opened c = map blk_device l \<and>
         all_well os (the_calls ?w) c
     | Inl e \<Rightarrow> (\<exists>path \<in> set paths. ht_lookup (the_blocks ?w) path = None) \<or> \<not> all_well os (the_calls ?w) c"
    using collect_blocks_calls [OF r] by blast
  show ?thesis
  proof (cases r)
    case (Inl e)
    with r c show ?thesis by (simp add: handle_volume_group_create_def Let_def)
  next
    case (Inr bs)
    with r c show ?thesis
      by (auto simp: handle_volume_group_create_def storage_daemon_launch_threaded_job_def export_job_def Let_def
          storage_job_add_thing_def storage_threaded_job_new_def job_new_def job.defs)
  qed
qed

lemma create_checks_blocks_witness:
  "\<exists>m' job msg j. handle_volume_group_create agreeing_os [] 0
       (storage_manager_new (storage_daemon_init True None)\<lparr>mgr_world := demo_world\<rparr>) ''vg0'' [blk_path demo_block] =
       (m', AnswersOnObject job msg) \<and>
     jobs (the_daemon (mgr_world m')) = [(job, ThreadedJob j)] \<and> operation j = ''lvm-vg-create''"
proof -
  let ?m = "storage_manager_new (storage_daemon_init True None)\<lparr>mgr_world := demo_world\<rparr>"
  obtain m' res where h: "handle_volume_group_create agreeing_os [] 0 ?m ''vg0'' [blk_path demo_block] = (m', res)"
    by fastforce
  have "\<exists>job msg. res = AnswersOnObject job msg"
    using h by (auto simp: handle_volume_group_create_def demo_world_def ht_lookup_def storage_block_is_unused_def
        agreeing_os_def storage_daemon_launch_threaded_job_def Let_def)
  moreover have "jobs (the_daemon (mgr_world ?m)) = []" by (simp add: demo_world_def storage_daemon_init_def)
  ultimately show ?thesis
    using create_checks_blocks [where os = agreeing_os and tr_run = "[]" and uid = 0 and m = ?m and name = "''vg0''" and paths = "[blk_path demo_block]"] h by auto
qed

end
