(* ===== verification/Method_Calls.thy ===== *)
theory Method_Calls
  imports Group_Methods Manager_Creation
begin

text \<open>
  The answers of the methods: the handlers of a job's \<open>completed\<close> signal and of the daemon's
  \<open>published\<close> signal in \<open>src/volumegroup.c\<close>, \<open>src/logicalvolume.c\<close> and
  \<open>src/manager.c\<close>. A call that deletes or changes something is answered when its job
  completes; a call that makes something is answered when an update publishes it.
\<close>

section \<open>Calls answered when the job completes\<close>

subsection \<open>Methods of a volume group\<close>

definition on_delete_complete :: "bool \<Rightarrow> string \<Rightarrow> reply" where
  "on_delete_complete success message =
     (if success then Return []
      else ReturnError (udisks_error UDISKS_ERROR_FAILED (''Error deleting volume group: '' @ message)))"

definition on_adddev_complete :: "bool \<Rightarrow> string \<Rightarrow> reply" where
  "on_adddev_complete success message =
     (if success then Return []
      else ReturnError (udisks_error UDISKS_ERROR_FAILED (''Error adding device to volume group: '' @ message)))"

definition on_remdev_complete :: "bool \<Rightarrow> string \<Rightarrow> reply" where
  "on_remdev_complete success message =
     (if success then Return []
      else ReturnError (udisks_error UDISKS_ERROR_FAILED (''Error removing device from volume group: '' @ message)))"

definition on_empty_complete :: "bool \<Rightarrow> string \<Rightarrow> reply" where
  "on_empty_complete success message =
     (if success then Return []
      else ReturnError (udisks_error UDISKS_ERROR_FAILED (''Error emptying device in volume group: '' @ message)))"

subsection \<open>Methods of a logical volume\<close>

definition on_complete_delete :: "bool \<Rightarrow> string \<Rightarrow> reply" where
  "on_complete_delete success message =
     (if success then Return []
      else ReturnError (udisks_error UDISKS_ERROR_FAILED (''Error deleting logical volume: '' @ message)))"

definition on_resize_complete :: "bool \<Rightarrow> string \<Rightarrow> reply" where
  "on_resize_complete success message =
     (if success then Return []
      else ReturnError (udisks_error UDISKS_ERROR_FAILED (''Error resizing logical volume: '' @ message)))"

definition on_deactivate_complete :: "bool \<Rightarrow> string \<Rightarrow> reply" where
  "on_deactivate_complete success message =
     (if success then Return []
      else ReturnError (udisks_error UDISKS_ERROR_FAILED (''Error deactivating logical volume: '' @ message)))"

section \<open>Calls answered when an object appears\<close>

text \<open>
  The closure of such a call: the group or volume it is about, the name it waits for, and what has
  become of it. \<open>waits_for\<close> is the method, which says the two handlers that are connected.
\<close>

datatype waits_for = GroupCreated | GroupRenamed | VolumeCreated | VolumeRenamed | SnapshotCreated | VolumeActivated

record waiting_call =
  call_kind :: waits_for
  wait_thing :: "thing option"
  wait_name :: "string option"
  wait_closure :: closure_state

text \<open>What the daemon published, as the handlers see it.\<close>

datatype published_thing =
    PublishedGroup volume_group | PublishedVolume logical_volume | PublishedBlock lv_block_iface string

text \<open>The answer with an object path, after which the handler disconnects itself.\<close>

definition answer_path :: "waiting_call \<Rightarrow> string option \<Rightarrow> waiting_call" where
  "answer_path call path = call\<lparr>wait_closure := on_closure_published (wait_closure call) True path\<rparr>"

subsection \<open>Handlers of \<open>published\<close>\<close>

definition on_create_volume_group :: "daemon \<Rightarrow> volume_group \<Rightarrow> waiting_call \<Rightarrow> waiting_call" where
  "on_create_volume_group d g call =
     (if wait_name call = Some (vgo_name g) then answer_path call (path_of d (vgo_thing g)) else call)"

definition on_rename_volume_group :: "daemon \<Rightarrow> volume_group \<Rightarrow> waiting_call \<Rightarrow> waiting_call" where
  "on_rename_volume_group d g call =
     (if wait_name call = Some (vgo_name g) then answer_path call (path_of d (vgo_thing g)) else call)"

definition on_create_logical_volume :: "daemon \<Rightarrow> logical_volume \<Rightarrow> waiting_call \<Rightarrow> waiting_call" where
  "on_create_logical_volume d volume call =
     (if wait_name call = Some (lvo_name volume) \<and> lvo_group volume = wait_thing call
      then answer_path call (path_of d (lvo_thing volume)) else call)"

definition on_rename_logical_volume :: "daemon \<Rightarrow> logical_volume \<Rightarrow> waiting_call \<Rightarrow> waiting_call" where
  "on_rename_logical_volume d volume call =
     (if wait_name call = Some (lvo_name volume) \<and> lvo_group volume = wait_thing call
      then answer_path call (path_of d (lvo_thing volume)) else call)"

definition on_snapshot_logical_volume :: "daemon \<Rightarrow> logical_volume \<Rightarrow> waiting_call \<Rightarrow> waiting_call" where
  "on_snapshot_logical_volume d volume call =
     (if wait_name call = Some (lvo_name volume) \<and> lvo_group volume = wait_thing call
      then answer_path call (path_of d (lvo_thing volume)) else call)"

text \<open>\<open>path\<close> is where the interface of the block is exported.\<close>

definition on_activate_logical_volume_block ::
  "daemon \<Rightarrow> lv_block_iface \<Rightarrow> string \<Rightarrow> waiting_call \<Rightarrow> waiting_call" where
  "on_activate_logical_volume_block d block path call =
     (if strcmp0_eq (lbi_logical_volume block) (Option.bind (wait_thing call) (path_of d))
      then answer_path call (Some path) else call)"

text \<open>
  The signal \<open>published\<close> has the type of the thing as its detail: it runs the handler of each call that
  is connected to it and waits for that type.
\<close>

definition on_published :: "daemon \<Rightarrow> published_thing \<Rightarrow> waiting_call \<Rightarrow> waiting_call" where
  "on_published d x call =
     (if \<not> listening (wait_closure call) then call
      else case (call_kind call, x) of
        (GroupCreated, PublishedGroup g) \<Rightarrow> on_create_volume_group d g call
      | (GroupRenamed, PublishedGroup g) \<Rightarrow> on_rename_volume_group d g call
      | (VolumeCreated, PublishedVolume v) \<Rightarrow> on_create_logical_volume d v call
      | (VolumeRenamed, PublishedVolume v) \<Rightarrow> on_rename_logical_volume d v call
      | (SnapshotCreated, PublishedVolume v) \<Rightarrow> on_snapshot_logical_volume d v call
      | (VolumeActivated, PublishedBlock i p) \<Rightarrow> on_activate_logical_volume_block d i p call
      | _ \<Rightarrow> call)"

subsection \<open>Handlers of \<open>completed\<close>\<close>

definition fail_call :: "string \<Rightarrow> waiting_call \<Rightarrow> bool \<Rightarrow> string \<Rightarrow> abort + waiting_call" where
  "fail_call text call success message =
     map_sum id (\<lambda>c. call\<lparr>wait_closure := c\<rparr>) (on_closure_complete text (wait_closure call) success message)"

text \<open>\<open>on_create_complete\<close> of \<open>manager.c\<close> and of \<open>volumegroup.c\<close>.\<close>

definition mgr_on_create_complete :: "waiting_call \<Rightarrow> bool \<Rightarrow> string \<Rightarrow> abort + waiting_call" where
  "mgr_on_create_complete = fail_call ''Error creating volume group: ''"

definition vg_on_create_complete :: "waiting_call \<Rightarrow> bool \<Rightarrow> string \<Rightarrow> abort + waiting_call" where
  "vg_on_create_complete = fail_call ''Error creating logical volume: ''"

text \<open>\<open>on_rename_complete\<close> of \<open>volumegroup.c\<close> and of \<open>logicalvolume.c\<close>.\<close>

definition vg_on_rename_complete :: "waiting_call \<Rightarrow> bool \<Rightarrow> string \<Rightarrow> abort + waiting_call" where
  "vg_on_rename_complete = fail_call ''Error renaming volume group: ''"

definition lv_on_rename_complete :: "waiting_call \<Rightarrow> bool \<Rightarrow> string \<Rightarrow> abort + waiting_call" where
  "lv_on_rename_complete = fail_call ''Error renaming logical volume: ''"

definition on_snapshot_complete :: "waiting_call \<Rightarrow> bool \<Rightarrow> string \<Rightarrow> abort + waiting_call" where
  "on_snapshot_complete = fail_call ''Error creating snapshot: ''"

definition on_activate_complete :: "waiting_call \<Rightarrow> bool \<Rightarrow> string \<Rightarrow> abort + waiting_call" where
  "on_activate_complete = fail_call ''Error activating logical volume: ''"

text \<open>A job emits \<open>completed\<close> once; the handler of the call is the one of its method.\<close>

definition on_job_of_call :: "waiting_call \<Rightarrow> bool \<Rightarrow> string \<Rightarrow> abort + waiting_call" where
  "on_job_of_call call success message =
     (if job_done (wait_closure call) then Inr call
      else case call_kind call of
        GroupCreated \<Rightarrow> mgr_on_create_complete call success message
      | GroupRenamed \<Rightarrow> vg_on_rename_complete call success message
      | VolumeCreated \<Rightarrow> vg_on_create_complete call success message
      | VolumeRenamed \<Rightarrow> lv_on_rename_complete call success message
      | SnapshotCreated \<Rightarrow> on_snapshot_complete call success message
      | VolumeActivated \<Rightarrow> on_activate_complete call success message)"

section \<open>What an update announces\<close>

text \<open>The signals emitted since an earlier state, and those that handlers of calls are connected to.\<close>

fun heard :: "daemon_signal \<Rightarrow> bool" where
  "heard (Published t _) = (thing_type t \<in> {StorageVolumeGroup, StorageLogicalVolume, LvmLogicalVolumeBlockSkeleton})"
| "heard Finished = False"

definition announced :: "daemon \<Rightarrow> daemon \<Rightarrow> daemon_signal list" where
  "announced d d' = drop (length (emitted d)) (emitted d')"

definition announces :: "daemon \<Rightarrow> daemon_signal list \<Rightarrow> daemon \<Rightarrow> bool" where
  "announces d sigs d' \<longleftrightarrow> (\<exists>news. emitted d' = emitted d @ news \<and> filter heard news = sigs)"

lemma announces_announced: "announces d sigs d' \<Longrightarrow> filter heard (announced d d') = sigs"
  by (auto simp: announces_def announced_def)

lemma announces_same: "emitted d' = emitted d \<Longrightarrow> announces d [] d'"
  by (simp add: announces_def)

lemma announces_trans: "announces d s e \<Longrightarrow> announces e t f \<Longrightarrow> announces d (s @ t) f"
  by (force simp: announces_def)

lemma announces_publish:
  assumes "is_dbus_interface t"
  shows "announces d (if heard (Published t p) then [Published t p] else []) (publish_at d p t)"
  by (simp add: announces_def emitted_publish [OF assms])

lemma announces_fold:
  "(\<And>x d. emitted (f x d) = emitted d) \<Longrightarrow> emitted (fold f xs d) = emitted d"
  by (induction xs arbitrary: d) simp_all

text \<open>The new volumes of a table, with the group they are set to.\<close>

definition volume_news :: "volume_group \<Rightarrow> volume_group \<Rightarrow> (string \<times> thing) list \<Rightarrow> bool" where
  "volume_news g g' ns \<longleftrightarrow>
     distinct (map fst ns) \<and> fst ` set ns = ht_keys (logical_volumes g') - ht_keys (logical_volumes g) \<and>
     (\<forall>(n, t) \<in> set ns. \<exists>v. ht_lookup (logical_volumes g') n = Some v \<and> lvo_thing v = t \<and>
        lvo_group v = Some (vgo_thing g))"

definition volume_signals :: "string \<Rightarrow> (string \<times> thing) list \<Rightarrow> daemon_signal list" where
  "volume_signals vg ns = map (\<lambda>(n, t). Published t (volume_path vg n)) ns"

definition keeps_volumes :: "volume_group \<Rightarrow> volume_group \<Rightarrow> bool" where
  "keeps_volumes g g' \<longleftrightarrow>
     (\<forall>k v. ht_lookup (logical_volumes g) k = Some v \<and> lvo_group v = Some (vgo_thing g) \<longrightarrow>
        (\<exists>v'. ht_lookup (logical_volumes g') k = Some v' \<and> lvo_thing v' = lvo_thing v \<and>
           lvo_group v' = Some (vgo_thing g)))"

text \<open>A step of the update and what it announces.\<close>

fun volumes_announced :: "world \<times> volume_group \<times> bool \<times> string list \<Rightarrow>
  world \<times> volume_group \<times> bool \<times> string list \<Rightarrow> bool" where
  "volumes_announced (w, g, _, _) (w', g', _, _) \<longleftrightarrow>
     (\<exists>ns. announces (the_daemon w) (volume_signals (vgo_name g) ns) (the_daemon w') \<and> volume_news g g' ns) \<and>
     keeps_volumes g g' \<and> vgo_name g' = vgo_name g \<and> vgo_thing g' = vgo_thing g \<and>
     ht_keys (logical_volumes g) \<subseteq> ht_keys (logical_volumes g')"

lemma volumes_announced_refl: "volumes_announced (w, g, p, ns) (w, g, p', ns')"
  by (auto simp: volume_news_def keeps_volumes_def volume_signals_def intro!: exI [of _ "[]"] announces_same)

lemma volumes_announced_trans:
  assumes "volumes_announced s t" and "volumes_announced t u"
  shows "volumes_announced s u"
proof -
  obtain w g p ns where s: "s = (w, g, p, ns)" by (cases s)
  obtain w1 g1 p1 ns1 where t: "t = (w1, g1, p1, ns1)" by (cases t)
  obtain w2 g2 p2 ns2 where u: "u = (w2, g2, p2, ns2)" by (cases u)
  obtain m where m: "announces (the_daemon w) (volume_signals (vgo_name g) m) (the_daemon w1)" "volume_news g g1 m"
    using assms(1) by (auto simp: s t)
  obtain n where n: "announces (the_daemon w1) (volume_signals (vgo_name g) n) (the_daemon w2)" "volume_news g1 g2 n"
    using assms by (auto simp: s t u)
  have same: "vgo_thing g1 = vgo_thing g" "keeps_volumes g1 g2"
      "ht_keys (logical_volumes g) \<subseteq> ht_keys (logical_volumes g1)"
      "ht_keys (logical_volumes g1) \<subseteq> ht_keys (logical_volumes g2)"
    using assms by (simp_all add: s t u)
  have "announces (the_daemon w) (volume_signals (vgo_name g) (m @ n)) (the_daemon w2)"
    using announces_trans [OF m(1) n(1)] by (simp add: volume_signals_def)
  moreover have "volume_news g g2 (m @ n)"
    using m(2) n(2) same unfolding volume_news_def keeps_volumes_def by (auto simp: image_Un)
  moreover have "keeps_volumes g g2"
    using assms same(1) unfolding s t u by (auto simp: keeps_volumes_def) metis
  ultimately show ?thesis using assms by (auto simp: s t u)
qed

lemma update_volume_announced:
  assumes ok: "update_ok N (w, g, polling, names)" and u: "update_volume os now i (w, g, polling, names) = Inr s'"
  shows "volumes_announced (w, g, polling, names) s'"
proof -
  obtain name where name: "lookup_s i ''name'' = Some name"
    using u by (auto simp: update_volume_def split: option.splits)
  obtain w1 p1 where o: "update_operations now name i w polling = Inr (w1, p1)"
    using u by (auto simp: update_volume_def name ebind_Inr)
  have bus1: "same_bus (the_daemon w) (the_daemon w1)" using update_operations_world [OF o] by blast
  let ?p = "p1 \<or> lv_is_pvmove_volume name" and ?t = "logical_volumes g"
  have g: "group_ok (the_daemon w) g" and bus: "bus_ok (the_daemon w)" using ok by (simp_all add: update_ok_def world_ok_def)
  show ?thesis
  proof (cases "lv_is_visible name")
    case False
    with u name o have "s' = (w1, g, ?p, names)" by (auto simp: update_volume_def Let_def)
    moreover have "announces (the_daemon w) [] (the_daemon w1)" using bus1 by (intro announces_same) (simp add: same_bus_def)
    ultimately show ?thesis
      by (auto simp: volume_news_def keeps_volumes_def volume_signals_def intro!: exI [of _ "[]"])
  next
    case True
    show ?thesis
    proof (cases "ht_lookup ?t name")
      case (Some v)
      obtain d' tr' np' v' where uv: "storage_logical_volume_update os ?t (vgo_thing g) i
          (the_daemon w1) (the_calls w1) ?p v = (d', tr', np', v')" by (metis prod_cases4)
      note f = update_simps [OF uv]
      have s': "s' = (w1\<lparr>the_daemon := d', the_calls := tr'\<rparr>, g\<lparr>logical_volumes := ht_insert ?t name v'\<rparr>, np', names @ [name])"
        using u name o True Some uv by (simp add: update_volume_def Let_def)
      have "d' = the_daemon w1" using f(4) g Some by (auto simp: group_ok_def volume_ok_def)
      then have "announces (the_daemon w) [] d'" using bus1 by (intro announces_same) (simp add: same_bus_def)
      then show ?thesis
        unfolding s' using Some f(1,10)
        by (auto simp: volume_news_def keeps_volumes_def volume_signals_def ht.keys_ins ht.lookup_ins keys_lookup
            intro!: exI [of _ "[]"])
    next
      case None
      obtain d1 t where n: "new_thing (the_daemon w1) StorageLogicalVolume = (d1, t)" by fastforce
      obtain d' tr' np' v' where uv: "storage_logical_volume_update os ?t (vgo_thing g) i
          d1 (the_calls w1) ?p (storage_logical_volume_new t (vgo_thing g) name) = (d', tr', np', v')"
        by (metis prod_cases4)
      note f = update_simps [OF uv]
      have s': "s' = (w1\<lparr>the_daemon := d', the_calls := tr'\<rparr>,
          g\<lparr>logical_volumes := ht_insert ?t name v'\<rparr>, np', names @ [name])"
        using u name o True None n uv by (simp add: update_volume_def Let_def)
      have t: "thing_type t = StorageLogicalVolume" "is_dbus_interface t" and d1: "objects d1 = objects (the_daemon w)"
          "emitted d1 = emitted (the_daemon w)"
        using n bus1 by (auto simp: new_thing_def is_dbus_interface_def same_bus_def)
      have "path_of d1 (vgo_thing g) = Some (group_path (vgo_name g))"
        using g bus by (intro path_of_places) (simp_all add: d1 group_ok_def bus_ok_def)
      then have d': "d' = publish_at d1 (volume_path (vgo_name g) name) t"
        using f(4) g by (simp add: storage_logical_volume_new_def group_ok_def)
      have "announces (the_daemon w) (volume_signals (vgo_name g) [(name, t)]) d'"
        using announces_trans [OF announces_same [OF d1(2)] announces_publish [OF t(2), of d1 "volume_path (vgo_name g) name"]]
        by (simp add: d' t(1) volume_signals_def)
      moreover have "volume_news g (g\<lparr>logical_volumes := ht_insert ?t name v'\<rparr>) [(name, t)]"
        using None f(1,10) by (auto simp: volume_news_def ht.keys_ins ht.lookup_ins keys_lookup storage_logical_volume_new_def)
      ultimately show ?thesis
        unfolding s' using None by (auto simp: keeps_volumes_def ht.keys_ins ht.lookup_ins)
    qed
  qed
qed

lemma update_volumes_announced:
  assumes "update_ok N s" and "update_volumes os now is s = Inr s'"
    and "inj_on escape N" and "set (visible_names is) \<subseteq> N"
  shows "volumes_announced s s'"
  using assms
proof (induction "is" arbitrary: s)
  case Nil
  obtain w g polling names where "s = (w, g, polling, names)" by (cases s)
  moreover have "s' = s" using Nil.prems(2) by simp
  ultimately show ?case using volumes_announced_refl by blast
next
  case (Cons i "is")
  obtain t where t: "update_volume os now i s = Inr t" "update_volumes os now is t = Inr s'"
    using Cons.prems(2) by (auto simp: ebind_Inr)
  obtain w g polling names where s: "s = (w, g, polling, names)" by (cases s)
  have vis: "set (visible_name i) \<subseteq> N" using Cons.prems(4) by simp
  from update_volume_step [OF Cons.prems(1)[unfolded s] t(1)[unfolded s] Cons.prems(3) vis]
  have ok: "update_ok N t" by blast
  have "volumes_announced s t"
    unfolding s by (rule update_volume_announced [OF Cons.prems(1)[unfolded s] t(1)[unfolded s]])
  moreover have "volumes_announced t s'" using Cons.IH [OF ok t(2) Cons.prems(3)] Cons.prems(4) by simp
  ultimately show ?case by (rule volumes_announced_trans)
qed

text \<open>Disposed volumes and blocks announce nothing about groups and volumes.\<close>

lemma drop_stale_volumes_emitted:
  "drop_stale_volumes ns d vs = (d', vs') \<Longrightarrow> emitted d' = emitted d"
proof -
  have "emitted (fst (storage_logical_volume_dispose d v)) = emitted d" for d v
    by (simp add: storage_logical_volume_dispose_def Let_def split: option.split)
  then show "drop_stale_volumes ns d vs = (d', vs') \<Longrightarrow> emitted d' = emitted d"
    by (auto simp: drop_stale_volumes_eq intro!: announces_fold)
qed

text \<open>A block announces the interface of a logical volume when it gets one.\<close>

definition block_signals :: "block \<Rightarrow> block \<Rightarrow> daemon_signal list" where
  "block_signals b b' =
     (case (iface_logical_volume b, iface_logical_volume b') of
        (None, Some i) \<Rightarrow> [Published (lbi_thing i) (blk_path b)]
      | _ \<Rightarrow> [])"

lemma update_block_announced:
  assumes "storage_volume_group_update_block g d b = Inr (d', b')"
  shows "announces d (block_signals b b') d'"
proof -
  have pub: "emitted (publish_at (fst (new_thing e ty)) p (snd (new_thing e ty))) =
      emitted e @ [Published (Thing (next_thing e) ty) p]" if "ty \<noteq> StorageBlock" for e :: daemon and ty p
    using that by (simp add: new_thing_def is_dbus_interface_def emitted_publish)
  obtain d1 b1 where 1: "update_block_lv g d b = Inr (d1, b1)" and 2: "update_block_pv g d1 b1 = (d', b')"
    using assms by (auto simp: storage_volume_group_update_block_def ebind_Inr)
  have "announces d (block_signals b b1) d1"
    using 1 pub [of LvmLogicalVolumeBlockSkeleton d "blk_path b"]
    by (auto simp: update_block_lv_def storage_block_update_lv_def drop_logical_volume_def Let_def split_beta
        block_signals_def new_thing_def announces_def split: if_splits option.splits)
  moreover have "announces d1 [] d'"
    using 2 pub [of StoragePhysicalVolume d1 "blk_path b1"]
    by (auto simp: update_block_pv_def storage_block_update_pv_def drop_physical_volume_def Let_def split_beta
        new_thing_def announces_def split: if_splits option.splits)
  moreover have "block_signals b b' = block_signals b b1"
    using 2 by (auto simp: update_block_pv_def storage_block_update_pv_def drop_physical_volume_def Let_def
        block_signals_def split: if_splits option.splits prod.splits)
  ultimately show ?thesis using announces_trans [of d "block_signals b b1" d1 "[]" d'] by simp
qed

definition blocks_signals :: "block htab \<Rightarrow> block htab \<Rightarrow> daemon_signal list" where
  "blocks_signals bs bs' = concat (map (\<lambda>((_, b), (_, b')). block_signals b b') (zip bs bs'))"

lemma each_block_announced:
  assumes "each_block (storage_volume_group_update_block g) d bs = Inr (d', bs')"
  shows "announces d (blocks_signals bs bs') d'"
  using assms
proof (induction bs arbitrary: d d' bs')
  case Nil
  then show ?case by (simp add: blocks_signals_def announces_same)
next
  case (Cons kb bs)
  obtain k b where kb: "kb = (k, b)" by (cases kb)
  obtain d1 b1 bs2 where 1: "storage_volume_group_update_block g d b = Inr (d1, b1)"
    and 2: "each_block (storage_volume_group_update_block g) d1 bs = Inr (d', bs2)" and bs': "bs' = (k, b1) # bs2"
    using Cons.prems by (auto simp: kb ebind_Inr)
  from announces_trans [OF update_block_announced [OF 1] Cons.IH [OF 2]] show ?case
    by (simp add: blocks_signals_def bs' kb)
qed

text \<open>
  An update that takes effect announces the group when it is new, then each volume the report has and
  the table had not, then the blocks that became volumes.
\<close>

lemma update_announces:
  assumes w: "world_ok w" and g: "group_ok (the_daemon w) g \<or> group_new (the_daemon w) g"
    and inj: "inj_on escape (ht_keys (logical_volumes g) \<union> set (visible_names (dicts_of info ''lvs'')))"
    and u: "update_with_variant os now (Inr info) w g = Inr (w', g', True)"
  obtains ns where "announces (the_daemon w)
      ((if need_publish g then [Published (vgo_thing g) (group_path (vgo_name g))] else []) @
       volume_signals (vgo_name g) ns @ blocks_signals (the_blocks w) (the_blocks w')) (the_daemon w')"
    and "distinct (map fst ns)"
    and "fst ` set ns = set (visible_names (dicts_of info ''lvs'')) - ht_keys (logical_volumes g)"
    and "\<And>n t. (n, t) \<in> set ns \<Longrightarrow> \<exists>v. ht_lookup (logical_volumes g') n = Some v \<and> lvo_thing v = t \<and>
        lvo_group v = Some (vgo_thing g)"
proof -
  let ?lvs = "dicts_of info ''lvs''"
  let ?N = "ht_keys (logical_volumes g) \<union> set (visible_names ?lvs)"
  obtain w1 g1 where 1: "published_group w (volume_group_update_props g info) = (w1, g1)" by fastforce
  have g0: "group_ok (the_daemon w) (volume_group_update_props g info) \<or>
      group_new (the_daemon w) (volume_group_update_props g info)"
    using g by (simp add: group_ok_def group_new_def volume_ok_def)
  note pub = published_group_ok [OF w g0 1]
  let ?g1 = "g1\<lparr>last_info := Some info\<rparr>"
  obtain w2 g2 pol names where 2: "update_volumes os now ?lvs (w1, ?g1, False, []) = Inr (w2, g2, pol, names)"
    and rest: "(let (d, vs) = drop_stale_volumes (set names) (the_daemon w2) (logical_volumes g2);
               g = g2\<lparr>logical_volumes := vs, needs_polling := pol,
                     physical_volumes := read_physical_volumes (dicts_of info ''pvs'')\<rparr>
           in ebind (update_all_blocks g (w2\<lparr>the_daemon := d\<rparr>)) (\<lambda>w. Inr (w, g, True))) = Inr (w', g', True)"
    using u unfolding update_with_variant_eq 1 Let_def prod.case
    by (auto simp: ebind_Inr split: if_splits)
  have ok1: "update_ok ?N (w1, ?g1, False, [])" using pub by (auto simp: update_ok_def)
  have st: "update_ok ?N (w2, g2, pol, names)" "steps_to ?lvs (w1, ?g1, False, []) (w2, g2, pol, names)"
    using update_volumes_steps [OF ok1 2 inj] by auto
  have ann: "volumes_announced (w1, ?g1, False, []) (w2, g2, pol, names)"
    by (rule update_volumes_announced [OF ok1 2 inj]) simp
  obtain d vs where 3: "drop_stale_volumes (set names) (the_daemon w2) (logical_volumes g2) = (d, vs)" by fastforce
  note dr = drop_stale_volumes_ok [OF st(1) inj 3]
  from rest obtain bs where 4: "each_block (storage_volume_group_update_block g') d (the_blocks w2) = Inr (the_daemon w', bs)"
    and bs: "the_blocks w' = bs" and g': "logical_volumes g' = vs"
    by (auto simp: 3 Let_def ebind_Inr update_all_blocks_def)
  have g1: "vgo_thing g1 = vgo_thing g" "vgo_name g1 = vgo_name g" "logical_volumes g1 = logical_volumes g"
    "the_blocks w1 = the_blocks w"
    using 1 pub by (auto simp: published_group_def split: if_splits)
  have bl: "the_blocks w2 = the_blocks w" using st(2) g1 by simp
  obtain ns where ns: "announces (the_daemon w1) (volume_signals (vgo_name g) ns) (the_daemon w2)" "volume_news ?g1 g2 ns"
    using ann g1 by auto
  have "is_dbus_interface (vgo_thing g)" "thing_type (vgo_thing g) = StorageVolumeGroup"
    using g by (auto simp: group_ok_def group_new_def is_dbus_interface_def)
  then have a1: "announces (the_daemon w) (if need_publish g then [Published (vgo_thing g) (group_path (vgo_name g))] else [])
      (the_daemon w1)"
    using 1 announces_publish [of "vgo_thing g" "the_daemon w" "group_path (vgo_name g)"]
    by (auto simp: published_group_def announces_same split: if_splits)
  have a3: "announces (the_daemon w2) [] d" by (rule announces_same [OF drop_stale_volumes_emitted [OF 3]])
  have a4: "announces d (blocks_signals (the_blocks w) (the_blocks w')) (the_daemon w')"
    using each_block_announced [OF 4] by (simp add: bl bs)
  have names: "set names = set (visible_names ?lvs)" using st(2) by simp
  have keys: "fst ` set ns = set (visible_names ?lvs) - ht_keys (logical_volumes g)"
    using ns(2) st(2) g1 by (auto simp: volume_news_def)
  show thesis
  proof (rule that [of ns])
    show "announces (the_daemon w)
      ((if need_publish g then [Published (vgo_thing g) (group_path (vgo_name g))] else []) @
       volume_signals (vgo_name g) ns @ blocks_signals (the_blocks w) (the_blocks w')) (the_daemon w')"
      using announces_trans [OF a1 announces_trans [OF ns(1) announces_trans [OF a3 a4]]] by simp
    show "distinct (map fst ns)" using ns(2) by (simp add: volume_news_def)
    show "fst ` set ns = set (visible_names ?lvs) - ht_keys (logical_volumes g)" by (rule keys)
    show "\<exists>v. ht_lookup (logical_volumes g') n = Some v \<and> lvo_thing v = t \<and> lvo_group v = Some (vgo_thing g)"
      if "(n, t) \<in> set ns" for n t
    proof -
      have "n \<in> set names" using keys names that by force
      then show ?thesis using ns(2) that g1 by (auto simp: g' dr(5) volume_news_def)
    qed
  qed
qed

section \<open>Whom an update answers\<close>

text \<open>
  The instance a signal is about: the group, a volume of its table, or the interface of the block at
  that path. The handlers of a call run on each signal in turn.
\<close>

fun instance_of :: "world \<Rightarrow> volume_group \<Rightarrow> daemon_signal \<Rightarrow> published_thing option" where
  "instance_of w g (Published t p) =
     (case thing_type t of
        StorageVolumeGroup \<Rightarrow> if t = vgo_thing g then Some (PublishedGroup g) else None
      | StorageLogicalVolume \<Rightarrow>
          map_option (PublishedVolume \<circ> snd) (find (\<lambda>(_, v). lvo_thing v = t) (logical_volumes g))
      | LvmLogicalVolumeBlockSkeleton \<Rightarrow>
          map_option (\<lambda>i. PublishedBlock i p) (Option.bind (ht_lookup (the_blocks w) p) iface_logical_volume)
      | _ \<Rightarrow> None)"
| "instance_of w g Finished = None"

definition hear :: "world \<Rightarrow> volume_group \<Rightarrow> daemon_signal list \<Rightarrow> waiting_call \<Rightarrow> waiting_call" where
  "hear w g sigs call = fold (on_published (the_daemon w)) (List.map_filter (instance_of w g) sigs) call"

text \<open>The path a call is answered with when a thing is published, if it is.\<close>

fun path_answered :: "daemon \<Rightarrow> waiting_call \<Rightarrow> published_thing \<Rightarrow> string option option" where
  "path_answered d call (PublishedGroup g) =
     (if call_kind call \<in> {GroupCreated, GroupRenamed} \<and> wait_name call = Some (vgo_name g)
      then Some (path_of d (vgo_thing g)) else None)"
| "path_answered d call (PublishedVolume v) =
     (if call_kind call \<in> {VolumeCreated, VolumeRenamed, SnapshotCreated} \<and> wait_name call = Some (lvo_name v) \<and>
         lvo_group v = wait_thing call
      then Some (path_of d (lvo_thing v)) else None)"
| "path_answered d call (PublishedBlock i p) =
     (if call_kind call = VolumeActivated \<and> strcmp0_eq (lbi_logical_volume i) (Option.bind (wait_thing call) (path_of d))
      then Some (Some p) else None)"

lemmas published_handlers = on_create_volume_group_def on_rename_volume_group_def on_create_logical_volume_def
  on_rename_logical_volume_def on_snapshot_logical_volume_def on_activate_logical_volume_block_def

lemma on_published_eq:
  "on_published d x call =
     (if listening (wait_closure call)
      then case path_answered d call x of None \<Rightarrow> call | Some p \<Rightarrow> answer_path call p else call)"
  by (cases x; cases "call_kind call") (auto simp: on_published_def published_handlers)

lemma path_answered_closure [simp]:
  "path_answered d (call\<lparr>wait_closure := c\<rparr>) x = path_answered d call x"
  by (cases x) auto

definition path_reply :: "string option \<Rightarrow> reply" where
  "path_reply p = Return [case p of None \<Rightarrow> [] | Some p \<Rightarrow> p]"

lemma not_listening: "\<not> listening (wait_closure call) \<Longrightarrow> fold (on_published d) xs call = call"
  by (induction xs) (simp_all add: on_published_eq)

lemma replies_heard:
  "listening (wait_closure call) \<Longrightarrow>
   replies (wait_closure (fold (on_published d) xs call)) =
     replies (wait_closure call) @ take 1 (map path_reply (List.map_filter (path_answered d call) xs))"
proof (induction xs)
  case (Cons x xs)
  show ?case
  proof (cases "path_answered d call x")
    case (Some p)
    have "on_published d x call = answer_path call p" using Some Cons.prems by (simp add: on_published_eq)
    moreover have "\<not> listening (wait_closure (answer_path call p))"
      by (simp add: answer_path_def on_closure_published_def)
    ultimately have "fold (on_published d) (x # xs) call = answer_path call p" by (simp add: not_listening)
    with Some show ?thesis
      by (simp add: answer_path_def on_closure_published_def path_reply_def map_filter_simps)
  next
    case None
    then have "on_published d x call = call" by (simp add: on_published_eq)
    with None Cons show ?thesis by (simp add: map_filter_simps)
  qed
qed (simp add: map_filter_simps)

lemma map_filter_heard: "List.map_filter (instance_of w g) sigs = List.map_filter (instance_of w g) (filter heard sigs)"
proof (induction sigs)
  case (Cons s sigs)
  have "instance_of w g s = None" if "\<not> heard s"
    using that by (cases s) (auto split: gtype.split)
  with Cons show ?case by (auto simp: map_filter_simps split: option.split)
qed simp

lemma map_filter_append: "List.map_filter f (xs @ ys) = List.map_filter f xs @ List.map_filter f ys"
  by (simp add: List.map_filter_def)

lemma map_filter_none: "(\<And>x. x \<in> set xs \<Longrightarrow> f x = None) \<Longrightarrow> List.map_filter f xs = []"
  by (simp add: List.map_filter_def)

text \<open>The things an update publishes, in order.\<close>

definition published_volumes :: "volume_group \<Rightarrow> string list \<Rightarrow> published_thing list" where
  "published_volumes g ns = map (\<lambda>n. PublishedVolume (the (ht_lookup (logical_volumes g) n))) ns"

lemma find_volume:
  "distinct (map (lvo_thing \<circ> snd) t) \<Longrightarrow> (n, v) \<in> set t \<Longrightarrow>
   find (\<lambda>(_, u). lvo_thing u = lvo_thing v) t = Some (n, v)"
  by (induction t) (auto simp: image_iff split: if_splits)

lemma instance_of_volumes:
  assumes g: "group_ok d g" and inj: "inj_on escape (ht_keys (logical_volumes g))"
    and ns: "\<And>n t. (n, t) \<in> set ns \<Longrightarrow> \<exists>v. ht_lookup (logical_volumes g) n = Some v \<and> lvo_thing v = t"
  shows "List.map_filter (instance_of w g) (volume_signals vg ns) = published_volumes g (map fst ns)"
  using ns
proof (induction ns)
  case (Cons nt ns)
  obtain n t where nt: "nt = (n, t)" by (cases nt)
  obtain v where v: "ht_lookup (logical_volumes g) n = Some v" "lvo_thing v = t" using Cons.prems [of n t] by (auto simp: nt)
  have ty: "thing_type t = StorageLogicalVolume" using v g by (auto simp: group_ok_def volume_ok_def)
  have "find (\<lambda>(_, v). lvo_thing v = t) (logical_volumes g) = Some (n, v)"
    using find_volume [OF volume_things_distinct [OF g inj], of n v] v by (simp add: ht_lookup_def map_of_SomeD)
  then have "instance_of w g (Published t (volume_path vg n)) = Some (PublishedVolume v)" by (simp add: ty)
  with Cons v show ?case by (simp add: nt volume_signals_def published_volumes_def map_filter_simps)
qed (simp add: volume_signals_def published_volumes_def map_filter_simps)

text \<open>The blocks that become the volume at a path: they had no such interface, and udev says that they are it.\<close>

definition becoming :: "volume_group \<Rightarrow> string \<Rightarrow> block htab \<Rightarrow> string list" where
  "becoming g p bs =
     map fst (filter (\<lambda>(_, b). iface_logical_volume b = None \<and> of_group g b \<and> volume_shown g b = Some p) bs)"

lemma answered_blocks:
  assumes call: "call_kind call = VolumeActivated" "Option.bind (wait_thing call) (path_of (the_daemon w)) = Some p"
    and "map fst bs' = map fst bs"
    and "\<And>k b. (k, b) \<in> set bs \<Longrightarrow> blk_path b = k"
    and "\<And>k b b'. (k, b) \<in> set bs \<Longrightarrow> (k, b') \<in> set bs' \<Longrightarrow> shows_group g b b'"
    and "\<And>k b'. (k, b') \<in> set bs' \<Longrightarrow> ht_lookup (the_blocks w) k = Some b' \<and>
          (\<forall>i. iface_logical_volume b' = Some i \<longrightarrow> thing_type (lbi_thing i) = LvmLogicalVolumeBlockSkeleton)"
  shows "List.map_filter (path_answered (the_daemon w) call)
      (List.map_filter (instance_of w g) (blocks_signals bs bs')) = map Some (becoming g p bs)"
  using assms(3-)
proof (induction bs arbitrary: bs')
  case Nil
  then show ?case by (simp add: blocks_signals_def becoming_def map_filter_simps)
next
  case (Cons kb bs)
  obtain k b where kb: "kb = (k, b)" by (cases kb)
  obtain b' bs2 where bs': "bs' = (k, b') # bs2" and keys: "map fst bs2 = map fst bs"
    using Cons.prems(1) by (auto simp: kb)
  have path: "blk_path b = k" and sg: "shows_group g b b'" and look: "ht_lookup (the_blocks w) k = Some b'"
    and ty: "\<And>i. iface_logical_volume b' = Some i \<Longrightarrow> thing_type (lbi_thing i) = LvmLogicalVolumeBlockSkeleton"
    using Cons.prems(2) [of k b] Cons.prems(3) [of k b b'] Cons.prems(4) [of k b'] by (simp_all add: kb bs')
  have one: "List.map_filter (path_answered (the_daemon w) call) (List.map_filter (instance_of w g) (block_signals b b')) =
      (if iface_logical_volume b = None \<and> of_group g b \<and> volume_shown g b = Some p then [Some k] else [])"
  proof (cases "iface_logical_volume b")
    case None
    show ?thesis
    proof (cases "iface_logical_volume b'")
      case (Some i)
      then have "of_group g b" "volume_shown g b = lbi_logical_volume i" "volume_shown g b \<noteq> None"
        using sg None by (auto simp: shows_group_def shows_lv_def split: if_splits)
      then show ?thesis
        using None Some call path look ty by (auto simp: block_signals_def map_filter_simps strcmp0_eq_def)
    next
      case 2: None
      then have "\<not> (of_group g b \<and> volume_shown g b = Some p)"
        using sg None by (auto simp: shows_group_def shows_lv_def split: if_splits)
      then show ?thesis using None 2 by (simp add: block_signals_def map_filter_simps)
    qed
  qed (simp add: block_signals_def map_filter_simps)
  have rest: "List.map_filter (path_answered (the_daemon w) call)
      (List.map_filter (instance_of w g) (blocks_signals bs bs2)) = map Some (becoming g p bs)"
  proof (rule Cons.IH [OF keys])
    show "blk_path b = k" if "(k, b) \<in> set bs" for k b
      by (rule Cons.prems(2)) (simp add: that)
    show "shows_group g b b'" if "(k, b) \<in> set bs" "(k, b') \<in> set bs2" for k b b'
      by (rule Cons.prems(3) [of k b b']) (simp_all add: that bs')
    show "ht_lookup (the_blocks w) k = Some b' \<and>
          (\<forall>i. iface_logical_volume b' = Some i \<longrightarrow> thing_type (lbi_thing i) = LvmLogicalVolumeBlockSkeleton)"
      if "(k, b') \<in> set bs2" for k b'
      by (rule Cons.prems(4)) (simp add: that bs')
  qed
  have "blocks_signals (kb # bs) bs' = block_signals b b' @ blocks_signals bs bs2"
    by (simp add: kb bs' blocks_signals_def)
  moreover have "becoming g p (kb # bs) =
      (if iface_logical_volume b = None \<and> of_group g b \<and> volume_shown g b = Some p then [k] else []) @ becoming g p bs"
    by (simp add: kb becoming_def)
  ultimately show ?case by (simp only: map_filter_append one rest) simp
qed

lemma blocks_known:
  assumes w: "world_ok w" and g: "group_ok (the_daemon w) g \<or> group_new (the_daemon w) g"
    and inj: "inj_on escape (ht_keys (logical_volumes g) \<union> set (visible_names (dicts_of info ''lvs'')))"
    and u: "update_with_variant os now (Inr info) w g = Inr (w', g', True)"
  shows "map fst (the_blocks w') = map fst (the_blocks w)"
    and "(k, b) \<in> set (the_blocks w) \<Longrightarrow> blk_path b = k"
    and "(k, b) \<in> set (the_blocks w) \<Longrightarrow> (k, b') \<in> set (the_blocks w') \<Longrightarrow> shows_group g' b b'"
    and "(k, b') \<in> set (the_blocks w') \<Longrightarrow> ht_lookup (the_blocks w') k = Some b' \<and>
          (\<forall>i. iface_logical_volume b' = Some i \<longrightarrow> thing_type (lbi_thing i) = LvmLogicalVolumeBlockSkeleton)"
proof -
  note run = group_update_run [OF assms]
  have bs: "blocks_ok (the_daemon w) (the_blocks w)" and bs': "blocks_ok (the_daemon w') (the_blocks w')"
    using w run(1) by (simp_all add: world_ok_def)
  show "map fst (the_blocks w') = map fst (the_blocks w)" by (rule run(10))
  show "(k, b) \<in> set (the_blocks w) \<Longrightarrow> blk_path b = k" using bs by (auto simp: blocks_ok_def)
  have look: "ht_lookup (the_blocks w') k = Some b'" if "(k, b') \<in> set (the_blocks w')" for k b'
    using bs' that by (simp add: blocks_ok_def ht_lookup_def)
  show "shows_group g' b b'" if "(k, b) \<in> set (the_blocks w)" "(k, b') \<in> set (the_blocks w')"
  proof -
    have "ht_lookup (the_blocks w) k = Some b" using bs that(1) by (simp add: blocks_ok_def ht_lookup_def)
    from run(9) [OF this] look [OF that(2)] show ?thesis by auto
  qed
  show "ht_lookup (the_blocks w') k = Some b' \<and>
      (\<forall>i. iface_logical_volume b' = Some i \<longrightarrow> thing_type (lbi_thing i) = LvmLogicalVolumeBlockSkeleton)"
    if "(k, b') \<in> set (the_blocks w')"
    using look [OF that] that bs' by (auto simp: blocks_ok_def block_ok_def block_types_ok_def)
qed

text \<open>What the handlers see of an update.\<close>

lemma update_heard:
  assumes w: "world_ok w" and g: "group_ok (the_daemon w) g \<or> group_new (the_daemon w) g"
    and inj: "inj_on escape (ht_keys (logical_volumes g) \<union> set (visible_names (dicts_of info ''lvs'')))"
    and u: "update_with_variant os now (Inr info) w g = Inr (w', g', True)"
  obtains ns where "distinct ns" and "set ns = set (visible_names (dicts_of info ''lvs'')) - ht_keys (logical_volumes g)"
    and "\<And>n. n \<in> set ns \<Longrightarrow> \<exists>v. ht_lookup (logical_volumes g') n = Some v \<and> lvo_group v = Some (vgo_thing g')"
    and "List.map_filter (instance_of w' g') (announced (the_daemon w) (the_daemon w')) =
      (if need_publish g then [PublishedGroup g'] else []) @ published_volumes g' ns @
      List.map_filter (instance_of w' g') (blocks_signals (the_blocks w) (the_blocks w'))"
proof -
  note run = group_update_run [OF assms]
  obtain ns where ann: "announces (the_daemon w)
      ((if need_publish g then [Published (vgo_thing g) (group_path (vgo_name g))] else []) @
       volume_signals (vgo_name g) ns @ blocks_signals (the_blocks w) (the_blocks w')) (the_daemon w')"
    and ns: "distinct (map fst ns)"
      "fst ` set ns = set (visible_names (dicts_of info ''lvs'')) - ht_keys (logical_volumes g)"
      "\<And>n t. (n, t) \<in> set ns \<Longrightarrow> \<exists>v. ht_lookup (logical_volumes g') n = Some v \<and> lvo_thing v = t \<and>
        lvo_group v = Some (vgo_thing g)"
    by (rule update_announces [OF assms]) blast
  have "thing_type (vgo_thing g) = StorageVolumeGroup" using g by (auto simp: group_ok_def group_new_def)
  then have grp: "List.map_filter (instance_of w' g')
      (if need_publish g then [Published (vgo_thing g) (group_path (vgo_name g))] else []) =
      (if need_publish g then [PublishedGroup g'] else [])"
    by (simp add: map_filter_simps run(11))
  have "inj_on escape (ht_keys (logical_volumes g'))"
    using inj by (rule inj_on_subset) (simp add: run(4))
  then have vols: "List.map_filter (instance_of w' g') (volume_signals (vgo_name g) ns) = published_volumes g' (map fst ns)"
    using ns(3) by (intro instance_of_volumes [OF run(2)]) blast+
  show thesis
  proof (rule that [of "map fst ns"])
    show "distinct (map fst ns)" by (rule ns(1))
    show "set (map fst ns) = set (visible_names (dicts_of info ''lvs'')) - ht_keys (logical_volumes g)"
      using ns(2) by simp
    show "\<exists>v. ht_lookup (logical_volumes g') n = Some v \<and> lvo_group v = Some (vgo_thing g')" if "n \<in> set (map fst ns)" for n
      using ns(3) that by (force simp: run(11))
    show "List.map_filter (instance_of w' g') (announced (the_daemon w) (the_daemon w')) =
      (if need_publish g then [PublishedGroup g'] else []) @ published_volumes g' (map fst ns) @
      List.map_filter (instance_of w' g') (blocks_signals (the_blocks w) (the_blocks w'))"
      by (subst map_filter_heard)
        (simp only: announces_announced [OF ann] map_filter_append grp vols)
  qed
qed

lemma published_volumes_simps [simp]:
  "published_volumes g [] = []"
  "published_volumes g (n # ns) = PublishedVolume (the (ht_lookup (logical_volumes g) n)) # published_volumes g ns"
  by (simp_all add: published_volumes_def)

lemma answered_volumes:
  assumes g: "group_ok d g" "bus_ok d" and call: "call_kind call \<in> {VolumeCreated, VolumeRenamed, SnapshotCreated}"
    and ns: "\<And>n. n \<in> set ns \<Longrightarrow> \<exists>v. ht_lookup (logical_volumes g) n = Some v \<and> lvo_group v = Some (vgo_thing g)"
  shows "take 1 (List.map_filter (path_answered d call) (published_volumes g ns)) =
    (if wait_thing call = Some (vgo_thing g) \<and> (\<exists>n. wait_name call = Some n \<and> n \<in> set ns)
     then [Some (volume_path (vgo_name g) (the (wait_name call)))] else [])"
  using ns
proof (induction ns)
  case (Cons n ns)
  obtain v where v: "ht_lookup (logical_volumes g) n = Some v" "lvo_group v = Some (vgo_thing g)" using Cons.prems [of n] by auto
  have "path_of d (lvo_thing v) = Some (volume_path (vgo_name g) n)" and n: "lvo_name v = n"
    using v g by (auto simp: group_ok_def volume_ok_def bus_ok_def intro!: path_of_places)
  then have one: "path_answered d call (PublishedVolume v) =
      (if wait_name call = Some n \<and> wait_thing call = Some (vgo_thing g) then Some (Some (volume_path (vgo_name g) n)) else None)"
    using call v(2) by auto
  have IH: "take 1 (List.map_filter (path_answered d call) (published_volumes g ns)) =
    (if wait_thing call = Some (vgo_thing g) \<and> (\<exists>n. wait_name call = Some n \<and> n \<in> set ns)
     then [Some (volume_path (vgo_name g) (the (wait_name call)))] else [])"
    by (rule Cons.IH) (simp add: Cons.prems)
  show ?case
  proof (cases "wait_name call = Some n \<and> wait_thing call = Some (vgo_thing g)")
    case True
    with one v(1) show ?thesis by (simp add: map_filter_simps)
  next
    case False
    with one have "path_answered d call (PublishedVolume v) = None" by simp
    then have "List.map_filter (path_answered d call) (published_volumes g (n # ns)) =
        List.map_filter (path_answered d call) (published_volumes g ns)"
      by (simp add: v(1) map_filter_simps)
    with IH False show ?thesis by auto
  qed
qed (simp add: map_filter_simps)

lemma other_things:
  "call_kind call \<notin> {GroupCreated, GroupRenamed} \<Longrightarrow> path_answered d call (PublishedGroup g) = None"
  "call_kind call \<notin> {VolumeCreated, VolumeRenamed, SnapshotCreated} \<Longrightarrow>
   List.map_filter (path_answered d call) (published_volumes g ns) = []"
  by (auto simp: published_volumes_def intro!: map_filter_none)

lemma other_blocks:
  assumes "call_kind call \<noteq> VolumeActivated"
    and "\<And>k b' i. (k, b') \<in> set bs' \<Longrightarrow> iface_logical_volume b' = Some i \<Longrightarrow>
      thing_type (lbi_thing i) = LvmLogicalVolumeBlockSkeleton"
  shows "List.map_filter (path_answered d call) (List.map_filter (instance_of w g) (blocks_signals bs bs')) = []"
proof (rule map_filter_none)
  fix x
  assume "x \<in> set (List.map_filter (instance_of w g) (blocks_signals bs bs'))"
  then obtain sig where sig: "sig \<in> set (blocks_signals bs bs')" "instance_of w g sig = Some x"
    by (auto simp: List.map_filter_def)
  obtain kb kb' where zip: "(kb, kb') \<in> set (zip bs bs')" "sig \<in> set (block_signals (snd kb) (snd kb'))"
    using sig(1) by (auto simp: blocks_signals_def)
  then obtain i where i: "iface_logical_volume (snd kb') = Some i" and "sig = Published (lbi_thing i) (blk_path (snd kb))"
    by (cases "iface_logical_volume (snd kb)"; cases "iface_logical_volume (snd kb')") (auto simp: block_signals_def)
  moreover have "thing_type (lbi_thing i) = LvmLogicalVolumeBlockSkeleton"
    using set_zip_rightD [OF zip(1)] by (intro assms(2) [OF _ i, of "fst kb'"]) simp
  ultimately have "\<exists>j p. x = PublishedBlock j p" using sig(2) by auto
  with assms(1) show "path_answered d call x = None" by auto
qed

text \<open>The answers of an update in three parts: the group, the new volumes, the blocks.\<close>

definition answers_in :: "daemon \<Rightarrow> waiting_call \<Rightarrow> published_thing list \<Rightarrow> string option list" where
  "answers_in d call xs = List.map_filter (path_answered d call) xs"

lemma update_replies:
  assumes w: "world_ok w" and g: "group_ok (the_daemon w) g \<or> group_new (the_daemon w) g"
    and inj: "inj_on escape (ht_keys (logical_volumes g) \<union> set (visible_names (dicts_of info ''lvs'')))"
    and u: "update_with_variant os now (Inr info) w g = Inr (w', g', True)"
    and waiting: "listening (wait_closure call)"
  obtains ns where "set ns = set (visible_names (dicts_of info ''lvs'')) - ht_keys (logical_volumes g)"
    and "\<And>n. n \<in> set ns \<Longrightarrow> \<exists>v. ht_lookup (logical_volumes g') n = Some v \<and> lvo_group v = Some (vgo_thing g')"
    and "replies (wait_closure (hear w' g' (announced (the_daemon w) (the_daemon w')) call)) =
      replies (wait_closure call) @ map path_reply (take 1
        (answers_in (the_daemon w') call (if need_publish g then [PublishedGroup g'] else []) @
         answers_in (the_daemon w') call (published_volumes g' ns) @
         answers_in (the_daemon w') call
           (List.map_filter (instance_of w' g') (blocks_signals (the_blocks w) (the_blocks w')))))"
proof -
  obtain ns where ns: "set ns = set (visible_names (dicts_of info ''lvs'')) - ht_keys (logical_volumes g)"
    and vols: "\<And>n. n \<in> set ns \<Longrightarrow> \<exists>v. ht_lookup (logical_volumes g') n = Some v \<and> lvo_group v = Some (vgo_thing g')"
    and seen: "List.map_filter (instance_of w' g') (announced (the_daemon w) (the_daemon w')) =
      (if need_publish g then [PublishedGroup g'] else []) @ published_volumes g' ns @
      List.map_filter (instance_of w' g') (blocks_signals (the_blocks w) (the_blocks w'))"
    by (rule update_heard [OF w g inj u]) blast
  show thesis
    by (rule that [OF ns vols])
      (simp_all only: hear_def replies_heard [OF waiting] take_map seen answers_in_def map_filter_append)
qed

text \<open>
  C6: When LVM's report of a group takes effect, each caller who waits for an object gets the path of
  what the update made, once: who made or renamed a group when the update publishes that group; who
  made or renamed a volume or a snapshot when the report shows that name for the first time; who
  activated a volume when the first block becomes that volume. Nobody else is answered.
\<close>

theorem update_answers_callers:
  assumes w: "world_ok w" and g: "group_ok (the_daemon w) g \<or> group_new (the_daemon w) g"
    and inj: "inj_on escape (ht_keys (logical_volumes g) \<union> set (visible_names (dicts_of info ''lvs'')))"
    and u: "update_with_variant os now (Inr info) w g = Inr (w', g', True)"
    and waiting: "listening (wait_closure call)"
    and activated: "call_kind call = VolumeActivated \<Longrightarrow>
      \<exists>v. ht_lookup (logical_volumes g') n = Some v \<and> wait_thing call = Some (lvo_thing v)"
  shows "replies (wait_closure (hear w' g' (announced (the_daemon w) (the_daemon w')) call)) =
    replies (wait_closure call) @ map (\<lambda>p. Return [p])
      (if call_kind call \<in> {GroupCreated, GroupRenamed}
       then (if need_publish g \<and> wait_name call = Some (vgo_name g) then [group_path (vgo_name g)] else [])
       else if call_kind call = VolumeActivated
       then take 1 (becoming g' (volume_path (vgo_name g) n) (the_blocks w))
       else if wait_thing call = Some (vgo_thing g) \<and>
         (\<exists>n \<in> set (visible_names (dicts_of info ''lvs'')) - ht_keys (logical_volumes g). wait_name call = Some n)
       then [volume_path (vgo_name g) (the (wait_name call))] else [])"
proof -
  note run = group_update_run [OF w g inj u] and bl = blocks_known [OF w g inj u]
  let ?d = "the_daemon w'"
  let ?blocks = "List.map_filter (instance_of w' g') (blocks_signals (the_blocks w) (the_blocks w'))"
  obtain ns where ns: "set ns = set (visible_names (dicts_of info ''lvs'')) - ht_keys (logical_volumes g)"
    and vols: "\<And>n. n \<in> set ns \<Longrightarrow> \<exists>v. ht_lookup (logical_volumes g') n = Some v \<and> lvo_group v = Some (vgo_thing g')"
    and replies: "replies (wait_closure (hear w' g' (announced (the_daemon w) ?d) call)) =
      replies (wait_closure call) @ map path_reply (take 1
        (answers_in ?d call (if need_publish g then [PublishedGroup g'] else []) @
         answers_in ?d call (published_volumes g' ns) @ answers_in ?d call ?blocks))"
    by (rule update_replies [OF w g inj u waiting]) blast
  have bus: "bus_ok ?d" using run(1) by (simp add: world_ok_def)
  have blocks: "answers_in ?d call ?blocks = []" if "call_kind call \<noteq> VolumeActivated"
    unfolding answers_in_def by (rule other_blocks [OF that]) (use bl(4) in blast)
  consider (group) "call_kind call \<in> {GroupCreated, GroupRenamed}" | (block) "call_kind call = VolumeActivated"
    | (volume) "call_kind call \<in> {VolumeCreated, VolumeRenamed, SnapshotCreated}"
    by (cases "call_kind call") auto
  then show ?thesis
  proof cases
    case group
    have "path_of ?d (vgo_thing g') = Some (group_path (vgo_name g))"
      using run(2,3) bus by (intro path_of_places) (auto simp: group_ok_def bus_ok_def)
    with group blocks other_things(2) [of call ?d g' ns] show ?thesis
      by (auto simp: replies path_reply_def answers_in_def run(3) map_filter_simps)
  next
    case block
    then obtain v where v: "ht_lookup (logical_volumes g') n = Some v" "wait_thing call = Some (lvo_thing v)"
      using activated by blast
    have "path_of ?d (lvo_thing v) = Some (volume_path (vgo_name g) n)"
      using v(1) run(2,3) bus by (intro path_of_places) (auto simp: group_ok_def volume_ok_def bus_ok_def)
    with v have "answers_in ?d call ?blocks = map Some (becoming g' (volume_path (vgo_name g) n) (the_blocks w))"
      unfolding answers_in_def using block bl by (intro answered_blocks) auto
    with block other_things [of call ?d g'] show ?thesis
      by (simp add: replies path_reply_def answers_in_def take_map map_filter_simps)
  next
    case volume
    have "take 1 (answers_in ?d call (published_volumes g' ns)) =
        (if wait_thing call = Some (vgo_thing g') \<and> (\<exists>n. wait_name call = Some n \<and> n \<in> set ns)
         then [Some (volume_path (vgo_name g') (the (wait_name call)))] else [])"
      unfolding answers_in_def by (rule answered_volumes [OF run(2) bus volume vols])
    moreover have "answers_in ?d call (if need_publish g then [PublishedGroup g'] else []) = []"
      using volume other_things(1) [of call ?d g'] by (auto simp: answers_in_def map_filter_simps)
    moreover have "answers_in ?d call ?blocks = []" using volume by (intro blocks) auto
    ultimately have "replies (wait_closure (hear w' g' (announced (the_daemon w) ?d) call)) =
        replies (wait_closure call) @ map path_reply
        (if wait_thing call = Some (vgo_thing g') \<and> (\<exists>n. wait_name call = Some n \<and> n \<in> set ns)
         then [Some (volume_path (vgo_name g') (the (wait_name call)))] else [])"
      by (simp only: replies append_Nil append_Nil2)
    moreover have "call_kind call \<notin> {GroupCreated, GroupRenamed}" "call_kind call \<noteq> VolumeActivated" using volume by auto
    ultimately show ?thesis by (simp only: run(3,11) ns if_False) (auto simp: path_reply_def)
  qed
qed

lemma update_answers_callers_witness:
  "\<exists>w' g'. update_with_variant agreeing_os 0 (Inr demo_report) demo_world demo_group = Inr (w', g', True) \<and>
     replies (wait_closure (hear w' g' (announced (the_daemon demo_world) (the_daemon w'))
       \<lparr>call_kind = VolumeCreated, wait_thing = Some (vgo_thing demo_group), wait_name = Some ''root'',
        wait_closure = closure_new\<rparr>)) = [Return [volume_path ''vg0'' ''root'']]"
proof -
  obtain w' g' where u: "update_with_variant agreeing_os 0 (Inr demo_report) demo_world demo_group = Inr (w', g', True)"
    by (rule demo_update)
  from update_answers_callers [OF demo_hyps u, of "\<lparr>call_kind = VolumeCreated, wait_thing = Some (vgo_thing demo_group),
      wait_name = Some ''root'', wait_closure = closure_new\<rparr>"] u
  show ?thesis by (auto simp: closure_new_def demo_names demo_group_def storage_volume_group_new_def ht_keys_def)
qed

end
