(* ===== verification/Method_Answers.thy ===== *)
theory Method_Answers
  imports Method_Calls
begin

text \<open>
  From a method call to its answer: the handlers each method connects, and what its caller is told
  when the job has run under the daemon, or when the object it waits for appears.
\<close>

section \<open>What the methods connect\<close>

text \<open>
  The handler of \<open>completed\<close> that answers, or the closure of a call that waits for an object.
\<close>

datatype connected = OnJob "bool \<Rightarrow> string \<Rightarrow> reply" | OnObject waiting_call

definition waiting_new :: "waits_for \<Rightarrow> thing option \<Rightarrow> string option \<Rightarrow> waiting_call" where
  "waiting_new kind t name = \<lparr>call_kind = kind, wait_thing = t, wait_name = name, wait_closure = closure_new\<rparr>"

fun vg_connects :: "volume_group \<Rightarrow> vg_request \<Rightarrow> connected" where
  "vg_connects self (VgDelete _) = OnJob on_delete_complete"
| "vg_connects self (VgRename new_name) = OnObject (waiting_new GroupRenamed None (Some new_name))"
| "vg_connects self (VgAddDevice _) = OnJob on_adddev_complete"
| "vg_connects self (VgRemoveDevice _ _) = OnJob on_remdev_complete"
| "vg_connects self (VgEmptyDevice _) = OnJob on_empty_complete"
| "vg_connects self (VgCreatePlain name _) = OnObject (waiting_new VolumeCreated (Some (vgo_thing self)) (Some name))"
| "vg_connects self (VgCreateThinPool name _) = OnObject (waiting_new VolumeCreated (Some (vgo_thing self)) (Some name))"
| "vg_connects self (VgCreateThin name _ _) = OnObject (waiting_new VolumeCreated (Some (vgo_thing self)) (Some name))"

text \<open>The methods of a logical volume; \<open>vg\<close> is the name of its group.\<close>

datatype lv_request =
    LvDelete | LvRename string | LvResize u64 vardict | LvActivate | LvDeactivate | LvCreateSnapshot string u64

fun lv_handle ::
  "(string list \<Rightarrow> gerror + nat) \<Rightarrow> u32 \<Rightarrow> string \<Rightarrow> daemon \<Rightarrow> logical_volume \<Rightarrow> lv_request \<Rightarrow> daemon \<times> handled" where
  "lv_handle spawn uid vg d self LvDelete = lv_handle_delete spawn uid vg d self"
| "lv_handle spawn uid vg d self (LvRename name) = lv_handle_rename spawn uid vg d self name"
| "lv_handle spawn uid vg d self (LvResize sz options) = lv_handle_resize spawn uid vg d self sz options"
| "lv_handle spawn uid vg d self LvActivate = lv_handle_activate spawn uid vg d self"
| "lv_handle spawn uid vg d self LvDeactivate = lv_handle_deactivate spawn uid vg d self"
| "lv_handle spawn uid vg d self (LvCreateSnapshot name sz) = lv_handle_create_snapshot spawn uid vg d self name sz"

fun lv_connects :: "logical_volume \<Rightarrow> lv_request \<Rightarrow> connected" where
  "lv_connects self LvDelete = OnJob on_complete_delete"
| "lv_connects self (LvRename name) = OnObject (waiting_new VolumeRenamed (lvo_group self) (Some name))"
| "lv_connects self (LvResize _ _) = OnJob on_resize_complete"
| "lv_connects self LvActivate = OnObject (waiting_new VolumeActivated (Some (lvo_thing self)) None)"
| "lv_connects self LvDeactivate = OnJob on_deactivate_complete"
| "lv_connects self (LvCreateSnapshot name _) = OnObject (waiting_new SnapshotCreated (lvo_group self) (Some name))"

text \<open>A call of a method of a group, or of a volume in the group of that name.\<close>

datatype method_call = GroupMethod volume_group vg_request | VolumeMethod string logical_volume lv_request

fun handle_method ::
  "os \<Rightarrow> systrace \<Rightarrow> (thing \<Rightarrow> string) \<Rightarrow> (string list \<Rightarrow> gerror + nat) \<Rightarrow> u32 \<Rightarrow> world \<Rightarrow> method_call \<Rightarrow>
   world \<times> handled" where
  "handle_method os tr name_of spawn uid w (GroupMethod g request) = vg_handle os tr name_of spawn uid w g request"
| "handle_method os tr name_of spawn uid w (VolumeMethod vg v request) =
     (let (d, h) = lv_handle spawn uid vg (the_daemon w) v request in (w\<lparr>the_daemon := d\<rparr>, h))"

fun connects :: "method_call \<Rightarrow> connected" where
  "connects (GroupMethod g request) = vg_connects g request"
| "connects (VolumeMethod vg v request) = lv_connects v request"

text \<open>The replies of a handler connected to a job so far.\<close>

definition replies_on_job :: "(bool \<Rightarrow> string \<Rightarrow> reply) \<Rightarrow> daemon \<Rightarrow> thing \<Rightarrow> reply list" where
  "replies_on_job f d t =
     (case find_job d t of None \<Rightarrow> [] | Some j \<Rightarrow> map (\<lambda>(success, message). f success message) (job_completions j))"

text \<open>Each handler that answers on the job says the text of its method before the job's message.\<close>

lemmas job_handlers = on_delete_complete_def on_adddev_complete_def on_remdev_complete_def on_empty_complete_def
  on_complete_delete_def on_resize_complete_def on_deactivate_complete_def

lemmas lv_handlers = lv_handle_delete_def lv_handle_rename_def lv_handle_resize_def lv_handle_activate_def
  lv_handle_deactivate_def lv_handle_create_snapshot_def

lemmas vg_handlers = vg_handle_delete_def vg_handle_rename_def vg_handle_add_device_def vg_handle_remove_device_def
  vg_handle_empty_device_def vg_handle_create_plain_volume_def vg_handle_create_thin_pool_volume_def
  vg_handle_create_thin_volume_def

lemma vg_connects_job:
  assumes "vg_handle os tr name_of spawn uid w g request = (w', AnswersOnJob t text)"
  shows "vg_connects g request = OnJob (on_complete text)"
  using assms
  by (cases request)
    (auto simp: vg_handlers failed_def Let_def on_complete_def job_handlers fun_eq_iff
      split: option.splits prod.splits found.splits)

lemma lv_connects_job:
  assumes "lv_handle spawn uid vg d v request = (d', AnswersOnJob t text)"
  shows "lv_connects v request = OnJob (on_complete text)"
  using assms
  by (cases request) (auto simp: lv_handlers on_complete_def job_handlers fun_eq_iff split: prod.splits)

lemma connects_job:
  "handle_method os tr name_of spawn uid w call = (w', AnswersOnJob t text) \<Longrightarrow> connects call = OnJob (on_complete text)"
  by (cases call) (auto dest: vg_connects_job lv_connects_job split: prod.splits)

text \<open>Nor do the texts of the handlers of the other calls differ from those of their methods.\<close>

fun failure_text :: "waits_for \<Rightarrow> string" where
  "failure_text GroupCreated = ''Error creating volume group: ''"
| "failure_text GroupRenamed = ''Error renaming volume group: ''"
| "failure_text VolumeCreated = ''Error creating logical volume: ''"
| "failure_text VolumeRenamed = ''Error renaming logical volume: ''"
| "failure_text SnapshotCreated = ''Error creating snapshot: ''"
| "failure_text VolumeActivated = ''Error activating logical volume: ''"

lemma connects_object:
  assumes "handle_method os tr name_of spawn uid w call = (w', AnswersOnObject t text)"
  shows "\<exists>kind x n. connects call = OnObject (waiting_new kind x n) \<and> text = failure_text kind"
proof (cases call)
  case (GroupMethod g request)
  with assms show ?thesis
    by (cases request)
      (auto simp: vg_handlers failed_def Let_def split: option.splits prod.splits found.splits intro!: exI failure_text.simps [symmetric])
next
  case (VolumeMethod vg v request)
  with assms show ?thesis
    by (cases request) (auto simp: lv_handlers split: prod.splits intro!: exI failure_text.simps [symmetric])
qed

section \<open>The job of a method\<close>

text \<open>A job that a method launched: a program, or a function that keeps its contract.\<close>

definition launched_by :: "daemon \<Rightarrow> daemon \<Rightarrow> thing \<Rightarrow> bool" where
  "launched_by d d' t \<longleftrightarrow>
     (\<exists>gp spawn obj op uid input argv.
        (d', t) = storage_daemon_launch_spawned_jobv gp spawn d obj op uid False 0 0 input argv) \<or>
     (\<exists>gp obj op uid f. job_function f \<and> (d', t) = storage_daemon_launch_threaded_job gp d obj op uid f False)"

lemma launched_by_command: "launch_command gp spawn d self uid c = (d', t) \<Longrightarrow> launched_by d d' t"
  unfolding launch_command_def launched_by_def by (metis (no_types))

lemma launched_by_for: "launch_for spawn uid w self c = (w', t) \<Longrightarrow> launched_by (the_daemon w) (the_daemon w') t"
  by (auto simp: launch_for_def dest: launched_by_command split: prod.splits)

lemma launched_by_job:
  "job_function f \<Longrightarrow> storage_daemon_launch_threaded_job gp d obj op uid f False = (d', t) \<Longrightarrow> launched_by d d' t"
  unfolding launched_by_def by metis

fun job_of :: "handled \<Rightarrow> thing option" where
  "job_of (Answered _) = None"
| "job_of (AnswersOnJob t _) = Some t"
| "job_of (AnswersOnObject t _) = Some t"

lemma vg_launches:
  assumes "vg_handle os tr name_of spawn uid w g request = (w', h)" and "job_of h = Some t"
  shows "launched_by (the_daemon w) (the_daemon w') t"
proof (cases request)
  case (VgDelete wipe)
  with assms show ?thesis
    by (auto simp: vg_handle_delete_def Let_def split: prod.splits
        intro!: launched_by_job [OF delete_job.job_function_axioms])
next
  case (VgRemoveDevice path wipe)
  with assms show ?thesis
    by (auto simp: vg_handle_remove_device_def failed_def Let_def split: prod.splits option.splits
        intro!: launched_by_job [OF remdev_job.job_function_axioms])
next
  case (VgAddDevice path)
  with assms show ?thesis
    by (auto simp: vg_handle_add_device_def failed_def Let_def split: prod.splits option.splits dest!: launched_by_for)
next
  case (VgEmptyDevice path)
  with assms show ?thesis
    by (auto simp: vg_handle_empty_device_def failed_def Let_def split: prod.splits option.splits dest!: launched_by_command)
next
  case (VgCreateThin name sz pool)
  with assms show ?thesis
    by (auto simp: vg_handle_create_thin_volume_def failed_def Let_def split: prod.splits found.splits dest!: launched_by_for)
qed (use assms in \<open>auto simp: vg_handle_rename_def vg_handle_create_plain_volume_def
      vg_handle_create_thin_pool_volume_def split: prod.splits dest!: launched_by_for\<close>)

lemma lv_launches:
  "lv_handle spawn uid vg d v request = (d', h) \<Longrightarrow> job_of h = Some t \<Longrightarrow> launched_by d d' t"
  by (cases request) (auto simp: lv_handlers split: prod.splits dest!: launched_by_command)

lemma method_launches:
  "handle_method os tr name_of spawn uid w call = (w', h) \<Longrightarrow> job_of h = Some t \<Longrightarrow>
   launched_by (the_daemon w) (the_daemon w') t"
  by (cases call) (auto dest: vg_launches lv_launches split: prod.splits)

text \<open>A launch keeps the invariant of the daemon, which knows the job from then on.\<close>

lemma launched_by_ok:
  assumes "launched_by d d' t" and "daemon_ok c d" and "unat (job_id d) < 2 ^ 31"
  shows "daemon_ok c d'" and "num_clients d' = num_clients d" and "unat (job_id d') = unat (job_id d) + 1"
    and "t \<in> fst ` set (jobs d')"
proof -
  have inc: "unat (job_id d + 1) = unat (job_id d) + 1"
    using assms(3) by (simp add: unat_plus_if_size word_size)
  have sp: "daemon_ok c e \<and> num_clients e = num_clients d \<and> unat (job_id e) = unat (job_id d) + 1 \<and> u \<in> fst ` set (jobs e)"
    if "(e, u) = storage_daemon_launch_spawned_jobv gp spawn d obj op uid False 0 0 input argv" for e u gp spawn obj op uid input argv
    using daemon_ok_launch_spawned [OF assms(2,3), of gp spawn obj op uid False 0 0 input argv]
      launch_frame(1,2) [of gp spawn d obj op uid False 0 0 input argv] that inc
    by (cases "storage_daemon_launch_spawned_jobv gp spawn d obj op uid False 0 0 input argv")
      (auto simp: storage_daemon_launch_spawned_jobv_def export_job_def Let_def)
  have th: "daemon_ok c e \<and> num_clients e = num_clients d \<and> unat (job_id e) = unat (job_id d) + 1 \<and> u \<in> fst ` set (jobs e)"
    if "job_function f" "(e, u) = storage_daemon_launch_threaded_job gp d obj op uid f False" for e u gp obj op uid f
    using daemon_ok_launch_threaded [OF assms(2,3) that(1), of gp obj op uid False]
      launch_frame(3,4) [of gp d obj op uid f False] that(2) inc
    by (cases "storage_daemon_launch_threaded_job gp d obj op uid f False")
      (auto simp: storage_daemon_launch_threaded_job_def export_job_def Let_def)
  have "daemon_ok c d' \<and> num_clients d' = num_clients d \<and> unat (job_id d') = unat (job_id d) + 1 \<and> t \<in> fst ` set (jobs d')"
    using assms(1) sp th unfolding launched_by_def by blast
  then show "daemon_ok c d'" "num_clients d' = num_clients d" "unat (job_id d') = unat (job_id d) + 1"
    "t \<in> fst ` set (jobs d')" by blast+
qed

lemma daemon_step_jobs: "daemon_step gp d e = Inr d' \<Longrightarrow> \<exists>ts. map fst (jobs d') = map fst (jobs d) @ ts"
  by (cases e)
    (auto simp: on_name_acquired_def on_name_lost_def maybe_finished_def on_client_appeared_def on_client_disappeared_def
      on_manager_ready_def storage_daemon_launch_spawned_jobv_def storage_daemon_launch_threaded_job_def export_job_def
      on_job_event_def on_job_completed_def publish_def ebind_Inr Let_def split: if_splits option.splits)

lemma daemon_run_jobs: "run_steps (daemon_step gp) d es = Inr d' \<Longrightarrow> \<exists>ts. map fst (jobs d') = map fst (jobs d) @ ts"
proof (induction es arbitrary: d)
  case (Cons e es)
  then obtain d1 where 1: "daemon_step gp d e = Inr d1" "run_steps (daemon_step gp) d1 es = Inr d'" by (auto split: sum.splits)
  from daemon_step_jobs [OF 1(1)] Cons.IH [OF 1(2)] show ?case by fastforce
qed simp

section \<open>A call that waits for an object, as a machine\<close>

text \<open>What can happen to it: the daemon publishes something, or its job ends.\<close>

datatype call_event = CallHears daemon published_thing | CallJobEnds bool string

fun call_step :: "waiting_call \<Rightarrow> call_event \<Rightarrow> abort + waiting_call" where
  "call_step call (CallHears d x) = Inr (on_published d x call)"
| "call_step call (CallJobEnds success message) = on_job_of_call call success message"

text \<open>
  The reference: the first event that matters gives the answer, where the job has one end; \<open>ended\<close>
  says that it has been.
\<close>

fun first_answer :: "waiting_call \<Rightarrow> bool \<Rightarrow> call_event list \<Rightarrow> reply list" where
  "first_answer call ended [] = []"
| "first_answer call ended (CallHears d x # es) =
     (case path_answered d call x of Some p \<Rightarrow> [path_reply p] | None \<Rightarrow> first_answer call ended es)"
| "first_answer call ended (CallJobEnds success message # es) =
     (if ended \<or> success then first_answer call True es
      else [ReturnError (udisks_error UDISKS_ERROR_FAILED (failure_text (call_kind call) @ message))])"

text \<open>The error path of a call that was answered before its job failed: the closure is gone.\<close>

fun fails_late :: "waiting_call \<Rightarrow> bool \<Rightarrow> bool \<Rightarrow> call_event list \<Rightarrow> bool" where
  "fails_late call answered ended [] = False"
| "fails_late call answered ended (CallHears d x # es) =
     fails_late call (answered \<or> path_answered d call x \<noteq> None) ended es"
| "fails_late call answered ended (CallJobEnds success message # es) =
     (if ended then fails_late call answered True es
      else \<not> success \<and> answered \<or> (success \<and> fails_late call answered True es))"

lemmas call_handlers = mgr_on_create_complete_def vg_on_create_complete_def vg_on_rename_complete_def
  lv_on_rename_complete_def on_snapshot_complete_def on_activate_complete_def

lemma on_job_of_call_eq:
  "on_job_of_call call success message =
     (if job_done (wait_closure call) then Inr call
      else fail_call (failure_text (call_kind call)) call success message)"
  by (cases "call_kind call") (simp_all add: on_job_of_call_def call_handlers)


lemma never_late: "\<not> fails_late call answered True es"
proof (induction es arbitrary: answered)
  case (Cons e es)
  then show ?case by (cases e) simp_all
qed simp

lemma late_run:
  assumes "\<not> listening (wait_closure call)" and "\<forall>d x. path_answered d orig x = path_answered d call x"
  shows "case run_steps call_step call es of
      Inl a \<Rightarrow> a = UseAfterFree ''complete->invocation'' \<and> fails_late orig True (job_done (wait_closure call)) es
    | Inr c \<Rightarrow> replies (wait_closure c) = replies (wait_closure call) \<and>
        \<not> fails_late orig True (job_done (wait_closure call)) es"
  using assms
proof (induction es arbitrary: call)
  case (Cons e es)
  show ?case
  proof (cases e)
    case (CallHears d x)
    with Cons.prems Cons.IH [OF Cons.prems] show ?thesis by (auto simp: on_published_eq split: sum.splits)
  next
    case (CallJobEnds success m)
    let ?c = "call\<lparr>wait_closure := wait_closure call\<lparr>job_done := True\<rparr>\<rparr>"
    have "case run_steps call_step ?c es of
        Inl a \<Rightarrow> a = UseAfterFree ''complete->invocation'' \<and> fails_late orig True True es
      | Inr c \<Rightarrow> replies (wait_closure c) = replies (wait_closure call) \<and> \<not> fails_late orig True True es"
      using Cons.IH [of ?c] Cons.prems by (auto split: sum.splits)
    moreover have "case run_steps call_step call es of
        Inl a \<Rightarrow> a = UseAfterFree ''complete->invocation'' \<and> fails_late orig True (job_done (wait_closure call)) es
      | Inr c \<Rightarrow> replies (wait_closure c) = replies (wait_closure call) \<and>
          \<not> fails_late orig True (job_done (wait_closure call)) es"
      by (rule Cons.IH [OF Cons.prems])
    ultimately show ?thesis
      using CallJobEnds Cons.prems
      by (auto simp: on_job_of_call_eq fail_call_def on_closure_complete_def Let_def split: sum.splits)
  qed
qed simp

lemma waiting_run:
  assumes "listening (wait_closure call)" and "replies (wait_closure call) = []"
    and "\<forall>d x. path_answered d orig x = path_answered d call x" and "call_kind call = call_kind orig"
  shows "case run_steps call_step call es of
      Inl a \<Rightarrow> a = UseAfterFree ''complete->invocation'' \<and> fails_late orig False (job_done (wait_closure call)) es
    | Inr c \<Rightarrow> replies (wait_closure c) = first_answer orig (job_done (wait_closure call)) es \<and>
        \<not> fails_late orig False (job_done (wait_closure call)) es"
  using assms
proof (induction es arbitrary: call)
  case (Cons e es)
  show ?case
  proof (cases e)
    case (CallHears d x)
    show ?thesis
    proof (cases "path_answered d call x")
      case None
      with CallHears Cons.prems Cons.IH [OF Cons.prems] show ?thesis by (auto simp: on_published_eq split: sum.splits)
    next
      case (Some p)
      let ?c = "answer_path call p"
      have "\<not> listening (wait_closure ?c)" "\<forall>d x. path_answered d orig x = path_answered d ?c x"
        and c: "job_done (wait_closure ?c) = job_done (wait_closure call)" "replies (wait_closure ?c) = [path_reply p]"
        using Cons.prems by (simp_all add: answer_path_def on_closure_published_def path_reply_def)
      from late_run [OF this(1,2), of es] CallHears Some Cons.prems c show ?thesis
        by (auto simp: on_published_eq split: sum.splits)
    qed
  next
    case (CallJobEnds success m)
    show ?thesis
    proof (cases "job_done (wait_closure call)")
      case True
      with CallJobEnds Cons.IH [OF Cons.prems] show ?thesis by (auto simp: on_job_of_call_eq split: sum.splits)
    next
      case False
      show ?thesis
      proof (cases success)
        case True
        let ?c = "call\<lparr>wait_closure := wait_closure call\<lparr>job_done := True\<rparr>\<rparr>"
        have "case run_steps call_step ?c es of
            Inl a \<Rightarrow> a = UseAfterFree ''complete->invocation'' \<and> fails_late orig False True es
          | Inr c \<Rightarrow> replies (wait_closure c) = first_answer orig True es \<and> \<not> fails_late orig False True es"
          using Cons.IH [of ?c] Cons.prems by (auto split: sum.splits)
        with CallJobEnds False True show ?thesis
          by (auto simp: on_job_of_call_eq fail_call_def on_closure_complete_def split: sum.splits)
      next
        case fails: False
        let ?c = "call\<lparr>wait_closure := wait_closure call\<lparr>job_done := True, listening := False,
          replies := [ReturnError (udisks_error UDISKS_ERROR_FAILED (failure_text (call_kind orig) @ m))]\<rparr>\<rparr>"
        have 1: "on_job_of_call call success m = Inr ?c"
          using fails False Cons.prems by (simp add: on_job_of_call_eq fail_call_def on_closure_complete_def Let_def)
        with late_run [of ?c orig es] CallJobEnds fails False never_late [of orig True es] Cons.prems show ?thesis
          by (auto split: sum.splits)
      qed
    qed
  qed
qed simp

section \<open>Properties\<close>

text \<open>
  A call that waits for an object is answered by the first event that matters, whatever else is
  published and in whatever order: the path of the first object it waits for, or the error of its
  job when the job fails first; and by nothing else. The order that the code does not survive is
  exactly that of an object that appears before the job fails.
\<close>

theorem waiting_call_outcome:
  "case run_steps call_step (waiting_new kind t name) es of
     Inl a \<Rightarrow> a = UseAfterFree ''complete->invocation'' \<and> fails_late (waiting_new kind t name) False False es
   | Inr c \<Rightarrow> replies (wait_closure c) = first_answer (waiting_new kind t name) False es \<and>
       \<not> fails_late (waiting_new kind t name) False False es"
  using waiting_run [of "waiting_new kind t name" "waiting_new kind t name" es]
  by (auto simp: waiting_new_def closure_new_def split: sum.splits)

text \<open>
  C14: A method that answers when its job ends gives its caller at most one answer, in every run of the
  daemon before and afterwards that keeps within the number of jobs, whose clients leave after they
  came and whose job functions keep their contract: none while the job has not completed, and then either
  success, or the error of the method followed by the message of the job. Jobs may be cancelled; only
  the cancellation of a spawned job can end the run, by stopping the program.
\<close>

theorem method_answers_verdict:
  assumes before: "run_steps (daemon_step gp) (storage_daemon_init per dir) es = Inr (the_daemon w)"
    and call: "handle_method os tr name_of spawn uid w call = (w', AnswersOnJob t text)"
    and clients: "clients_balanced 0 (es @ es')" and launches: "length (filter launch (es @ es')) < 2 ^ 31"
    and kept: "\<forall>e \<in> set (es @ es'). contract_kept e"
  shows "\<exists>f. connects call = OnJob f \<and>
    (case run_steps (daemon_step gp') (the_daemon w') es' of
       Inl x \<Rightarrow> \<exists>e \<in> set (es @ es'). cancels e
     | Inr d \<Rightarrow> \<exists>j. find_job d t = Some j \<and>
         (job_completions j = [] \<and> replies_on_job f d t = [] \<or>
          (\<exists>m. job_completions j = [(True, m)] \<and> replies_on_job f d t = [Return []]) \<or>
          (\<exists>m. job_completions j = [(False, m)] \<and>
             replies_on_job f d t = [ReturnError (udisks_error UDISKS_ERROR_FAILED (text @ m))])))"
proof -
  define c where "c \<longleftrightarrow> (\<exists>e \<in> set (es @ es'). cancels e)"
  let ?init = "storage_daemon_init per dir" and ?launch = "LaunchSpawned (\<lambda>_. Inr 0) None [] 0 None []"
  have init: "num_clients ?init = of_nat 0" "unat (job_id ?init) + length (filter launch (es @ ?launch # es')) \<le> 2 ^ 31"
    using launches by (simp_all add: storage_daemon_init_def)
  have "clients_balanced n (es @ es') \<Longrightarrow> clients_balanced n (es @ ?launch # es')" for n
    by (induction n es rule: clients_balanced.induct) simp_all
  then have bal: "clients_balanced 0 (es @ ?launch # es')" using clients by blast
  have "case run_steps (daemon_step gp) ?init es of
      Inl x \<Rightarrow> c
    | Inr s \<Rightarrow> daemon_ok c s \<and> (\<exists>m < 2 ^ 32. num_clients s = of_nat m \<and> clients_balanced m (?launch # es')) \<and>
        unat (job_id s) + length (filter launch (?launch # es')) \<le> 2 ^ 31"
    by (rule daemon_run_before [OF daemon_ok_init init(1) _ init(2) _ bal]) (use kept in \<open>auto simp: c_def\<close>)
  then obtain n where d: "daemon_ok c (the_daemon w)" "unat (job_id (the_daemon w)) + 1 + length (filter launch es') \<le> 2 ^ 31"
    and n: "n < 2 ^ 32" "num_clients (the_daemon w) = of_nat n" "clients_balanced n es'"
    using before by auto
  have "launched_by (the_daemon w) (the_daemon w') t" using method_launches [OF call] by simp
  from launched_by_ok [OF this d(1)] d(2)
  have d': "daemon_ok c (the_daemon w')" "num_clients (the_daemon w') = of_nat n"
    "unat (job_id (the_daemon w')) + length (filter launch es') \<le> 2 ^ 31" and t: "t \<in> fst ` set (jobs (the_daemon w'))"
    using n(2) by simp_all
  have after: "case run_steps (daemon_step gp') (the_daemon w') es' of Inl x \<Rightarrow> c | Inr s \<Rightarrow> daemon_ok c s"
    by (rule daemon_run_ok [OF d'(1,2) n(1) d'(3) _ n(3)]) (use kept in \<open>auto simp: c_def\<close>)
  show ?thesis
  proof (cases "run_steps (daemon_step gp') (the_daemon w') es'")
    case (Inl x)
    with after connects_job [OF call] show ?thesis by (auto simp: c_def)
  next
    case (Inr d)
    then have run: "run_steps (daemon_step gp') (the_daemon w') es' = Inr d" and ok: "daemon_ok c d"
      using after by simp_all
    obtain ts where "map fst (jobs d) = map fst (jobs (the_daemon w')) @ ts" using daemon_run_jobs [OF run] by blast
    then have "t \<in> set (map fst (jobs d))" using t by simp
    then obtain j where tj: "(t, j) \<in> set (jobs d)" by auto
    then have j: "find_job d t = Some j" using daemon_ok_wf(2) [OF ok] by (simp add: find_job_def)
    have "length (job_completions j) \<le> 1" using daemon_ok_jobs(1) [OF ok tj] good_completions by simp
    then consider "job_completions j = []" | success m where "job_completions j = [(success, m)]"
      by (cases "job_completions j") auto
    then have "job_completions j = [] \<and> replies_on_job (on_complete text) d t = [] \<or>
       (\<exists>m. job_completions j = [(True, m)] \<and> replies_on_job (on_complete text) d t = [Return []]) \<or>
       (\<exists>m. job_completions j = [(False, m)] \<and>
          replies_on_job (on_complete text) d t = [ReturnError (udisks_error UDISKS_ERROR_FAILED (text @ m))])"
      by cases (auto simp: replies_on_job_def j on_complete_def)
    with connects_job [OF call] run j show ?thesis by auto
  qed
qed

text \<open>A group is deleted, the thread runs and the main loop completes the job.\<close>

definition quiet_world :: world where
  "quiet_world = \<lparr>the_daemon = storage_daemon_init True None, the_blocks = [], the_calls = []\<rparr>"

abbreviation (input) demo_delete :: method_call where
  "demo_delete \<equiv> GroupMethod demo_group (VgDelete False)"

lemma method_answers_verdict_witness:
  "\<exists>f d w'. handle_method agreeing_os [] (\<lambda>_. []) (\<lambda>_. Inr 7) 0 quiet_world demo_delete =
       (w', AnswersOnJob (Thing 0 StorageThreadedJob) ''Error deleting volume group: '') \<and>
     connects demo_delete = OnJob f \<and>
     run_steps (daemon_step (\<lambda>_. None)) (the_daemon w')
       [JobEvent (Thing 0 StorageThreadedJob) (ThreadedEvent ThreadRuns),
        JobEvent (Thing 0 StorageThreadedJob) (ThreadedEvent IdleRuns)] = Inr d \<and>
     length (replies_on_job f d (Thing 0 StorageThreadedJob)) \<le> 1"
proof -
  let ?es = "[JobEvent (Thing 0 StorageThreadedJob) (ThreadedEvent ThreadRuns),
        JobEvent (Thing 0 StorageThreadedJob) (ThreadedEvent IdleRuns)]"
  have before: "run_steps (daemon_step (\<lambda>_. None)) (storage_daemon_init True None) [] = Inr (the_daemon quiet_world)"
    by (simp add: quiet_world_def)
  obtain w' where call: "handle_method agreeing_os [] (\<lambda>_. []) (\<lambda>_. Inr 7) 0 quiet_world demo_delete =
      (w', AnswersOnJob (Thing 0 StorageThreadedJob) ''Error deleting volume group: '')"
    by (simp add: vg_handle_delete_def storage_daemon_launch_threaded_job_def quiet_world_def storage_daemon_init_def Let_def)
  have "\<forall>e \<in> set ([] @ ?es). contract_kept e" and no: "\<not> (\<exists>e \<in> set ([] @ ?es). cancels e)"
    by (simp_all add: cancels_job_def)
  from method_answers_verdict [OF before call _ _ this(1), of "\<lambda>_. None"] obtain f where
    f: "connects demo_delete = OnJob f"
    and run: "case run_steps (daemon_step (\<lambda>_. None)) (the_daemon w') ?es of
       Inl x \<Rightarrow> \<exists>e \<in> set ([] @ ?es). cancels e
     | Inr d \<Rightarrow> \<exists>j. find_job d (Thing 0 StorageThreadedJob) = Some j \<and>
         (job_completions j = [] \<and> replies_on_job f d (Thing 0 StorageThreadedJob) = [] \<or>
          (\<exists>m. job_completions j = [(True, m)] \<and> replies_on_job f d (Thing 0 StorageThreadedJob) = [Return []]) \<or>
          (\<exists>m. job_completions j = [(False, m)] \<and> replies_on_job f d (Thing 0 StorageThreadedJob) =
             [ReturnError (udisks_error UDISKS_ERROR_FAILED (''Error deleting volume group: '' @ m))]))"
    by (auto simp del: connects.simps)
  then obtain d where "run_steps (daemon_step (\<lambda>_. None)) (the_daemon w') ?es = Inr d"
    "length (replies_on_job f d (Thing 0 StorageThreadedJob)) \<le> 1"
    using no by (auto simp del: connects.simps run_steps.simps split: sum.splits)
  with call f show ?thesis by blast
qed

end
