(* ===== verification/Service_Run.thy ===== *)
theory Service_Run
  imports Manager_Groups Method_Answers
begin

text \<open>
  The manager and a caller who waits for an object, run together: what the signals of the manager's
  events say about its table, and that the caller is answered by the first state of the table that
  has the object.
\<close>

section \<open>What the table says and what the signals say\<close>

text \<open>An object of a group in the table: its instance, that of the group, and its path.\<close>

definition entry :: "string \<Rightarrow> volume_group \<Rightarrow> thing \<Rightarrow> thing \<Rightarrow> string \<Rightarrow> bool" where
  "entry k g t grp p \<longleftrightarrow>
     \<not> need_publish g \<and> grp = vgo_thing g \<and>
     (t = grp \<and> p = group_path k \<or>
      (\<exists>n v. ht_lookup (logical_volumes g) n = Some v \<and> t = lvo_thing v \<and> p = volume_path k n))"

definition listed :: "volume_group htab \<Rightarrow> thing \<Rightarrow> thing \<Rightarrow> string \<Rightarrow> bool" where
  "listed gs t grp p \<longleftrightarrow> (\<exists>(k, g) \<in> set gs. entry k g t grp p)"

text \<open>An object as the handlers of callers read it: a volume names its group.\<close>

definition readable :: "string \<Rightarrow> volume_group \<Rightarrow> thing \<Rightarrow> string \<Rightarrow> bool" where
  "readable k g t p \<longleftrightarrow>
     \<not> need_publish g \<and>
     (t = vgo_thing g \<and> p = group_path k \<or>
      (\<exists>n v. ht_lookup (logical_volumes g) n = Some v \<and> t = lvo_thing v \<and> p = volume_path k n \<and>
         lvo_group v = Some (vgo_thing g)))"

definition told :: "volume_group htab \<Rightarrow> thing \<Rightarrow> string \<Rightarrow> bool" where
  "told gs t p \<longleftrightarrow> (\<exists>(k, g) \<in> set gs. readable k g t p)"

text \<open>The signals of a step tell of each object that is new in the table, and of nothing else.\<close>

definition speaks :: "daemon \<Rightarrow> volume_group htab \<Rightarrow> daemon \<Rightarrow> volume_group htab \<Rightarrow> bool" where
  "speaks d gs d' gs' \<longleftrightarrow>
     (\<exists>news. emitted d' = emitted d @ news \<and>
        (\<forall>t grp p. listed gs' t grp p \<longrightarrow> listed gs t grp p \<or> Published t p \<in> set news) \<and>
        (\<forall>t p. lvm_type (thing_type t) \<and> Published t p \<in> set news \<longrightarrow> told gs' t p))"

lemma listed_mono: "set gs \<subseteq> set gs' \<Longrightarrow> listed gs t grp p \<Longrightarrow> listed gs' t grp p"
  by (fastforce simp: listed_def)

lemma speaks_quiet:
  assumes "quiet d d'" and "\<And>t grp p. listed gs' t grp p \<Longrightarrow> listed gs t grp p"
  shows "speaks d gs d' gs'"
proof -
  obtain news where "emitted d' = emitted d @ news" "\<forall>t p. Published t p \<in> set news \<longrightarrow> \<not> lvm_type (thing_type t)"
    using assms(1) by (auto simp: quiet_def)
  then show ?thesis unfolding speaks_def using assms(2) by blast
qed

lemma speaks_refl [simp]: "speaks d gs d gs"
  by (simp add: speaks_quiet quiet_same)

lemma speaks_after_quiet:
  assumes "quiet d e" and "\<And>t grp p. listed fs t grp p \<Longrightarrow> listed gs t grp p" and "speaks e fs d' gs'"
  shows "speaks d gs d' gs'"
proof -
  obtain a where a: "emitted e = emitted d @ a" "\<forall>t p. Published t p \<in> set a \<longrightarrow> \<not> lvm_type (thing_type t)"
    using assms(1) by (auto simp: quiet_def)
  obtain b where b: "emitted d' = emitted e @ b"
      "\<forall>t grp p. listed gs' t grp p \<longrightarrow> listed fs t grp p \<or> Published t p \<in> set b"
      "\<forall>t p. lvm_type (thing_type t) \<and> Published t p \<in> set b \<longrightarrow> told gs' t p"
    using assms(3) by (auto simp: speaks_def)
  have "emitted d' = emitted d @ (a @ b)" using a(1) b(1) by simp
  moreover have "listed gs t grp p \<or> Published t p \<in> set (a @ b)" if "listed gs' t grp p" for t grp p
    using b(2) that assms(2) by (simp, blast)
  moreover have "told gs' t p" if "lvm_type (thing_type t)" "Published t p \<in> set (a @ b)" for t p
    using a(2) b(3) that by (simp, blast)
  ultimately show ?thesis unfolding speaks_def by blast
qed

lemma speaks_trans:
  assumes "speaks d gs e fs" and "speaks e fs d' gs'" and "\<And>t p. told fs t p \<Longrightarrow> told gs' t p"
  shows "speaks d gs d' gs'"
proof -
  obtain a where a: "emitted e = emitted d @ a"
      "\<forall>t grp p. listed fs t grp p \<longrightarrow> listed gs t grp p \<or> Published t p \<in> set a"
      "\<forall>t p. lvm_type (thing_type t) \<and> Published t p \<in> set a \<longrightarrow> told fs t p"
    using assms(1) by (auto simp: speaks_def)
  obtain b where b: "emitted d' = emitted e @ b"
      "\<forall>t grp p. listed gs' t grp p \<longrightarrow> listed fs t grp p \<or> Published t p \<in> set b"
      "\<forall>t p. lvm_type (thing_type t) \<and> Published t p \<in> set b \<longrightarrow> told gs' t p"
    using assms(2) by (auto simp: speaks_def)
  have "emitted d' = emitted d @ (a @ b)" using a(1) b(1) by simp
  moreover have "listed gs t grp p \<or> Published t p \<in> set (a @ b)" if "listed gs' t grp p" for t grp p
    using a(2) b(2) that by (simp, blast)
  moreover have "told gs' t p" if "lvm_type (thing_type t)" "Published t p \<in> set (a @ b)" for t p
    using a(3) b(3) that assms(3) by (simp, blast)
  ultimately show ?thesis unfolding speaks_def by blast
qed

section \<open>The events of the manager\<close>

subsection \<open>Groups that leave the table\<close>

lemma dispose_volume_emitted: "emitted (fst (storage_logical_volume_dispose d v)) = emitted d"
  by (simp add: storage_logical_volume_dispose_def Let_def split: option.split)

lemma dispose_quiet:
  assumes "storage_volume_group_dispose w g = Inr (w', g')"
  shows "quiet (the_daemon w) (the_daemon w')"
proof -
  let ?d = "fold (\<lambda>(_, v) d. fst (storage_logical_volume_dispose d v)) (logical_volumes g) (the_daemon w)"
  have "emitted ?d = emitted (the_daemon w)"
    by (intro announces_fold) (simp add: dispose_volume_emitted split: prod.split)
  moreover obtain w1 where "update_all_blocks (g\<lparr>need_publish := False, logical_volumes := [], physical_volumes := [],
      last_info := None\<rparr>) (w\<lparr>the_daemon := ?d\<rparr>) = Inr w1" and "emitted (the_daemon w') = emitted (the_daemon w1)"
    using assms by (auto simp: storage_volume_group_dispose_def Let_def ebind_Inr split: option.splits)
  ultimately show ?thesis using quiet_blocks by (fastforce simp: quiet_def)
qed

lemma remove_obsolete_quiet:
  "remove_obsolete_groups names w gs = Inr (w', gs', dropped) \<Longrightarrow>
   quiet (the_daemon w) (the_daemon w') \<and> set gs' \<subseteq> set gs"
proof (induction gs arbitrary: w gs' dropped)
  case (Cons kg gs)
  obtain k g where kg: "kg = (k, g)" by (cases kg)
  show ?case
  proof (cases "k \<in> names")
    case True
    then obtain gs2 where "remove_obsolete_groups names w gs = Inr (w', gs2, dropped)" "gs' = (k, g) # gs2"
      using Cons.prems by (auto simp: kg ebind_Inr)
    with Cons.IH show ?thesis by (auto simp: kg)
  next
    case False
    then obtain w1 g1 dr where d: "storage_volume_group_dispose w g = Inr (w1, g1)"
      and r: "remove_obsolete_groups names w1 gs = Inr (w', gs', dr)"
      using Cons.prems by (auto simp: kg ebind_Inr)
    from Cons.IH [OF r] dispose_quiet [OF d] show ?thesis by (auto intro: quiet_trans)
  qed
qed (simp add: quiet_same)

subsection \<open>The answer about a group\<close>

text \<open>An entry of the table takes a new state of its group.\<close>

lemma speaks_update:
  assumes wf: "distinct (map fst gs)" and k: "(k, g) \<in> set gs"
    and e: "emitted d' = emitted d @ news"
    and lists: "\<And>t grp p. entry k g' t grp p \<Longrightarrow> entry k g t grp p \<or> Published t p \<in> set news"
    and tells: "\<And>t p. lvm_type (thing_type t) \<Longrightarrow> Published t p \<in> set news \<Longrightarrow> readable k g' t p"
  shows "speaks d gs d' (ht_insert gs k g')"
proof -
  have mem: "(j, h) \<in> set (ht_insert gs k g') \<longleftrightarrow> (if j = k then h = g' else (j, h) \<in> set gs)" for j h
    by (rule in_ht_insert [OF wf])
  have "listed gs t grp p \<or> Published t p \<in> set news" if l: "listed (ht_insert gs k g') t grp p" for t grp p
  proof -
    obtain j h where "(j, h) \<in> set (ht_insert gs k g')" "entry j h t grp p" using l by (auto simp: listed_def)
    then show ?thesis using lists [of t grp p] k by (auto simp: mem listed_def split: if_splits)
  qed
  moreover have "told (ht_insert gs k g') t p" if "readable k g' t p" for t p
    using that by (auto simp: told_def mem)
  ultimately show ?thesis unfolding speaks_def using e tells by blast
qed

lemma told_update:
  assumes wf: "distinct (map fst gs)" and k: "(k, g) \<in> set gs"
    and reads: "\<And>t p. readable k g t p \<Longrightarrow> readable k g' t p" and "told gs t p"
  shows "told (ht_insert gs k g') t p"
proof -
  obtain j h where h: "(j, h) \<in> set gs" "readable j h t p" using assms(4) by (auto simp: told_def)
  show ?thesis
  proof (cases "j = k")
    case True
    then have "h = g" using eq_key_imp_eq_value [OF wf k] h(1) by simp
    with h(2) True reads have "readable k g' t p" by simp
    then show ?thesis by (auto simp: told_def in_ht_insert [OF wf])
  next
    case False
    with h show ?thesis by (auto simp: told_def in_ht_insert [OF wf])
  qed
qed

lemma published_speaks:
  assumes wf: "distinct (map fst gs)" and k: "(k, g) \<in> set gs" "vgo_name g = k"
    and new: "need_publish g \<Longrightarrow> logical_volumes g = []" and ty: "thing_type (vgo_thing g) = StorageVolumeGroup"
    and p: "published_group w h = (w', h')"
    and h: "vgo_thing h = vgo_thing g" "vgo_name h = k" "need_publish h = need_publish g"
      "logical_volumes h = logical_volumes g"
  shows "speaks (the_daemon w) gs (the_daemon w') (ht_insert gs k h')"
    and "told gs t q \<Longrightarrow> told (ht_insert gs k h') t q"
proof -
  have h': "vgo_thing h' = vgo_thing g" "\<not> need_publish h'" "logical_volumes h' = logical_volumes g"
    using p h by (auto simp: published_group_def split: if_splits)
  have dbus: "is_dbus_interface (vgo_thing g)" by (simp add: is_dbus_interface_def ty)
  have e: "emitted (the_daemon w') = emitted (the_daemon w) @
      (if need_publish g then [Published (vgo_thing g) (group_path k)] else [])"
    using p h emitted_publish [OF dbus] by (auto simp: published_group_def split: if_splits)
  show "speaks (the_daemon w) gs (the_daemon w') (ht_insert gs k h')"
    by (rule speaks_update [OF wf k(1) e])
      (use new in \<open>auto simp: entry_def readable_def h' ht_lookup_def split: if_splits\<close>)
  show "told gs t q \<Longrightarrow> told (ht_insert gs k h') t q"
    by (rule told_update [OF wf k(1)]) (auto simp: readable_def h' h)
qed

text \<open>The group of a signal that an update announces: nothing a block gets is a group or a volume.\<close>

lemma blocks_signals_type:
  assumes "\<And>k b' i. (k, b') \<in> set bs' \<Longrightarrow> iface_logical_volume b' = Some i \<Longrightarrow>
      thing_type (lbi_thing i) = LvmLogicalVolumeBlockSkeleton"
    and "Published t p \<in> set (blocks_signals bs bs')"
  shows "\<not> lvm_type (thing_type t)"
proof -
  obtain kb kb' where zip: "(kb, kb') \<in> set (zip bs bs')" "Published t p \<in> set (block_signals (snd kb) (snd kb'))"
    using assms(2) by (auto simp: blocks_signals_def)
  then obtain i where i: "iface_logical_volume (snd kb') = Some i" "t = lbi_thing i"
    by (cases "iface_logical_volume (snd kb)"; cases "iface_logical_volume (snd kb')") (auto simp: block_signals_def)
  have "thing_type (lbi_thing i) = LvmLogicalVolumeBlockSkeleton"
    using set_zip_rightD [OF zip(1)] by (intro assms(1) [OF _ i(1), of "fst kb'"]) simp
  with i(2) show ?thesis by (simp add: lvm_type_def)
qed

lemma update_speaks:
  assumes wf: "distinct (map fst gs)" and k: "(k, g) \<in> set gs" "vgo_name g = k"
    and w: "world_ok w" and g: "group_ok (the_daemon w) g \<or> group_new (the_daemon w) g"
    and inj: "inj_on escape (ht_keys (logical_volumes g) \<union> set (visible_names (dicts_of info ''lvs'')))"
    and u: "update_with_variant os now (Inr info) w g = Inr (w', g', True)"
  shows "speaks (the_daemon w) gs (the_daemon w') (ht_insert gs k g')"
proof -
  note run = group_update_run [OF w g inj u]
  let ?grp = "if need_publish g then [Published (vgo_thing g) (group_path (vgo_name g))] else []"
  let ?blocks = "blocks_signals (the_blocks w) (the_blocks w')"
  obtain ns where ann: "announces (the_daemon w) (?grp @ volume_signals (vgo_name g) ns @ ?blocks) (the_daemon w')"
    and keys: "fst ` set ns = set (visible_names (dicts_of info ''lvs'')) - ht_keys (logical_volumes g)"
    and vols: "\<And>n t. (n, t) \<in> set ns \<Longrightarrow> \<exists>v. ht_lookup (logical_volumes g') n = Some v \<and> lvo_thing v = t \<and>
        lvo_group v = Some (vgo_thing g)"
    by (rule update_announces [OF w g inj u]) blast
  obtain news where e: "emitted (the_daemon w') = emitted (the_daemon w) @ news"
    and news: "filter heard news = ?grp @ volume_signals (vgo_name g) ns @ ?blocks"
    using ann unfolding announces_def by blast
  have in_news: "sig \<in> set news" if "sig \<in> set (filter heard news)" for sig using that by simp
  have g': "\<not> need_publish g'" "vgo_thing g' = vgo_thing g" using run(2,11) by (simp_all add: group_ok_def)
  show ?thesis
  proof (rule speaks_update [OF wf k(1) e])
    fix t grp p
    assume "entry k g' t grp p"
    then consider (group) "t = vgo_thing g" "grp = vgo_thing g" "p = group_path k"
      | (volume) n v where "ht_lookup (logical_volumes g') n = Some v" "t = lvo_thing v" "grp = vgo_thing g"
          "p = volume_path k n"
      using g' by (auto simp: entry_def)
    then show "entry k g t grp p \<or> Published t p \<in> set news"
    proof cases
      case group
      then have "Published t p \<in> set (filter heard news)" if "need_publish g" using that k(2) by (simp add: news)
      with group in_news show ?thesis by (auto simp: entry_def)
    next
      case (volume n v)
      show ?thesis
      proof (cases "ht_lookup (logical_volumes g) n")
        case (Some v0)
        then have "\<not> need_publish g" using g by (auto simp: group_ok_def group_new_def ht_lookup_def)
        moreover have "lvo_thing v0 = lvo_thing v" using run(8) [OF Some] volume(1) by simp
        ultimately have "entry k g t grp p" using Some volume unfolding entry_def by metis
        then show ?thesis ..
      next
        case None
        then have "n \<in> fst ` set ns" using volume(1) run(4) keys by (auto simp: keys_lookup)
        then obtain t' where t': "(n, t') \<in> set ns" by auto
        then have "t' = t" using vols [OF t'] volume(1,2) by simp
        with t' volume(4) k(2) have "Published t p \<in> set (filter heard news)"
          by (auto simp: news volume_signals_def)
        with in_news show ?thesis by blast
      qed
    qed
  next
    fix t p
    assume t: "lvm_type (thing_type t)" and "Published t p \<in> set news"
    then have "Published t p \<in> set (filter heard news)" by (simp add: lvm_type_def, blast)
    then consider (group) "t = vgo_thing g" "p = group_path k" | (volume) n where "(n, t) \<in> set ns" "p = volume_path k n"
      | (block) "Published t p \<in> set ?blocks"
      using k(2) by (auto simp: news volume_signals_def split: if_splits)
    then show "readable k g' t p"
    proof cases
      case (volume n)
      with vols [OF volume(1)] g' show ?thesis by (auto simp: readable_def)
    next
      case block
      with blocks_signals_type [OF _ block] blocks_known(4) [OF w g inj u] t show ?thesis by blast
    qed (simp add: readable_def g')
  qed
qed

text \<open>Any answer about a group of the table.\<close>

lemma entry_state:
  assumes "groups_ok S m" and "(k, g) \<in> set (name_to_volume_group m)"
  shows "distinct (map fst (name_to_volume_group m))" and "vgo_name g = k" and "world_ok (mgr_world m)"
    and "in_place S (the_daemon (mgr_world m)) g"
    and "group_ok (the_daemon (mgr_world m)) g \<or> group_new (the_daemon (mgr_world m)) g"
    and "need_publish g \<Longrightarrow> logical_volumes g = []" and "thing_type (vgo_thing g) = StorageVolumeGroup"
proof -
  have g: "g \<in> snd ` set (name_to_volume_group m)" using assms(2) by force
  show "distinct (map fst (name_to_volume_group m))" "vgo_name g = k" "world_ok (mgr_world m)"
    and p: "in_place S (the_daemon (mgr_world m)) g"
    using assms g by (auto simp: groups_ok_def ht_wf_def family_ok_def)
  show "group_ok (the_daemon (mgr_world m)) g \<or> group_new (the_daemon (mgr_world m)) g"
    using p by (simp add: in_place_def)
  then show "need_publish g \<Longrightarrow> logical_volumes g = []" "thing_type (vgo_thing g) = StorageVolumeGroup"
    by (auto simp: group_ok_def group_new_def)
qed

lemma answer_speaks:
  assumes m: "groups_ok S m" and inj: "inj_on escape S" and k: "(k, g) \<in> set (name_to_volume_group m)"
    and good: "good_answer S answer"
    and u: "update_with_variant os now answer (mgr_world m) g = Inr (w', g', called)"
  shows "speaks (the_daemon (mgr_world m)) (name_to_volume_group m) (the_daemon w') (ht_insert (name_to_volume_group m) k g')"
proof -
  note st = entry_state [OF m k]
  note pub = published_speaks(1) [OF st(1) k st(2,6,7)]
  show ?thesis
  proof (cases answer)
    case (Inl e)
    then have "published_group (mgr_world m) g = (w', g')" using u by (simp add: update_with_error prod_eq_iff)
    with st(2) show ?thesis by (intro pub) simp_all
  next
    case (Inr info)
    show ?thesis
    proof (cases called)
      case True
      have "ht_keys (logical_volumes g) \<union> set (visible_names (dicts_of info ''lvs'')) \<subseteq> S"
        using st(4) good by (simp add: Inr in_place_def good_answer_def)
      then have "inj_on escape (ht_keys (logical_volumes g) \<union> set (visible_names (dicts_of info ''lvs'')))"
        by (rule inj_on_subset [OF inj])
      with u Inr True show ?thesis by (intro update_speaks [OF st(1) k st(2,3,5)]) simp_all
    next
      case False
      obtain w1 g1 where 1: "published_group (mgr_world m) (volume_group_update_props g info) = (w1, g1)" by fastforce
      with u False have eq: "w' = w1" "g' = g1"
        by (auto simp: Inr update_with_variant_eq Let_def ebind_Inr split: if_splits prod.splits)
      from pub [OF _ 1] st(2) show ?thesis by (simp add: eq)
    qed
  qed
qed

subsection \<open>The list of groups\<close>

lemma add_speaks:
  assumes m: "groups_ok S m" and a: "add_group name m = (m', g)"
  shows "speaks (the_daemon (mgr_world m)) (name_to_volume_group m) (the_daemon (mgr_world m')) (name_to_volume_group m')"
    and "told (name_to_volume_group m) t p \<Longrightarrow> told (name_to_volume_group m') t p"
proof -
  have wf: "distinct (map fst (name_to_volume_group m))" using m by (simp add: groups_ok_def ht_wf_def)
  have tab: "emitted (the_daemon (mgr_world m')) = emitted (the_daemon (mgr_world m)) \<and>
      (\<forall>kh \<in> set (name_to_volume_group m'). kh \<in> set (name_to_volume_group m) \<or> need_publish (snd kh)) \<and>
      set (name_to_volume_group m) \<subseteq> set (name_to_volume_group m')"
  proof (cases "ht_lookup (name_to_volume_group m) name")
    case (Some h)
    with a show ?thesis by (simp add: add_group_def)
  next
    case None
    then have "name \<notin> fst ` set (name_to_volume_group m)" by (simp add: ht_lookup_def map_of_eq_None_iff)
    then have "(k, h) \<in> set (ht_insert (name_to_volume_group m) name c) \<longleftrightarrow>
        (k, h) = (name, c) \<or> (k, h) \<in> set (name_to_volume_group m)" for k h c
      using in_ht_insert [OF wf, of k h name c] by force
    with a None show ?thesis
      by (auto simp: add_group_def Let_def new_thing_def storage_volume_group_new_def)
  qed
  have "listed (name_to_volume_group m) u grp q" if l: "listed (name_to_volume_group m') u grp q" for u grp q
  proof -
    obtain k h where h: "(k, h) \<in> set (name_to_volume_group m')" "entry k h u grp q" using l by (auto simp: listed_def)
    then have "(k, h) \<in> set (name_to_volume_group m)" using tab by (force simp: entry_def)
    with h(2) show ?thesis by (auto simp: listed_def)
  qed
  with tab show "speaks (the_daemon (mgr_world m)) (name_to_volume_group m) (the_daemon (mgr_world m'))
      (name_to_volume_group m')"
    by (intro speaks_quiet quiet_same) simp_all
  show "told (name_to_volume_group m) t p \<Longrightarrow> told (name_to_volume_group m') t p"
    using tab by (fastforce simp: told_def)
qed

lemma vg_done_world: "lvm_vg_update_done u m = Inr m' \<Longrightarrow> mgr_world m' = mgr_world m"
  by (auto simp: lvm_vg_update_done_def lvm_update_done_def trigger_delayed_lvm_update_def Let_def
      split: option.splits if_splits)

lemma spawn_error:
  "storage_daemon_spawn_for_variant lib dat d spawn argv = Inl r \<Longrightarrow> \<exists>e. answer_of env r = Inl e \<and> names_of env r = Inl e"
  by (auto simp: storage_daemon_spawn_for_variant_def split: sum.splits)

lemma listed_group_speaks:
  assumes m: "groups_ok S m" and name: "name \<in> S" "name \<noteq> []"
    and u: "update_listed_group env now spawn u ignore_locks name m = Inr m'"
  shows "speaks (the_daemon (mgr_world m)) (name_to_volume_group m) (the_daemon (mgr_world m')) (name_to_volume_group m') \<and>
    (\<forall>t p. told (name_to_volume_group m) t p \<longrightarrow> told (name_to_volume_group m') t p)"
proof -
  obtain m1 g where a: "add_group name m = (m1, g)" by fastforce
  note add = add_group_ok [OF m name a] and sp = add_speaks [OF m a]
  let ?m = "m1\<lparr>update_datas := count_pending u 1 (update_datas m1)\<rparr>"
  have ok: "groups_ok S ?m" and tab: "(name, g) \<in> set (name_to_volume_group ?m)" using add by simp_all
  show ?thesis
  proof (cases "storage_daemon_spawn_for_variant (env_lib env) (env_data env) (the_daemon (mgr_world ?m)) spawn
      (storage_volume_group_update g ignore_locks)")
    case (Inr r)
    with u a sp show ?thesis by (auto simp: update_listed_group_def Let_def)
  next
    case (Inl failure)
    obtain e where e: "answer_of env failure = Inl e" using spawn_error [OF Inl, of env] by blast
    obtain w g' where p: "published_group (mgr_world m1) g = (w, g')" by fastforce
    let ?m' = "?m\<lparr>mgr_world := w, name_to_volume_group := ht_insert (name_to_volume_group m1) name g'\<rparr>"
    have "m' = ?m'" using u a Inl p by (simp add: update_listed_group_def Let_def e update_with_error)
    then have m': "mgr_world m' = w" "name_to_volume_group m' = ht_insert (name_to_volume_group m1) name g'" by simp_all
    note st = entry_state [OF ok tab]
    have "distinct (map fst (name_to_volume_group m1))" "(name, g) \<in> set (name_to_volume_group m1)" using st(1) tab by simp_all
    note pub = published_speaks [OF this st(2,6,7) p refl st(2) refl refl]
    show ?thesis unfolding m' using speaks_trans [OF sp(1) pub(1) pub(2)] sp(2) pub(2) by blast
  qed
qed

lemma listed_groups_speak:
  "groups_ok S m \<Longrightarrow> inj_on escape S \<Longrightarrow> set names \<subseteq> S \<Longrightarrow> [] \<notin> S \<Longrightarrow>
   update_listed_groups env now spawn u ignore_locks names m = Inr m' \<Longrightarrow>
   speaks (the_daemon (mgr_world m)) (name_to_volume_group m) (the_daemon (mgr_world m')) (name_to_volume_group m') \<and>
   (\<forall>t p. told (name_to_volume_group m) t p \<longrightarrow> told (name_to_volume_group m') t p)"
proof (induction names arbitrary: m)
  case Nil
  then show ?case by simp
next
  case (Cons name names)
  then obtain m1 where 1: "update_listed_group env now spawn u ignore_locks name m = Inr m1"
    and rest: "update_listed_groups env now spawn u ignore_locks names m1 = Inr m'"
    by (auto simp: ebind_Inr)
  have name: "name \<in> S" "name \<noteq> []" using Cons.prems(3,4) by auto
  have m1: "groups_ok S m1" by (rule update_listed_group_family [OF Cons.prems(1,2) name 1])
  note s1 = listed_group_speaks [OF Cons.prems(1) name 1]
  have s2: "speaks (the_daemon (mgr_world m1)) (name_to_volume_group m1) (the_daemon (mgr_world m')) (name_to_volume_group m') \<and>
      (\<forall>t p. told (name_to_volume_group m1) t p \<longrightarrow> told (name_to_volume_group m') t p)"
    using Cons.prems(3) by (intro Cons.IH [OF m1 Cons.prems(2) _ Cons.prems(4) rest]) simp
  show ?case using speaks_trans [OF conjunct1 [OF s1] conjunct1 [OF s2]] s1 s2 by blast
qed

lemma update_done_world [simp]:
  "mgr_world (lvm_update_done u d m) = mgr_world m" "name_to_volume_group (lvm_update_done u d m) = name_to_volume_group m"
  by (simp_all add: lvm_update_done_def trigger_delayed_lvm_update_def Let_def)

lemma list_answer_speaks:
  assumes m: "groups_ok S m" and inj: "inj_on escape S" and S: "[] \<notin> S" and names: "good_names S answer"
    and u: "lvm_update_from_variant env now spawn u answer m = Inr m'"
  shows "speaks (the_daemon (mgr_world m)) (name_to_volume_group m) (the_daemon (mgr_world m')) (name_to_volume_group m')"
proof (cases answer)
  case (Inl e)
  with u show ?thesis by (auto simp: lvm_update_from_variant_def)
next
  case (Inr ns)
  let ?t = "name_to_volume_group m"
  obtain data where d: "map_of (update_datas m) u = Some data"
    using u by (auto simp: lvm_update_from_variant_def Inr split: option.splits)
  obtain w gs dropped m1 where 1: "remove_obsolete_groups (set ns) (mgr_world m) ?t = Inr (w, gs, dropped)"
    and 2: "update_listed_groups env now spawn u (upd_ignore_locks data) ns
      (m\<lparr>mgr_world := w, name_to_volume_group := gs, dropped_groups := dropped_groups m @ dropped\<rparr>) = Inr m1"
    and m': "(case map_of (update_datas m1) u of
        None \<Rightarrow> Inl (UseAfterFree ''data->pending_vg_updates'')
      | Some data \<Rightarrow> Inr (if pending_vg_updates data = 0 then lvm_update_done u data m1 else m1)) = Inr m'"
    using u by (auto simp: lvm_update_from_variant_def Inr d ebind_Inr)
  let ?m = "m\<lparr>mgr_world := w, name_to_volume_group := gs, dropped_groups := dropped_groups m @ dropped\<rparr>"
  have t: "distinct (map fst ?t)" "\<forall>(k, g) \<in> set ?t. vgo_name g = k"
      "family_ok S (mgr_world m) ({} \<union> snd ` set ?t) (set (dropped_groups m))"
    using m by (simp_all add: groups_ok_def ht_wf_def)
  note r = remove_obsolete_groups_ok [OF t(3) inj t(1,2) _ 1]
  have ok: "groups_ok S ?m" using r t(1,2) by (auto simp: groups_ok_def ht_wf_def distinct_map_filter)
  have same: "mgr_world m' = mgr_world m1" "name_to_volume_group m' = name_to_volume_group m1"
    using m' by (auto split: option.splits)
  have "speaks (the_daemon w) gs (the_daemon (mgr_world m1)) (name_to_volume_group m1)"
    using listed_groups_speak [OF ok inj _ S 2] names by (simp add: Inr good_names_def)
  then show ?thesis
    unfolding same using remove_obsolete_quiet [OF 1] listed_mono by (blast intro: speaks_after_quiet)
qed

lemma lvm_update_speaks:
  assumes "groups_ok S m" and "inj_on escape S" and "[] \<notin> S"
    and "lvm_update env now spawn ignore_locks task m = Inr m'"
  shows "speaks (the_daemon (mgr_world m)) (name_to_volume_group m) (the_daemon (mgr_world m')) (name_to_volume_group m')"
proof -
  let ?m = "m\<lparr>next_update := next_update m + 1, update_datas := update_datas m @
      [(next_update m, \<lparr>upd_ignore_locks = ignore_locks, upd_task = task, pending_vg_updates = 0\<rparr>)]\<rparr>"
  show ?thesis
  proof (cases "storage_daemon_spawn_for_variant (env_lib env) (env_data env) (the_daemon (mgr_world ?m)) spawn lvm_list_argv")
    case (Inr r)
    with assms(4) show ?thesis by (auto simp: lvm_update_def Let_def)
  next
    case (Inl failure)
    then have "lvm_update_from_variant env now spawn (next_update m) (names_of env failure) ?m = Inr m'"
      using assms(4) by (simp add: lvm_update_def Let_def)
    moreover obtain e where "names_of env failure = Inl e" using spawn_error [OF Inl, of env] by blast
    ultimately show ?thesis by (auto simp: lvm_update_from_variant_def)
  qed
qed

subsection \<open>The other events\<close>

lemma group_answer_speaks:
  assumes m: "groups_ok S m" and inj: "inj_on escape S" and good: "good_answer S answer"
    and u: "on_group_answer env now ut answer m = Inr m'"
  shows "speaks (the_daemon (mgr_world m)) (name_to_volume_group m) (the_daemon (mgr_world m')) (name_to_volume_group m')"
proof (cases "find_group (snd ut) (name_to_volume_group m)")
  case (Some kg)
  obtain k g where kg: "kg = (k, g)" by (cases kg)
  have tab: "(k, g) \<in> set (name_to_volume_group m)" using find_groupD [OF Some [unfolded kg]] by blast
  obtain w g' called where v: "update_with_variant (env_os env) now answer (mgr_world m) g = Inr (w, g', called)"
    and m': "(if called then lvm_vg_update_done (fst ut)
        (m\<lparr>mgr_world := w, name_to_volume_group := ht_insert (name_to_volume_group m) k g'\<rparr>)
      else Inr (m\<lparr>mgr_world := w, name_to_volume_group := ht_insert (name_to_volume_group m) k g'\<rparr>)) = Inr m'"
    using u by (auto simp: on_group_answer_def Some kg Let_def ebind_Inr)
  from m' have "mgr_world m' = w" "name_to_volume_group m' = ht_insert (name_to_volume_group m) k g'"
    by (auto dest: vg_done_world vg_done_groups split: if_splits)
  with answer_speaks [OF m inj tab good v] show ?thesis by simp
next
  case None
  obtain z where f: "find (\<lambda>g. vgo_thing g = snd ut) (dropped_groups m) = Some z"
    using u by (auto simp: on_group_answer_def None Let_def split: option.splits)
  then have z: "z \<in> set (dropped_groups m)" by (auto dest: find_SomeD)
  obtain w z' called where v: "update_with_variant (env_os env) now answer (mgr_world m) z = Inr (w, z', called)"
    and m': "(if called then lvm_vg_update_done (fst ut)
        (m\<lparr>mgr_world := w, dropped_groups := map (\<lambda>h. if vgo_thing h = vgo_thing z' then z' else h) (dropped_groups m)\<rparr>)
      else Inr (m\<lparr>mgr_world := w,
          dropped_groups := map (\<lambda>h. if vgo_thing h = vgo_thing z' then z' else h) (dropped_groups m)\<rparr>)) = Inr m'"
    using u by (auto simp: on_group_answer_def None f Let_def ebind_Inr)
  have "world_ok (mgr_world m)" "gone (the_daemon (mgr_world m)) z" using m z by (simp_all add: groups_ok_def family_ok_def)
  then have "quiet (the_daemon (mgr_world m)) (the_daemon w)" using gone_answer [OF _ _ v] by blast
  moreover from m' have "mgr_world m' = w" "name_to_volume_group m' = name_to_volume_group m"
    by (auto dest: vg_done_world vg_done_groups split: if_splits)
  ultimately show ?thesis by (simp add: speaks_quiet)
qed

lemma dispose_block_emitted: "emitted (fst (storage_block_dispose d b)) = emitted d"
  by (simp add: storage_block_dispose_def drop_physical_volume_def drop_logical_volume_def split: option.split)

lemma interface_added_quiet:
  assumes u: "on_udisks_interface_added i m = Inr m'"
  shows "quiet (the_daemon (mgr_world m)) (the_daemon (mgr_world m')) \<and> name_to_volume_group m' = name_to_volume_group m"
proof (cases i)
  case None
  with u show ?thesis by (simp add: on_udisks_interface_added_def quiet_same)
next
  case (Some b)
  have groups: "quiet d d'" if "update_block_from_all_volume_groups gs d b = Inr (d', b')" for gs d b d' b'
    using that
    by (induction gs d b rule: update_block_from_all_volume_groups.induct)
      (auto simp: ebind_Inr quiet_same intro: quiet_trans quiet_block)
  let ?w = "mgr_world m"
  let ?d = "case ht_lookup (the_blocks ?w) (blk_path b) of
      Some old \<Rightarrow> fst (storage_block_dispose (the_daemon ?w) old) | None \<Rightarrow> the_daemon ?w"
  have "quiet (the_daemon ?w) ?d" by (simp add: quiet_same dispose_block_emitted split: option.split)
  with u groups show ?thesis
    by (auto simp: on_udisks_interface_added_def Some Let_def ebind_Inr intro: quiet_trans)
qed

lemma object_added_quiet:
  "on_udisks_object_added is m = Inr m' \<Longrightarrow>
   quiet (the_daemon (mgr_world m)) (the_daemon (mgr_world m')) \<and> name_to_volume_group m' = name_to_volume_group m"
proof (induction "is" arbitrary: m)
  case (Cons i "is")
  then obtain m1 where 1: "on_udisks_interface_added i m = Inr m1" and 2: "on_udisks_object_added is m1 = Inr m'"
    by (auto simp: ebind_Inr)
  from interface_added_quiet [OF 1] Cons.IH [OF 2] show ?case by (auto intro: quiet_trans)
qed (simp add: quiet_same)

lemma object_removed_quiet:
  "emitted (the_daemon (mgr_world (on_udisks_object_removed is m))) = emitted (the_daemon (mgr_world m)) \<and>
   name_to_volume_group (on_udisks_object_removed is m) = name_to_volume_group m"
proof -
  have "emitted (the_daemon (mgr_world (on_udisks_interface_removed i m))) = emitted (the_daemon (mgr_world m)) \<and>
      name_to_volume_group (on_udisks_interface_removed i m) = name_to_volume_group m" for i m
    by (simp add: on_udisks_interface_removed_def Let_def dispose_block_emitted split: option.split)
  then show ?thesis unfolding on_udisks_object_removed_def by (induction "is" arbitrary: m) simp_all
qed

subsection \<open>Every event\<close>

lemma manager_step_speaks:
  assumes env: "inj_on escape S" "[] \<notin> S" "names_from S env" and m: "groups_ok S m"
    and u: "manager_step env m e = Inr m'"
  shows "speaks (the_daemon (mgr_world m)) (name_to_volume_group m) (the_daemon (mgr_world m')) (name_to_volume_group m')"
proof (cases e)
  case (InitAsync now spawn)
  with u show ?thesis
    using lvm_update_speaks [OF m env(1,2)] by (auto simp: storage_manager_init_async_def)
next
  case (ListDone now spawn u' r)
  have "groups_ok S (m\<lparr>list_helpers := filter (\<lambda>v. v \<noteq> u') (list_helpers m)\<rparr>)" using m by simp
  from list_answer_speaks [OF this env(1,2) names_from_answers(1) [OF env(3)]] u ListDone show ?thesis
    by (simp split: if_splits)
next
  case (GroupDone now i r)
  have "groups_ok S (m\<lparr>group_helpers := drop_nth i (group_helpers m)\<rparr>)" using m by simp
  from group_answer_speaks [OF this env(1) names_from_answers(2) [OF env(3)]] u GroupDone show ?thesis
    by (simp split: if_splits)
next
  case (DelayedTimer now spawn)
  with u show ?thesis
    using lvm_update_speaks [OF m env(1,2)] by (auto simp: delayed_lvm_update_def ebind_Inr split: if_splits)
next
  case (Uevent device real_block)
  with u show ?thesis by (auto simp: handle_block_uevent_for_lvm_def trigger_delayed_lvm_update_def)
next
  case (ObjectAdded "is")
  with u object_added_quiet [of "is" m m'] show ?thesis by (simp add: speaks_quiet)
next
  case (ObjectRemoved "is")
  with u object_removed_quiet [of "is" m] show ?thesis by (auto intro!: speaks_quiet quiet_same)
qed

section \<open>What a caller hears of an event\<close>

text \<open>
  The instance a signal is about, among all groups there are. The handlers read the name of the
  instance, the group of a volume and the path, which the rest of the event leaves as they are.
\<close>

definition all_groups :: "manager \<Rightarrow> volume_group list" where
  "all_groups m = map snd (name_to_volume_group m) @ dropped_groups m"

fun instance_in :: "manager \<Rightarrow> daemon_signal \<Rightarrow> published_thing option" where
  "instance_in m (Published t p) =
     (case thing_type t of
        StorageVolumeGroup \<Rightarrow> map_option PublishedGroup (find (\<lambda>g. vgo_thing g = t) (all_groups m))
      | StorageLogicalVolume \<Rightarrow>
          map_option (PublishedVolume \<circ> snd)
            (find (\<lambda>(_, v). lvo_thing v = t) (concat (map logical_volumes (all_groups m))))
      | LvmLogicalVolumeBlockSkeleton \<Rightarrow>
          map_option (\<lambda>i. PublishedBlock i p)
            (Option.bind (ht_lookup (the_blocks (mgr_world m)) p) iface_logical_volume)
      | _ \<Rightarrow> None)"
| "instance_in m Finished = None"

definition hear_manager :: "manager \<Rightarrow> daemon_signal list \<Rightarrow> waiting_call \<Rightarrow> waiting_call" where
  "hear_manager m sigs call =
     fold (on_published (the_daemon (mgr_world m))) (List.map_filter (instance_in m) sigs) call"

text \<open>The object a call waits for, in the table of the manager: its path.\<close>

definition awaited_path :: "manager \<Rightarrow> waiting_call \<Rightarrow> string option" where
  "awaited_path m call =
     (case wait_name call of
        None \<Rightarrow> None
      | Some n \<Rightarrow>
          if call_kind call \<in> {GroupCreated, GroupRenamed}
          then case ht_lookup (name_to_volume_group m) n of
                 Some g \<Rightarrow> if need_publish g then None else Some (group_path n)
               | None \<Rightarrow> None
          else if call_kind call \<in> {VolumeCreated, VolumeRenamed, SnapshotCreated}
          then case find (\<lambda>(_, g). Some (vgo_thing g) = wait_thing call) (name_to_volume_group m) of
                 Some (k, g) \<Rightarrow>
                   if need_publish g \<or> ht_lookup (logical_volumes g) n = None then None else Some (volume_path k n)
               | None \<Rightarrow> None
          else None)"

lemma awaited_closure [simp]: "awaited_path m (call\<lparr>wait_closure := c\<rparr>) = awaited_path m call"
  by (cases "wait_name call"; cases "call_kind call") (simp_all add: awaited_path_def)

lemma find_unique: "x \<in> set xs \<Longrightarrow> P x \<Longrightarrow> (\<And>y. y \<in> set xs \<Longrightarrow> P y \<Longrightarrow> y = x) \<Longrightarrow> find P xs = Some x"
proof -
  assume x: "x \<in> set xs" "P x" and unique: "\<And>y. y \<in> set xs \<Longrightarrow> P y \<Longrightarrow> y = x"
  obtain y where y: "find P xs = Some y" using x by (cases "find P xs") (auto simp: find_None_iff)
  from find_SomeD [OF y] have "y = x" by (intro unique) simp_all
  with y show ?thesis by simp
qed

lemma group_path_inj: "group_path a = group_path b \<longleftrightarrow> escape a = escape b"
  by (simp add: group_path_def)

lemma volume_path_inj2: "volume_path a m = volume_path b n \<longleftrightarrow> escape a = escape b \<and> escape m = escape n"
  using split_slash [OF no_slash_escape no_slash_escape, of a "escape m" b "escape n"] by (simp add: volume_path_def group_path_def)

lemma group_not_volume [simp]: "group_path a \<noteq> volume_path b n" "volume_path b n \<noteq> group_path a"
proof -
  show "group_path a \<noteq> volume_path b n"
  proof
    assume "group_path a = volume_path b n"
    then have "escape a = escape b @ ''/'' @ escape n" by (simp add: volume_path_def group_path_def)
    then have "CHR ''/'' \<in> set (escape a)" by simp
    with no_slash_escape show False by blast
  qed
  then show "volume_path b n \<noteq> group_path a" by simp
qed

text \<open>The instances of the table.\<close>

lemma entry_unique:
  assumes "groups_ok S m" and "(k, g) \<in> set (name_to_volume_group m)" and "(j, h) \<in> set (name_to_volume_group m)"
  shows "j = k \<Longrightarrow> h = g" and "vgo_thing h = vgo_thing g \<Longrightarrow> j = k \<and> h = g"
proof -
  show "j = k \<Longrightarrow> h = g" using entry_state(1) [OF assms(1,2)] assms(2,3) by (metis eq_key_imp_eq_value)
  have "inj_on vgo_thing (snd ` set (name_to_volume_group m))"
    using assms(1) by (auto simp: groups_ok_def family_ok_def inj_on_def)
  then have "h = g" if "vgo_thing h = vgo_thing g" using that assms(2,3) by (force dest: inj_onD)
  then show "vgo_thing h = vgo_thing g \<Longrightarrow> j = k \<and> h = g"
    using entry_state(2) [OF assms(1,2)] entry_state(2) [OF assms(1,3)] by auto
qed

lemma entry_names:
  assumes "groups_ok S m" and "(k, g) \<in> set (name_to_volume_group m)"
  shows "k \<in> S" and "ht_lookup (logical_volumes g) n = Some v \<Longrightarrow> n \<in> S"
  using entry_state(2,4) [OF assms] by (auto simp: in_place_def keys_lookup)

lemma instance_group:
  assumes m: "groups_ok S m" and k: "(k, g) \<in> set (name_to_volume_group m)"
  shows "instance_in m (Published (vgo_thing g) p) = Some (PublishedGroup g)"
proof -
  have "set (all_groups m) = snd ` set (name_to_volume_group m) \<union> set (dropped_groups m)" by (simp add: all_groups_def)
  moreover have "inj_on vgo_thing (snd ` set (name_to_volume_group m) \<union> set (dropped_groups m))"
    using m by (simp add: groups_ok_def family_ok_def)
  moreover have "g \<in> snd ` set (name_to_volume_group m)" using k by force
  ultimately have "find (\<lambda>h. vgo_thing h = vgo_thing g) (all_groups m) = Some g"
    by (intro find_unique) (auto dest: inj_onD)
  with entry_state(7) [OF m k] show ?thesis by simp
qed

lemma instance_volume:
  assumes m: "groups_ok S m" and inj: "inj_on escape S" and k: "(k, g) \<in> set (name_to_volume_group m)"
    and v: "ht_lookup (logical_volumes g) n = Some v"
  shows "instance_in m (Published (lvo_thing v) p) = Some (PublishedVolume v)"
proof -
  let ?d = "the_daemon (mgr_world m)"
  have fam: "family_ok S (mgr_world m) (snd ` set (name_to_volume_group m)) (set (dropped_groups m))"
    using m by (simp add: groups_ok_def)
  have g: "group_ok ?d g" using entry_state(5) [OF m k] v by (auto simp: group_new_def ht_lookup_def)
  have mem: "(n, v) \<in> set (logical_volumes g)" using v by (simp add: ht_lookup_def map_of_SomeD)
  have gG: "g \<in> snd ` set (name_to_volume_group m)" using k by force
  have "find (\<lambda>(_, u). lvo_thing u = lvo_thing v) (concat (map logical_volumes (all_groups m))) = Some (n, v)"
  proof (rule find_unique)
    show "(n, v) \<in> set (concat (map logical_volumes (all_groups m)))" using mem gG by (auto simp: all_groups_def)
    show "case (n, v) of (_, u) \<Rightarrow> lvo_thing u = lvo_thing v" by simp
  next
    fix y
    assume y: "y \<in> set (concat (map logical_volumes (all_groups m)))" "case y of (_, u) \<Rightarrow> lvo_thing u = lvo_thing v"
    obtain j u where ju: "y = (j, u)" by (cases y)
    obtain h where h: "h \<in> snd ` set (name_to_volume_group m) \<union> set (dropped_groups m)" "(j, u) \<in> set (logical_volumes h)"
      using y(1) by (auto simp: ju all_groups_def)
    have same: "lvo_thing u = lvo_thing v" using y(2) by (simp add: ju)
    have "ht_wf (logical_volumes h)"
    proof (cases "h \<in> set (dropped_groups m)")
      case True
      with fam show ?thesis by (simp add: family_ok_def gone_def)
    next
      case False
      then obtain l where "(l, h) \<in> set (name_to_volume_group m)" using h(1) by auto
      from entry_state(5) [OF m this] show ?thesis by (auto simp: group_ok_def group_new_def ht_wf_def)
    qed
    then have u: "ht_lookup (logical_volumes h) j = Some u" using h(2) by (simp add: ht_wf_def ht_lookup_def)
    then have things: "lvo_thing v \<in> group_things h" "lvo_thing v \<in> group_things g"
      using group_thingsI(2) [OF u] group_thingsI(2) [OF v] same by simp_all
    have "h \<notin> set (dropped_groups m)"
      using fam things(1) ok_things(2) [OF g things(2)] by (auto simp: family_ok_def gone_def)
    then have "h = g" using things_disjoint [OF fam inj _ gG] h(1) things by blast
    moreover have "inj_on escape (ht_keys (logical_volumes g))"
      using entry_state(4) [OF m k] by (auto simp: in_place_def intro: inj_on_subset [OF inj])
    note find_volume [OF volume_things_distinct [OF g this]]
    from this [OF mem] this [of j u] have "h = g \<Longrightarrow> (j, u) = (n, v)" using h(2) same by simp
    ultimately show "y = (n, v)" by (simp add: ju)
  qed
  moreover have "thing_type (lvo_thing v) = StorageLogicalVolume" using g v by (auto simp: group_ok_def volume_ok_def)
  ultimately show ?thesis by simp
qed

text \<open>What a call reads in a signal: the path it is answered with.\<close>

definition reading :: "manager \<Rightarrow> waiting_call \<Rightarrow> daemon_signal \<Rightarrow> string option option" where
  "reading m call sig = Option.bind (instance_in m sig) (path_answered (the_daemon (mgr_world m)) call)"

lemma entry_paths:
  assumes m: "groups_ok S m" and k: "(k, g) \<in> set (name_to_volume_group m)" and new: "\<not> need_publish g"
  shows "path_of (the_daemon (mgr_world m)) (vgo_thing g) = Some (group_path k)"
    and "ht_lookup (logical_volumes g) n = Some v \<Longrightarrow>
      path_of (the_daemon (mgr_world m)) (lvo_thing v) = Some (volume_path k n) \<and> lvo_name v = n \<and>
      thing_type (lvo_thing v) = StorageLogicalVolume"
proof -
  let ?d = "the_daemon (mgr_world m)"
  have g: "group_ok ?d g" "vgo_name g = k" using entry_state(2,5) [OF m k] new by (auto simp: group_new_def)
  have bus: "ht_wf (objects ?d)" using entry_state(3) [OF m k] by (simp add: world_ok_def bus_ok_def)
  show "path_of ?d (vgo_thing g) = Some (group_path k)"
    using g by (intro path_of_places [OF bus]) (simp add: group_ok_def)
  show "path_of ?d (lvo_thing v) = Some (volume_path k n) \<and> lvo_name v = n \<and> thing_type (lvo_thing v) = StorageLogicalVolume"
    if "ht_lookup (logical_volumes g) n = Some v"
    using g that path_of_places [OF bus, of "lvo_thing v"] by (auto simp: group_ok_def volume_ok_def)
qed

lemma reading_group:
  assumes "groups_ok S m" and "(k, g) \<in> set (name_to_volume_group m)" and "\<not> need_publish g"
  shows "reading m call (Published (vgo_thing g) p) =
    (if call_kind call \<in> {GroupCreated, GroupRenamed} \<and> wait_name call = Some k then Some (Some (group_path k)) else None)"
  using instance_group [OF assms(1,2), of p] entry_paths(1) [OF assms] entry_state(2) [OF assms(1,2)]
  by (simp add: reading_def del: instance_in.simps)

lemma reading_volume:
  assumes "groups_ok S m" and "inj_on escape S" and "(k, g) \<in> set (name_to_volume_group m)" and "\<not> need_publish g"
    and v: "ht_lookup (logical_volumes g) n = Some v" "lvo_group v = Some (vgo_thing g)"
  shows "reading m call (Published (lvo_thing v) p) =
    (if call_kind call \<in> {VolumeCreated, VolumeRenamed, SnapshotCreated} \<and> wait_name call = Some n \<and>
       wait_thing call = Some (vgo_thing g) then Some (Some (volume_path k n)) else None)"
  using instance_volume [OF assms(1-3) v(1), of p] entry_paths(2) [OF assms(1,3,4) v(1)] v(2)
  by (auto simp add: reading_def simp del: instance_in.simps)

lemma awaited_group:
  assumes "groups_ok S m" and "(k, g) \<in> set (name_to_volume_group m)" and "\<not> need_publish g"
    and "call_kind call \<in> {GroupCreated, GroupRenamed}" and "wait_name call = Some k"
  shows "awaited_path m call = Some (group_path k)"
  using assms entry_state(1) [OF assms(1,2)] by (auto simp: awaited_path_def ht_lookup_def)

lemma awaited_volume:
  assumes m: "groups_ok S m" and k: "(k, g) \<in> set (name_to_volume_group m)" and "\<not> need_publish g"
    and "call_kind call \<in> {VolumeCreated, VolumeRenamed, SnapshotCreated}" and "wait_name call = Some n"
    and "wait_thing call = Some (vgo_thing g)" and "ht_lookup (logical_volumes g) n = Some v"
  shows "awaited_path m call = Some (volume_path k n)"
proof -
  have "find (\<lambda>(_, h). Some (vgo_thing h) = wait_thing call) (name_to_volume_group m) = Some (k, g)"
    by (rule find_unique [OF k]) (use assms(6) entry_unique(2) [OF m k] in \<open>auto split: prod.splits\<close>)
  with assms(3-5,7) show ?thesis by (auto simp: awaited_path_def)
qed

lemma awaitedE:
  assumes "groups_ok S m" and "awaited_path m call = Some p"
  obtains (group) k g where "(k, g) \<in> set (name_to_volume_group m)" "\<not> need_publish g"
      "call_kind call \<in> {GroupCreated, GroupRenamed}" "wait_name call = Some k" "p = group_path k"
  | (volume) k g n v where "(k, g) \<in> set (name_to_volume_group m)" "\<not> need_publish g"
      "call_kind call \<in> {VolumeCreated, VolumeRenamed, SnapshotCreated}" "wait_name call = Some n"
      "wait_thing call = Some (vgo_thing g)" "ht_lookup (logical_volumes g) n = Some v" "p = volume_path k n"
proof -
  obtain n where n: "wait_name call = Some n" using assms(2) by (auto simp: awaited_path_def split: option.splits)
  show thesis
  proof (cases "call_kind call \<in> {GroupCreated, GroupRenamed}")
    case True
    then obtain g where g: "ht_lookup (name_to_volume_group m) n = Some g" "\<not> need_publish g" "p = group_path n"
      using assms(2) by (auto simp: awaited_path_def n split: option.splits if_splits)
    then have "(n, g) \<in> set (name_to_volume_group m)" by (simp add: ht_lookup_def map_of_SomeD)
    then show thesis by (rule group) (use g n True in simp_all)
  next
    case False
    then have vol: "call_kind call \<in> {VolumeCreated, VolumeRenamed, SnapshotCreated}"
      using assms(2) by (auto simp: awaited_path_def n split: if_splits)
    obtain k g v where f: "find (\<lambda>(_, g). Some (vgo_thing g) = wait_thing call) (name_to_volume_group m) = Some (k, g)"
      and v: "\<not> need_publish g" "ht_lookup (logical_volumes g) n = Some v" "p = volume_path k n"
      using assms(2) False vol by (fastforce simp: awaited_path_def n split: option.splits if_splits)
    from find_SomeD [OF f] have "(k, g) \<in> set (name_to_volume_group m)" "wait_thing call = Some (vgo_thing g)" by simp_all
    then show thesis by (intro volume [OF _ v(1) vol n _ v(2,3)])
  qed
qed

text \<open>Whatever a call is answered with is the path of the object it waits for.\<close>

lemma reading_awaited:
  assumes m: "groups_ok S m" and inj: "inj_on escape S" and t: "told (name_to_volume_group m) t p"
  shows "reading m call (Published t p) \<in> {None, Some (awaited_path m call)} \<and>
    (reading m call (Published t p) \<noteq> None \<longrightarrow> awaited_path m call = Some p)"
proof -
  obtain k g where k: "(k, g) \<in> set (name_to_volume_group m)" "\<not> need_publish g"
    and r: "readable k g t p" using t by (auto simp: told_def readable_def)
  consider (group) "t = vgo_thing g" "p = group_path k"
    | (volume) n v where "ht_lookup (logical_volumes g) n = Some v" "t = lvo_thing v" "p = volume_path k n"
        "lvo_group v = Some (vgo_thing g)"
    using r by (auto simp: readable_def)
  then show ?thesis
  proof cases
    case group
    with reading_group [OF m k] awaited_group [OF m k] show ?thesis by auto
  next
    case (volume n v)
    with reading_volume [OF m inj k volume(1,4)] awaited_volume [OF m k _ _ _ volume(1)] show ?thesis by auto
  qed
qed

text \<open>The object that a call waits for is answered when it is told.\<close>

lemma awaited_reading:
  assumes m: "groups_ok S m" and inj: "inj_on escape S" and a: "awaited_path m call = Some p"
  obtains t grp where "listed (name_to_volume_group m) t grp p" and "lvm_type (thing_type t)"
    and "told (name_to_volume_group m) t p \<Longrightarrow> reading m call (Published t p) \<noteq> None"
    and "\<And>m0. groups_ok S m0 \<Longrightarrow> listed (name_to_volume_group m0) t grp p \<Longrightarrow> awaited_path m0 call \<noteq> None"
  using a
proof (cases rule: awaitedE [OF m a])
  case (1 k g)
  note S = entry_names(1) [OF m 1(1)]
  show thesis
  proof (rule that [of "vgo_thing g" "vgo_thing g"])
    show "listed (name_to_volume_group m) (vgo_thing g) (vgo_thing g) p"
      using 1 by (auto simp: listed_def entry_def)
    show "lvm_type (thing_type (vgo_thing g))" using entry_state(7) [OF m 1(1)] by (simp add: lvm_type_def)
    show "reading m call (Published (vgo_thing g) p) \<noteq> None" using reading_group [OF m 1(1,2)] 1(3,4) by simp
    show "awaited_path m0 call \<noteq> None"
      if m0: "groups_ok S m0" and l: "listed (name_to_volume_group m0) (vgo_thing g) (vgo_thing g) p" for m0
    proof -
      obtain j h where h: "(j, h) \<in> set (name_to_volume_group m0)" "\<not> need_publish h" "p = group_path j"
        using l 1(5) by (auto simp: listed_def entry_def)
      then have "j = k" using 1(5) S entry_names(1) [OF m0 h(1)] inj by (simp add: group_path_inj inj_on_eq_iff)
      with awaited_group [OF m0 h(1,2) 1(3)] 1(4) show ?thesis by simp
    qed
  qed
next
  case (2 k g n v)
  note S = entry_names(1) [OF m 2(1)] entry_names(2) [OF m 2(1,6)]
  show thesis
  proof (rule that [of "lvo_thing v" "vgo_thing g"])
    show "listed (name_to_volume_group m) (lvo_thing v) (vgo_thing g) p"
      using 2 by (auto simp: listed_def entry_def)
    show "lvm_type (thing_type (lvo_thing v))" using entry_paths(2) [OF m 2(1,2,6)] by (simp add: lvm_type_def)
    show "reading m call (Published (lvo_thing v) p) \<noteq> None" if t: "told (name_to_volume_group m) (lvo_thing v) p"
    proof -
      obtain j h i u where h: "(j, h) \<in> set (name_to_volume_group m)" "\<not> need_publish h"
        and u: "ht_lookup (logical_volumes h) i = Some u" "lvo_thing v = lvo_thing u" "p = volume_path j i"
          "lvo_group u = Some (vgo_thing h)"
        using t 2(7) by (auto simp: told_def readable_def)
      have "j = k" "i = n"
        using 2(7) u(3) S entry_names(1) [OF m h(1)] entry_names(2) [OF m h(1) u(1)] inj
        by (simp_all add: volume_path_inj2 inj_on_eq_iff)
      moreover from this have "h = g" using entry_unique(1) [OF m 2(1) h(1)] by simp
      ultimately show ?thesis using reading_volume [OF m inj h u(1,4)] u(2) 2(3-5) by simp
    qed
    show "awaited_path m0 call \<noteq> None"
      if m0: "groups_ok S m0" and l: "listed (name_to_volume_group m0) (lvo_thing v) (vgo_thing g) p" for m0
    proof -
      obtain j h i u where h: "(j, h) \<in> set (name_to_volume_group m0)" "\<not> need_publish h" "vgo_thing h = vgo_thing g"
        and u: "ht_lookup (logical_volumes h) i = Some u" "p = volume_path j i"
        using l 2(7) by (auto simp: listed_def entry_def)
      have "j = k" "i = n"
        using 2(7) u(2) S entry_names(1) [OF m0 h(1)] entry_names(2) [OF m0 h(1) u(1)] inj
        by (simp_all add: volume_path_inj2 inj_on_eq_iff)
      with awaited_volume [OF m0 h(1,2) 2(3)] 2(4,5) h(3) u(1) show ?thesis by simp
    qed
  qed
qed

text \<open>Nothing else is read, but by a call that waits for a block.\<close>

lemma reading_other:
  assumes "call_kind call \<noteq> VolumeActivated" and "\<nexists>t p. sig = Published t p \<and> lvm_type (thing_type t)"
  shows "reading m call sig = None"
proof (cases sig)
  case (Published t p)
  with assms show ?thesis
    by (cases "thing_type t") (auto simp: reading_def lvm_type_def split: bind_splits)
qed (simp add: reading_def)

lemma fold_published:
  assumes "listening (wait_closure call)"
  shows "fold (on_published d) xs call =
    (case List.map_filter (path_answered d call) xs of [] \<Rightarrow> call | p # _ \<Rightarrow> answer_path call p)"
  using assms
proof (induction xs)
  case (Cons x xs)
  show ?case
  proof (cases "path_answered d call x")
    case (Some p)
    have "\<not> listening (wait_closure (answer_path call p))" by (simp add: answer_path_def on_closure_published_def)
    moreover have "on_published d x call = answer_path call p" using Some Cons.prems by (simp add: on_published_eq)
    ultimately show ?thesis using Some by (simp add: not_listening map_filter_simps)
  next
    case None
    with Cons show ?thesis by (simp add: on_published_eq map_filter_simps)
  qed
qed (simp add: map_filter_simps)

lemma map_filter_bind:
  "List.map_filter f (List.map_filter g xs) = List.map_filter (\<lambda>x. Option.bind (g x) f) xs"
  by (induction xs) (auto simp: map_filter_simps split: option.split)

text \<open>
  An event answers a caller exactly when the object it waits for is in the table after it, where it
  was not before.
\<close>

lemma event_heard:
  assumes m: "groups_ok S m" "groups_ok S m'" and inj: "inj_on escape S"
    and sp: "speaks (the_daemon (mgr_world m)) (name_to_volume_group m) (the_daemon (mgr_world m')) (name_to_volume_group m')"
    and kind: "call_kind call \<noteq> VolumeActivated" and waiting: "listening (wait_closure call)"
    and before: "awaited_path m call = None"
  shows "hear_manager m' (announced (the_daemon (mgr_world m)) (the_daemon (mgr_world m'))) call =
    (case awaited_path m' call of None \<Rightarrow> call | Some p \<Rightarrow> answer_path call (Some p))"
proof -
  obtain news where e: "emitted (the_daemon (mgr_world m')) = emitted (the_daemon (mgr_world m)) @ news"
    and lists: "\<forall>t grp p. listed (name_to_volume_group m') t grp p \<longrightarrow>
      listed (name_to_volume_group m) t grp p \<or> Published t p \<in> set news"
    and tells: "\<forall>t p. lvm_type (thing_type t) \<and> Published t p \<in> set news \<longrightarrow> told (name_to_volume_group m') t p"
    using sp by (auto simp: speaks_def)
  let ?answers = "List.map_filter (reading m' call) news"
  have read: "reading m' call = (\<lambda>sig. Option.bind (instance_in m' sig) (path_answered (the_daemon (mgr_world m')) call))"
    by (simp add: reading_def fun_eq_iff)
  have hear: "hear_manager m' (announced (the_daemon (mgr_world m)) (the_daemon (mgr_world m'))) call =
      (case ?answers of [] \<Rightarrow> call | p # _ \<Rightarrow> answer_path call p)"
    by (simp add: hear_manager_def fold_published [OF waiting] map_filter_bind announced_def e read)
  have right: "q = awaited_path m' call \<and> q \<noteq> None" if q: "q \<in> set ?answers" for q
  proof -
    obtain sig where sig: "sig \<in> set news" "reading m' call sig = Some q" using q by (auto simp: List.map_filter_def)
    then obtain t p where t: "sig = Published t p" "lvm_type (thing_type t)"
      using reading_other [OF kind] by (metis option.distinct(1))
    then have "told (name_to_volume_group m') t p" using tells sig(1) by blast
    from reading_awaited [OF m(2) inj this, of call] sig(2) t(1) show ?thesis by auto
  qed
  show ?thesis
  proof (cases "awaited_path m' call")
    case None
    then have "q \<notin> set ?answers" for q using right [of q] by auto
    then have "?answers = []" by (cases ?answers) auto
    with None show ?thesis by (simp add: hear)
  next
    case (Some p)
    obtain t grp where t: "listed (name_to_volume_group m') t grp p" "lvm_type (thing_type t)"
      "told (name_to_volume_group m') t p \<Longrightarrow> reading m' call (Published t p) \<noteq> None"
      "listed (name_to_volume_group m) t grp p \<Longrightarrow> awaited_path m call \<noteq> None"
      using awaited_reading [OF m(2) inj Some] m(1) by metis
    then have "Published t p \<in> set news" using lists before by blast
    moreover from this have "reading m' call (Published t p) \<noteq> None" using t(2,3) tells by blast
    ultimately have "?answers \<noteq> []" by (force simp: List.map_filter_def filter_empty_conv)
    then obtain q qs where "?answers = q # qs" by (cases ?answers) auto
    with right [of q] Some show ?thesis by (simp add: hear)
  qed
qed

section \<open>The manager and a caller together\<close>

text \<open>
  The manager gets its events, and the caller hears what they publish; the caller's job completes.
\<close>

datatype service_event = ManagerGets manager_event | CallersJobEnds bool string

fun service_step :: "env \<Rightarrow> manager \<times> waiting_call \<Rightarrow> service_event \<Rightarrow> abort + manager \<times> waiting_call" where
  "service_step env (m, call) (ManagerGets e) =
     ebind (manager_step env m e)
       (\<lambda>m'. Inr (m', hear_manager m' (announced (the_daemon (mgr_world m)) (the_daemon (mgr_world m'))) call))"
| "service_step env (m, call) (CallersJobEnds success message) =
     ebind (on_job_of_call call success message) (\<lambda>call. Inr (m, call))"

text \<open>
  The reference has no signals: after each event of the manager it looks for the object in the table.
  \<open>given\<close> is what the caller has been told, and \<open>ended\<close> whether the job has.
\<close>

fun service_answer ::
  "env \<Rightarrow> waiting_call \<Rightarrow> bool \<Rightarrow> reply list \<Rightarrow> manager \<Rightarrow> service_event list \<Rightarrow> abort + reply list" where
  "service_answer env call ended given m [] = Inr given"
| "service_answer env call ended given m (ManagerGets e # es) =
     (case manager_step env m e of
        Inl a \<Rightarrow> Inl a
      | Inr m' \<Rightarrow>
          service_answer env call ended
            (if given \<noteq> [] then given
             else case awaited_path m' call of Some p \<Rightarrow> [Return [p]] | None \<Rightarrow> []) m' es)"
| "service_answer env call ended given m (CallersJobEnds success message # es) =
     (if ended \<or> success then service_answer env call True given m es
      else if given \<noteq> [] then Inl (UseAfterFree ''complete->invocation'')
      else service_answer env call True
             [ReturnError (udisks_error UDISKS_ERROR_FAILED (failure_text (call_kind call) @ message))] m es)"

fun service_paths :: "service_event \<Rightarrow> bool" where
  "service_paths (ManagerGets e) = udisks_paths e"
| "service_paths (CallersJobEnds _ _) = True"

definition answers_of :: "abort + manager \<times> waiting_call \<Rightarrow> abort + reply list" where
  "answers_of r = map_sum id (\<lambda>(m, call). replies (wait_closure call)) r"

lemma service_run:
  assumes env: "inj_on escape S" "[] \<notin> S" "names_from S env" and m: "groups_ok S m" and "list_all service_paths es"
    and kind: "call_kind call \<noteq> VolumeActivated" and "listening c \<longleftrightarrow> given = []" and "replies c = given"
    and "job_done c = ended" and "given = [] \<Longrightarrow> awaited_path m call = None"
  shows "answers_of (run_steps (service_step env) (m, call\<lparr>wait_closure := c\<rparr>) es) =
    service_answer env call ended given m es"
  using m assms(5,7-)
proof (induction es arbitrary: m c given ended)
  case Nil
  then show ?case by (simp add: answers_of_def)
next
  case (Cons e es)
  let ?call = "call\<lparr>wait_closure := c\<rparr>"
  show ?case
  proof (cases e)
    case (ManagerGets ev)
    show ?thesis
    proof (cases "manager_step env m ev")
      case (Inl a)
      with ManagerGets show ?thesis by (simp add: answers_of_def ebind_def)
    next
      case (Inr m')
      have m': "groups_ok S m'"
        using manager_step_groups [OF env Cons.prems(1) _ Inr] Cons.prems(2) ManagerGets by simp
      let ?c = "if given \<noteq> [] then c
        else case awaited_path m' call of None \<Rightarrow> c | Some p \<Rightarrow> on_closure_published c True (Some p)"
      have "hear_manager m' (announced (the_daemon (mgr_world m)) (the_daemon (mgr_world m'))) ?call =
          call\<lparr>wait_closure := ?c\<rparr>"
      proof (cases "given = []")
        case True
        have "hear_manager m' (announced (the_daemon (mgr_world m)) (the_daemon (mgr_world m'))) ?call =
          (case awaited_path m' ?call of None \<Rightarrow> ?call | Some p \<Rightarrow> answer_path ?call (Some p))"
          by (rule event_heard [OF Cons.prems(1) m' env(1) manager_step_speaks [OF env Cons.prems(1) Inr]])
            (use kind Cons.prems True in simp_all)
        with True show ?thesis by (simp add: answer_path_def split: option.split)
      next
        case False
        with Cons.prems(3) show ?thesis by (simp add: hear_manager_def not_listening)
      qed
      then have step: "service_step env (m, ?call) e = Inr (m', call\<lparr>wait_closure := ?c\<rparr>)"
        by (simp add: ManagerGets Inr)
      have "answers_of (run_steps (service_step env) (m', call\<lparr>wait_closure := ?c\<rparr>) es) =
        service_answer env call ended (replies ?c) m' es"
        by (rule Cons.IH [OF m'])
          (use Cons.prems in \<open>auto simp: on_closure_published_def split: option.splits\<close>)
      moreover have "replies ?c = (if given \<noteq> [] then given
             else case awaited_path m' call of Some p \<Rightarrow> [Return [p]] | None \<Rightarrow> [])"
        using Cons.prems(4) by (auto simp: on_closure_published_def split: option.split)
      ultimately show ?thesis by (simp only: run_steps.simps step sum.case) (simp add: ManagerGets Inr)
    qed
  next
    case (CallersJobEnds success msg)
    have es: "list_all service_paths es" using Cons.prems(2) by simp
    note IH = Cons.IH [OF Cons.prems(1) es]
    consider (ended) "ended" | (success) "\<not> ended" success | (late) "\<not> ended" "\<not> success" "given \<noteq> []"
      | (fails) "\<not> ended" "\<not> success" "given = []" by blast
    then show ?thesis
    proof cases
      case ended
      then have "service_step env (m, ?call) e = Inr (m, ?call)"
        using Cons.prems(5) by (simp add: CallersJobEnds on_job_of_call_def)
      with IH [of c given ended] Cons.prems ended show ?thesis by (simp add: CallersJobEnds)
    next
      case success
      let ?c = "c\<lparr>job_done := True\<rparr>"
      have "service_step env (m, ?call) e = Inr (m, call\<lparr>wait_closure := ?c\<rparr>)"
        using Cons.prems(5) success
        by (simp add: CallersJobEnds on_job_of_call_eq fail_call_def on_closure_complete_def)
      with IH [of ?c given True] Cons.prems success show ?thesis by (simp add: CallersJobEnds)
    next
      case late
      then have "service_step env (m, ?call) e = Inl (UseAfterFree ''complete->invocation'')"
        using Cons.prems(3,5) by (simp add: CallersJobEnds on_job_of_call_eq fail_call_def on_closure_complete_def Let_def)
      with late show ?thesis by (simp add: CallersJobEnds answers_of_def)
    next
      case fails
      let ?r = "[ReturnError (udisks_error UDISKS_ERROR_FAILED (failure_text (call_kind call) @ msg))]"
      let ?c = "c\<lparr>job_done := True, listening := False, replies := ?r\<rparr>"
      have "service_step env (m, ?call) e = Inr (m, call\<lparr>wait_closure := ?c\<rparr>)"
        using Cons.prems(3-5) fails
        by (simp add: CallersJobEnds on_job_of_call_eq fail_call_def on_closure_complete_def Let_def)
      with IH [of ?c ?r True] Cons.prems fails show ?thesis by (simp add: CallersJobEnds)
    qed
  qed
qed

section \<open>Property\<close>

text \<open>
  C5: A caller who makes or renames a group or a volume, or takes a snapshot, while the object is not
  there, gets exactly what a reader of the manager's table would tell: after the first event that
  leaves the object in the table, its path; or the error of the job, when that fails first; and one
  answer at most. This is so whatever events the manager has had and gets, in whatever order. The
  run is cut short only where the manager's own is, or when the job fails after the answer.
\<close>

theorem callers_follow_table:
  assumes "inj_on escape S" and "[] \<notin> S" and "names_from S env"
    and "list_all udisks_paths before"
    and "run_steps (manager_step env) (storage_manager_new (storage_daemon_init per dir)) before = Inr m"
    and "list_all service_paths es" and "kind \<noteq> VolumeActivated"
    and "awaited_path m (waiting_new kind t name) = None"
  shows "answers_of (run_steps (service_step env) (m, waiting_new kind t name) es) =
    service_answer env (waiting_new kind t name) False [] m es"
proof -
  have m: "groups_ok S m" using mg.run_keeps [OF _ assms(4,5), of S] assms(1-3) groups_ok_start by blast
  have "(waiting_new kind t name)\<lparr>wait_closure := closure_new\<rparr> = waiting_new kind t name" by (simp add: waiting_new_def)
  moreover have "answers_of (run_steps (service_step env) (m, (waiting_new kind t name)\<lparr>wait_closure := closure_new\<rparr>) es) =
      service_answer env (waiting_new kind t name) False [] m es"
    by (rule service_run [OF assms(1-3) m assms(6)]) (use assms(7,8) in \<open>simp_all add: waiting_new_def closure_new_def\<close>)
  ultimately show ?thesis by simp
qed

text \<open>The group of the demonstration is created: its job ends, LVM lists it, and its helper answers.\<close>

lemma callers_follow_table_witness:
  "answers_of (run_steps (service_step one_group)
       (storage_manager_new (storage_daemon_init True None), waiting_new GroupCreated None (Some ''vg0''))
       (CallersJobEnds True [] # map ManagerGets (start_up @ [GroupDone 0 0 (ReaderData [])]))) =
     Inr [Return [group_path ''vg0'']]"
proof -
  let ?m = "storage_manager_new (storage_daemon_init True None)" and ?call = "waiting_new GroupCreated None (Some ''vg0'')"
  let ?es = "CallersJobEnds True [] # map ManagerGets (start_up @ [GroupDone 0 0 (ReaderData [])])"
  have new: "awaited_path ?m ?call = None"
    by (simp add: awaited_path_def waiting_new_def storage_manager_new_def ht_lookup_def)
  have names: "names_from {''vg0''} one_group"
    by (simp add: names_from_def one_group_def dicts_of_def lookup_defs)
  have "service_answer one_group ?call False [] ?m ?es = Inr [Return [group_path ''vg0'']]"
    by (simp add: manager_eval published_group_def volume_group_update_props_def dicts_of_def lookup_defs
        update_all_blocks_def read_physical_volumes_def lvm_vg_update_done_def lvm_update_done_def
        trigger_delayed_lvm_update_def awaited_path_def waiting_new_def)
  with callers_follow_table [of "{''vg0''}" one_group "[]" True None ?m ?es GroupCreated None "Some ''vg0''"] names new
  show ?thesis by simp
qed

end
