(* ===== verification/Jobs_Apart.thy ===== *)
theory Jobs_Apart
  imports Service_Run
begin

text \<open>
  What the manager does leaves the jobs of the daemon where they are: its events publish and withdraw
  groups, volumes and interfaces of blocks, and report progress to jobs, so that the invariant of the
  daemon is kept.
\<close>

section \<open>Jobs that only make progress\<close>

definition job_type :: "gtype \<Rightarrow> bool" where
  "job_type ty \<longleftrightarrow> ty = StorageSpawnedJob \<or> ty = StorageThreadedJob"

definition like_job :: "thing \<times> any_job \<Rightarrow> thing \<times> any_job \<Rightarrow> bool" where
  "like_job tj tj' \<longleftrightarrow>
     fst tj' = fst tj \<and> job_completions (snd tj') = job_completions (snd tj) \<and>
     (\<forall>c. job_good c (snd tj) \<longrightarrow> job_good c (snd tj'))"

abbreviation like_jobs :: "(thing \<times> any_job) list \<Rightarrow> (thing \<times> any_job) list \<Rightarrow> bool" where
  "like_jobs \<equiv> list_all2 like_job"

lemma like_job_refl [simp]: "like_job tj tj"
  by (simp add: like_job_def)

lemma like_jobs_refl [simp]: "like_jobs js js"
  by (simp add: list.rel_refl)

lemma like_jobs_trans: "like_jobs js ks \<Longrightarrow> like_jobs ks ls \<Longrightarrow> like_jobs js ls"
  by (rule list_all2_trans [of like_job like_job like_job]) (auto simp: like_job_def)

lemma set_progress_frame:
  assumes "set_progress now p j = Inr j'"
  obtains a b c e v where
    "j' = j\<lparr>progress := a, samples := b, rate := c, expected_end_time := e, progress_valid := v\<rparr>"
proof -
  have "\<exists>b c e. on_notify_progress k now = Inr k' \<longrightarrow>
      k' = k\<lparr>samples := b, rate := c, expected_end_time := e\<rparr>" for k k' :: "'a job_scheme"
  proof (cases "on_notify_progress k now = Inr k'")
    case True
    then obtain s where "samples k = Some s" by (cases "samples k") (auto simp: on_notify_progress_def)
    from notify_progress_samples [OF this, of now] True show ?thesis by (metis sum.inject(2))
  qed simp
  then obtain b c e where n: "\<And>k' :: 'a job_scheme. on_notify_progress (j\<lparr>progress := p\<rparr>) now = Inr k' \<Longrightarrow>
      k' = j\<lparr>progress := p, samples := b k', rate := c k', expected_end_time := e k'\<rparr>"
    by metis
  show thesis
  proof (cases "handler_connected j")
    case True
    then obtain k where k: "on_notify_progress (j\<lparr>progress := p\<rparr>) now = Inr k" "j' = k\<lparr>progress_valid := True\<rparr>"
      using assms by (auto simp: set_progress_def Let_def ebind_Inr)
    have "j' = (j\<lparr>progress := p, samples := b k, rate := c k, expected_end_time := e k\<rparr>)\<lparr>progress_valid := True\<rparr>"
      using n [OF k(1)] k(2) by (rule subst)
    then show thesis by (intro that) simp
  next
    case False
    then have "j' = j\<lparr>progress := p, samples := samples j, rate := rate j, expected_end_time := expected_end_time j,
        progress_valid := True\<rparr>"
      using assms by (auto simp: set_progress_def Let_def ebind_Inr)
    then show thesis by (rule that)
  qed
qed

lemma in_phase_progress:
  "in_phase ph (j\<lparr>progress := a, samples := b, rate := c, expected_end_time := e, progress_valid := v\<rparr>) = in_phase ph j"
  by (cases ph) (simp_all add: phase_defs)

lemma threaded_ok_progress:
  "threaded_ok f (j\<lparr>progress := a, samples := b, rate := c, expected_end_time := e, progress_valid := v\<rparr>) =
   threaded_ok f j"
  by (cases "phase j") (simp_all add: threaded_ok_def)

lemma report_progress_same: "report_progress now p j = Inr j' \<Longrightarrow> like_job (t, j) (t, j')"
proof (cases j)
  case (SpawnedJob k)
  assume "report_progress now p j = Inr j'"
  then obtain k' where "set_progress now p k = Inr k'" "j' = SpawnedJob k'"
    using SpawnedJob by (cases "set_progress now p k") auto
  then show ?thesis
    by (elim set_progress_frame) (auto simp: like_job_def SpawnedJob in_phase_progress)
next
  case (ThreadedJob k)
  assume "report_progress now p j = Inr j'"
  then obtain k' where "set_progress now p k = Inr k'" "j' = ThreadedJob k'"
    using ThreadedJob by (cases "set_progress now p k") auto
  then show ?thesis
    by (elim set_progress_frame) (auto simp: like_job_def ThreadedJob threaded_ok_progress)
qed

lemma like_job_trans: "like_job (t, i) (t, j) \<Longrightarrow> like_job (t, j) (t, k) \<Longrightarrow> like_job (t, i) (t, k)"
  by (simp add: like_job_def)

lemma report_objects_same: "report_objects now bs dev p paths j = Inr j' \<Longrightarrow> like_job (t, j) (t, j')"
proof (induction paths arbitrary: j)
  case (Cons path paths)
  obtain j1 where j1: "(case ht_lookup bs path of
       Some b \<Rightarrow> if is_device b dev then report_progress now p j else Inr j
     | None \<Rightarrow> Inr j) = Inr j1" and rest: "report_objects now bs dev p paths j1 = Inr j'"
    using Cons.prems by (auto simp: ebind_Inr)
  have "like_job (t, j) (t, j1)" using j1 by (auto dest: report_progress_same split: option.splits if_splits)
  with Cons.IH [OF rest] show ?case by (blast intro: like_job_trans)
qed simp

lemma set_job_same:
  assumes "distinct (map fst js)" and "map_of js t = Some j" and "like_job (t, j) (t, j')"
  shows "like_jobs js (set_job t j' js)"
proof -
  have "like_job tj (case tj of (u, k) \<Rightarrow> if u = t then (u, j') else (u, k))" if tj: "tj \<in> set js" for tj
  proof (cases tj)
    case (Pair u k)
    then have "map_of js u = Some k" using assms(1) tj by simp
    with Pair assms(2,3) show ?thesis by auto
  qed
  then show ?thesis by (auto simp: set_job_def list_all2_conv_all_nth)
qed

section \<open>Changes of the daemon beside its jobs\<close>

text \<open>
  Groups, volumes and the interfaces of blocks come and go, the last only at paths of blocks; all
  other things stay as they are, also in the order they have at their path.
\<close>

definition bus_type :: "gtype \<Rightarrow> bool" where
  "bus_type ty \<longleftrightarrow> lvm_type ty \<or> block_type ty"

definition others_at :: "daemon \<Rightarrow> string \<Rightarrow> thing list" where
  "others_at d p =
     filter (\<lambda>t. \<not> bus_type (thing_type t)) (case ht_lookup (objects d) p of None \<Rightarrow> [] | Some ifs \<Rightarrow> ifs)"

definition off_jobs :: "daemon \<Rightarrow> daemon \<Rightarrow> bool" where
  "off_jobs d d' \<longleftrightarrow>
     job_id d' = job_id d \<and> num_jobs d' = num_jobs d \<and> num_clients d' = num_clients d \<and>
     next_thing d \<le> next_thing d' \<and> like_jobs (jobs d) (jobs d') \<and>
     (\<forall>p. others_at d' p = others_at d p) \<and>
     (\<forall>t p. block_type (thing_type t) \<longrightarrow> \<not> block_path p \<longrightarrow> t \<in> interfaces_at d' p \<longrightarrow> t \<in> interfaces_at d p)"

lemma off_jobs_same:
  "objects d' = objects d \<Longrightarrow> job_id d' = job_id d \<Longrightarrow> num_jobs d' = num_jobs d \<Longrightarrow>
   num_clients d' = num_clients d \<Longrightarrow> next_thing d \<le> next_thing d' \<Longrightarrow> like_jobs (jobs d) (jobs d') \<Longrightarrow> off_jobs d d'"
  by (simp add: off_jobs_def others_at_def interfaces_at_def)

lemma off_jobs_refl [simp]: "off_jobs d d"
  by (simp add: off_jobs_same)

lemma off_jobs_trans: "off_jobs d e \<Longrightarrow> off_jobs e f \<Longrightarrow> off_jobs d f"
  unfolding off_jobs_def by (auto intro: like_jobs_trans)

lemma off_jobs_keys: "off_jobs d d' \<Longrightarrow> map fst (jobs d') = map fst (jobs d)"
  by (auto simp: off_jobs_def list_all2_conv_all_nth like_job_def intro: nth_equalityI)

lemma bus_type_iface:
  "bus_type (thing_type t) \<Longrightarrow> iface_name i = iface_name t \<Longrightarrow> bus_type (thing_type i)"
  by (cases "thing_type t"; cases "thing_type i") (simp_all add: bus_type_def lvm_type_def block_type_def)

lemma others_publish:
  assumes "is_dbus_interface t" and "bus_type (thing_type t)"
  shows "others_at (publish_at d p t) q = others_at d q"
proof -
  have "filter (\<lambda>t. \<not> bus_type (thing_type t)) (add_interface ifs t) = filter (\<lambda>t. \<not> bus_type (thing_type t)) ifs" for ifs
    using assms(2) bus_type_iface [OF assms(2)] by (auto simp: add_interface_def intro!: filter_cong)
  with assms show ?thesis
    by (auto simp: others_at_def publish_def Let_def ht.lookup_ins add_interface_def split: option.splits)
qed

lemma others_unpublish:
  assumes "bus_type (thing_type t)"
  shows "others_at (unpublish_at d p t) q = others_at d q"
proof -
  have "filter (\<lambda>u. \<not> bus_type (thing_type u)) (filter (\<lambda>i. i \<noteq> t) ifs) = filter (\<lambda>u. \<not> bus_type (thing_type u)) ifs" for ifs
    using assms by (auto intro!: filter_cong)
  moreover have "filter (\<lambda>u. \<not> bus_type (thing_type u)) ifs = []" if "\<forall>i \<in> set ifs. i = t" for ifs
    using assms that by (auto simp: filter_empty_conv)
  ultimately show ?thesis
    by (auto simp: others_at_def unpublish_def ht.lookup_ins ht.lookup_rem split: option.splits)
qed

lemma off_jobs_publish:
  assumes "is_dbus_interface t" and "bus_type (thing_type t)" and "lvm_type (thing_type t) \<or> block_path p"
  shows "off_jobs d (publish_at d p t)"
  using assms
  by (auto simp: off_jobs_def others_publish interfaces_at_publish block_type_def lvm_type_def)

lemma unpublish_frame [simp]:
  fixes d :: daemon
  shows "job_id (unpublish_at d p t) = job_id d" "num_jobs (unpublish_at d p t) = num_jobs d"
    "num_clients (unpublish_at d p t) = num_clients d"
  by (auto simp: unpublish_def split: option.splits)

lemma bus_type_dbus: "bus_type (thing_type t) \<Longrightarrow> is_dbus_interface t"
  by (auto simp: bus_type_def lvm_type_def block_type_def is_dbus_interface_def)

lemma off_jobs_unpublish: "bus_type (thing_type t) \<Longrightarrow> off_jobs d (unpublish_at d p t)"
  by (auto simp: off_jobs_def others_unpublish interfaces_at_unpublish bus_type_dbus)

lemma off_jobs_new [simp]: "off_jobs d (fst (new_thing d ty))"
  by (simp add: off_jobs_same new_thing_def)

lemma off_jobs_publish_new:
  assumes "bus_type ty" and "lvm_type ty \<or> block_path p"
  shows "off_jobs d (publish_at (fst (new_thing d ty)) p (snd (new_thing d ty)))"
  by (rule off_jobs_trans [OF off_jobs_new off_jobs_publish])
    (use assms bus_type_dbus in \<open>simp_all add: new_thing_def\<close>)

section \<open>The events of the manager\<close>

subsection \<open>Blocks\<close>

definition fine :: "block \<Rightarrow> bool" where
  "fine b \<longleftrightarrow> block_types_ok b \<and> block_path (blk_path b)"

abbreviation all_fine :: "block htab \<Rightarrow> bool" where
  "all_fine bs \<equiv> \<forall>(k, b) \<in> set bs. fine b"

lemma world_fine: "world_ok w \<Longrightarrow> all_fine (the_blocks w)"
  by (force simp: world_ok_def blocks_ok_def block_ok_def fine_def)

lemma off_drop:
  assumes "fine b"
  shows "drop_physical_volume d b = (d', b') \<Longrightarrow> off_jobs d d' \<and> fine b'"
    and "drop_logical_volume d b = (d', b') \<Longrightarrow> off_jobs d d' \<and> fine b'"
  using assms
  by (auto simp: drop_physical_volume_def drop_logical_volume_def fine_def block_types_ok_def bus_type_def block_type_def
      intro!: off_jobs_unpublish split: option.splits)

lemma off_dispose_block: "fine b \<Longrightarrow> off_jobs d (fst (storage_block_dispose d b))"
proof -
  assume b: "fine b"
  obtain d1 b1 where 1: "drop_physical_volume d b = (d1, b1)" by fastforce
  obtain d2 b2 where 2: "drop_logical_volume d1 b1 = (d2, b2)" by fastforce
  from off_drop(1) [OF b 1] off_drop(2) [OF _ 2] show ?thesis
    by (auto simp: storage_block_dispose_def 1 2 intro: off_jobs_trans)
qed

lemma off_update_lv: "fine b \<Longrightarrow> storage_block_update_lv d b lv = (d', b') \<Longrightarrow> off_jobs d d' \<and> fine b'"
  using off_drop(2) [of b d d' b'] off_jobs_publish_new [of LvmLogicalVolumeBlockSkeleton "blk_path b" d]
  by (auto simp: storage_block_update_lv_def Let_def split_beta fine_def block_types_ok_def new_thing_def bus_type_def
      block_type_def split: option.splits)

lemma off_update_pv: "fine b \<Longrightarrow> storage_block_update_pv d b g info = (d', b') \<Longrightarrow> off_jobs d d' \<and> fine b'"
  using off_drop(1) [of b d d' b'] off_jobs_publish_new [of StoragePhysicalVolume "blk_path b" d]
  by (auto simp: storage_block_update_pv_def Let_def split_beta fine_def block_types_ok_def new_thing_def bus_type_def
      block_type_def storage_physical_volume_new_def storage_physical_volume_update_def split: option.splits)

lemma off_update_block:
  assumes "fine b" and "storage_volume_group_update_block g d b = Inr (d', b')"
  shows "off_jobs d d' \<and> fine b'"
proof -
  obtain d1 b1 where 1: "update_block_lv g d b = Inr (d1, b1)" and 2: "update_block_pv g d1 b1 = (d', b')"
    using assms(2) by (auto simp: storage_volume_group_update_block_def ebind_Inr)
  have "off_jobs d d1 \<and> fine b1"
    using 1 assms(1) off_update_lv [OF assms(1)] by (auto simp: update_block_lv_def split: if_splits option.splits)
  moreover from this have "off_jobs d1 d' \<and> fine b'"
    using 2 off_update_pv [of b1 d1] by (auto simp: update_block_pv_def split: if_splits option.splits)
  ultimately show ?thesis by (blast intro: off_jobs_trans)
qed

lemma off_each_block:
  "all_fine bs \<Longrightarrow> each_block (storage_volume_group_update_block g) d bs = Inr (d', bs') \<Longrightarrow>
   off_jobs d d' \<and> all_fine bs'"
proof (induction bs arbitrary: d bs')
  case (Cons kb bs)
  obtain k b where kb: "kb = (k, b)" by (cases kb)
  obtain d1 b1 bs2 where 1: "storage_volume_group_update_block g d b = Inr (d1, b1)"
    and r: "each_block (storage_volume_group_update_block g) d1 bs = Inr (d', bs2)" "bs' = (k, b1) # bs2"
    using Cons.prems(2) by (auto simp: kb ebind_Inr)
  have "fine b" "all_fine bs" using Cons.prems(1) by (auto simp: kb)
  with off_update_block [OF _ 1] Cons.IH [OF _ r(1)] show ?case by (auto simp: r(2) intro: off_jobs_trans)
qed simp

abbreviation off_world :: "world \<Rightarrow> world \<Rightarrow> bool" where
  "off_world w w' \<equiv> off_jobs (the_daemon w) (the_daemon w') \<and> all_fine (the_blocks w')"

lemma off_all_blocks: "all_fine (the_blocks w) \<Longrightarrow> update_all_blocks g w = Inr w' \<Longrightarrow> off_world w w'"
  using off_each_block [of "the_blocks w" g "the_daemon w"] by (fastforce simp: update_all_blocks_def ebind_Inr)

subsection \<open>A group\<close>

text \<open>The instances of a group are of the types of groups and volumes.\<close>

definition typed :: "volume_group \<Rightarrow> bool" where
  "typed g \<longleftrightarrow> thing_type (vgo_thing g) = StorageVolumeGroup \<and>
     (\<forall>(k, v) \<in> set (logical_volumes g). thing_type (lvo_thing v) = StorageLogicalVolume)"

lemma lvm_bus_type: "lvm_type ty \<Longrightarrow> bus_type ty"
  by (simp add: bus_type_def)

lemma off_report_jobs:
  "distinct (map fst (jobs d)) \<Longrightarrow> report_jobs now bs op dev p ts d = Inr d' \<Longrightarrow> off_jobs d d'"
proof (induction ts arbitrary: d)
  case (Cons t ts)
  obtain d1 where 1: "(case find_job d t of
              None \<Rightarrow> Inr d
            | Some job \<Rightarrow>
                if fst (job_about job) \<noteq> op then Inr d
                else ebind (report_objects now bs dev p (snd (job_about job)) job)
                  (\<lambda>job. Inr (d\<lparr>jobs := set_job t job (jobs d)\<rparr>))) = Inr d1"
    and rest: "report_jobs now bs op dev p ts d1 = Inr d'"
    using Cons.prems(2) by (auto simp: ebind_Inr)
  have off: "off_jobs d d1"
    using 1 Cons.prems(1)
    by (auto simp: ebind_Inr find_job_def split: option.splits if_splits
        intro!: off_jobs_same set_job_same dest!: report_objects_same)
  from Cons.IH [OF _ rest] off off_jobs_keys [OF off] Cons.prems(1) show ?case by (auto intro: off_jobs_trans)
qed simp

lemma off_operations:
  assumes "distinct (map fst (jobs (the_daemon w)))" and "update_operations now name i w polling = Inr (w', polling')"
  shows "off_jobs (the_daemon w) (the_daemon w') \<and> the_blocks w' = the_blocks w"
  using assms off_report_jobs
  by (fastforce simp: update_operations_def update_progress_for_device_def ebind_Inr split: if_splits option.splits)

lemma off_volume_update:
  assumes "thing_type (lvo_thing v) = StorageLogicalVolume"
    and "storage_logical_volume_update os vs g i d tr np v = (d', tr', np', v')"
  shows "off_jobs d d' \<and> thing_type (lvo_thing v') = StorageLogicalVolume"
proof -
  note f = update_simps [OF assms(2)]
  have t: "is_dbus_interface (lvo_thing v)" "bus_type (thing_type (lvo_thing v))" "lvm_type (thing_type (lvo_thing v))"
    using assms(1) by (simp_all add: is_dbus_interface_def bus_type_def lvm_type_def)
  have "off_jobs d (publish d path False (lvo_thing v))" for path
    using off_jobs_publish [OF t(1,2)] t(3) by (cases path) simp_all
  with f(1,4) assms(1) show ?thesis by simp
qed

lemma set_ht_insert: "set (ht_insert t k v) \<subseteq> insert (k, v) (set t)"
  by (induction t k v rule: ht_insert.induct) auto

lemma off_update_volume:
  assumes "distinct (map fst (jobs (the_daemon w)))" and "typed g"
    and u: "update_volume os now i (w, g, p, ns) = Inr (w', g', p', ns')"
  shows "off_jobs (the_daemon w) (the_daemon w') \<and> the_blocks w' = the_blocks w \<and> typed g'"
proof -
  obtain name where name: "lookup_s i ''name'' = Some name"
    using u by (auto simp: update_volume_def split: option.splits)
  obtain w1 p1 where o: "update_operations now name i w p = Inr (w1, p1)"
    using u by (auto simp: update_volume_def name ebind_Inr)
  note off = off_operations [OF assms(1) o]
  show ?thesis
  proof (cases "lv_is_visible name")
    case False
    with u name o off assms(2) show ?thesis by (auto simp: update_volume_def Let_def)
  next
    case True
    obtain d1 v where v: "(case ht_lookup (logical_volumes g) name of
         None \<Rightarrow> let (d, t) = new_thing (the_daemon w1) StorageLogicalVolume
                 in (d, storage_logical_volume_new t (vgo_thing g) name)
       | Some volume \<Rightarrow> (the_daemon w1, volume)) = (d1, v)" by fastforce
    obtain d' tr' np' v' where uv: "storage_logical_volume_update os (logical_volumes g) (vgo_thing g) i
        d1 (the_calls w1) (p1 \<or> lv_is_pvmove_volume name) v = (d', tr', np', v')"
      by (metis prod_cases4)
    have eq: "w' = w1\<lparr>the_daemon := d', the_calls := tr'\<rparr>"
        "g' = g\<lparr>logical_volumes := ht_insert (logical_volumes g) name v'\<rparr>"
      using u name o True v uv by (simp_all add: update_volume_def Let_def)
    have d1: "off_jobs (the_daemon w1) d1" "thing_type (lvo_thing v) = StorageLogicalVolume"
      using v assms(2) map_of_SomeD [of "logical_volumes g" name v]
      by (auto simp: new_thing_def typed_def storage_logical_volume_new_def ht_lookup_def off_jobs_same split: option.splits)
    have "typed g'"
      using off_volume_update [OF d1(2) uv] assms(2) set_ht_insert [of "logical_volumes g" name v']
      by (auto simp: eq typed_def)
    with off_volume_update [OF d1(2) uv] d1(1) off show ?thesis
      by (auto simp: eq intro: off_jobs_trans)
  qed
qed

lemma off_update_volumes:
  "distinct (map fst (jobs (the_daemon w))) \<Longrightarrow> typed g \<Longrightarrow>
   update_volumes os now is (w, g, p, ns) = Inr (w', g', p', ns') \<Longrightarrow>
   off_jobs (the_daemon w) (the_daemon w') \<and> the_blocks w' = the_blocks w \<and> typed g'"
proof (induction "is" arbitrary: w g p ns)
  case (Cons i "is")
  obtain w1 g1 p1 ns1 where 1: "update_volume os now i (w, g, p, ns) = Inr (w1, g1, p1, ns1)"
    and rest: "update_volumes os now is (w1, g1, p1, ns1) = Inr (w', g', p', ns')"
    using Cons.prems(3) by (auto simp: ebind_Inr)
  note off = off_update_volume [OF Cons.prems(1,2) 1]
  then have "map fst (jobs (the_daemon w1)) = map fst (jobs (the_daemon w))" by (intro off_jobs_keys) simp
  with Cons.IH [OF _ _ rest] off Cons.prems(1) show ?case by (auto intro: off_jobs_trans)
qed simp

lemma off_dispose_volume:
  "thing_type (lvo_thing v) = StorageLogicalVolume \<Longrightarrow> off_jobs d (fst (storage_logical_volume_dispose d v))"
  by (auto simp: storage_logical_volume_dispose_def Let_def bus_type_def lvm_type_def intro!: off_jobs_unpublish
      split: option.split)

lemma off_dispose_volumes:
  "\<forall>(k, v) \<in> set vs. thing_type (lvo_thing v) = StorageLogicalVolume \<Longrightarrow>
   off_jobs d (fold (\<lambda>(_, v) d. fst (storage_logical_volume_dispose d v)) vs d)"
proof (induction vs arbitrary: d)
  case (Cons kv vs)
  then show ?case by (cases kv) (auto intro: off_jobs_trans [OF off_dispose_volume])
qed simp

lemma off_drop_stale:
  "\<forall>(k, v) \<in> set vs. thing_type (lvo_thing v) = StorageLogicalVolume \<Longrightarrow> drop_stale_volumes ns d vs = (d', vs') \<Longrightarrow>
   off_jobs d d' \<and> set vs' \<subseteq> set vs"
  using off_dispose_volumes [of "filter (\<lambda>kv. fst kv \<notin> ns) vs" d]
  by (auto simp: drop_stale_volumes_eq case_prod_unfold)

lemma typed_props [simp]: "typed (volume_group_update_props g info) = typed g"
  by (simp add: typed_def)

lemma off_published:
  "typed g \<Longrightarrow> published_group w g = (w', g') \<Longrightarrow>
   off_jobs (the_daemon w) (the_daemon w') \<and> the_blocks w' = the_blocks w \<and> typed g'"
  by (auto simp: published_group_def typed_def is_dbus_interface_def bus_type_def lvm_type_def
      intro!: off_jobs_publish split: if_splits)

lemma off_update:
  assumes "distinct (map fst (jobs (the_daemon w)))" and "all_fine (the_blocks w)" and "typed g"
    and u: "update_with_variant os now answer w g = Inr (w', g', called)"
  shows "off_world w w'"
proof (cases answer)
  case (Inl e)
  then have "published_group w g = (w', g')" using u by (simp add: update_with_error prod_eq_iff)
  with off_published [OF assms(3)] assms(2) show ?thesis by simp
next
  case (Inr info)
  obtain w1 g1 where 1: "published_group w (volume_group_update_props g info) = (w1, g1)" by fastforce
  have off1: "off_jobs (the_daemon w) (the_daemon w1)" "the_blocks w1 = the_blocks w" "typed g1"
    using off_published [OF _ 1] assms(3) by simp_all
  show ?thesis
  proof (cases "last_info g1 = Some info")
    case True
    with u 1 off1 assms(2) show ?thesis by (auto simp: Inr update_with_variant_eq)
  next
    case False
    from u False 1 obtain w2 g2 p2 ns2 where
        2: "update_volumes os now (dicts_of info ''lvs'') (w1, g1\<lparr>last_info := Some info\<rparr>, False, []) = Inr (w2, g2, p2, ns2)"
      and rest: "(let (d, vs) = drop_stale_volumes (set ns2) (the_daemon w2) (logical_volumes g2);
           g = g2\<lparr>logical_volumes := vs, needs_polling := p2,
                 physical_volumes := read_physical_volumes (dicts_of info ''pvs'')\<rparr>
         in ebind (update_all_blocks g (w2\<lparr>the_daemon := d\<rparr>)) (\<lambda>w. Inr (w, g, True))) = Inr (w', g', called)"
      by (auto simp: Inr update_with_variant_eq ebind_Inr)
    have "distinct (map fst (jobs (the_daemon w1)))" using off_jobs_keys [OF off1(1)] assms(1) by simp
    moreover have "typed (g1\<lparr>last_info := Some info\<rparr>)" using off1(3) by (simp add: typed_def)
    ultimately have off2: "off_jobs (the_daemon w1) (the_daemon w2)" "the_blocks w2 = the_blocks w1" "typed g2"
      using off_update_volumes [OF _ _ 2] by simp_all
    obtain d vs where 3: "drop_stale_volumes (set ns2) (the_daemon w2) (logical_volumes g2) = (d, vs)" by fastforce
    have off3: "off_jobs (the_daemon w2) d" using off_drop_stale [OF _ 3] off2(3) by (simp add: typed_def)
    obtain g3 where "update_all_blocks g3 (w2\<lparr>the_daemon := d\<rparr>) = Inr w'"
      using rest by (auto simp: 3 Let_def ebind_Inr)
    from off_all_blocks [OF _ this] off1 off2 off3 assms(2) show ?thesis by (auto intro: off_jobs_trans)
  qed
qed

lemma off_dispose:
  assumes "all_fine (the_blocks w)" and g: "typed g" and u: "storage_volume_group_dispose w g = Inr (w', g')"
  shows "off_world w w'"
proof -
  let ?d = "fold (\<lambda>(_, v) d. fst (storage_logical_volume_dispose d v)) (logical_volumes g) (the_daemon w)"
  obtain w1 h where 1: "update_all_blocks h (w\<lparr>the_daemon := ?d\<rparr>) = Inr w1"
    and w': "w' = (case path_of (the_daemon w1) (vgo_thing g) of
         None \<Rightarrow> w1 | Some path \<Rightarrow> w1\<lparr>the_daemon := unpublish_at (the_daemon w1) path (vgo_thing g)\<rparr>)"
    using u by (auto simp: storage_volume_group_dispose_def Let_def ebind_Inr split: option.splits)
  have "off_jobs (the_daemon w) ?d" using g by (intro off_dispose_volumes) (simp add: typed_def)
  moreover have "off_world (w\<lparr>the_daemon := ?d\<rparr>) w1" using off_all_blocks [OF _ 1] assms(1) by simp
  moreover have "off_jobs d (unpublish_at d path (vgo_thing g))" for d path
    using g by (intro off_jobs_unpublish) (simp add: typed_def bus_type_def lvm_type_def)
  ultimately show ?thesis by (auto simp: w' intro: off_jobs_trans split: option.splits)
qed

subsection \<open>The manager\<close>

abbreviation manager_daemon :: "manager \<Rightarrow> daemon" where
  "manager_daemon m \<equiv> the_daemon (mgr_world m)"

lemma in_place_typed: "in_place S d g \<Longrightarrow> typed g"
  by (auto simp: in_place_def group_ok_def group_new_def volume_ok_def typed_def ht_wf_def ht_lookup_def)

lemma gone_typed: "gone d z \<Longrightarrow> typed z"
  by (auto simp: gone_def typed_def ht_wf_def ht_lookup_def)

lemma groups_fine: "groups_ok S m \<Longrightarrow> all_fine (the_blocks (mgr_world m))"
  by (intro world_fine) (simp add: groups_ok_def family_ok_def)

lemma groups_typed:
  assumes "groups_ok S m"
  shows "(k, g) \<in> set (name_to_volume_group m) \<Longrightarrow> typed g" and "z \<in> set (dropped_groups m) \<Longrightarrow> typed z"
proof -
  show "(k, g) \<in> set (name_to_volume_group m) \<Longrightarrow> typed g"
    by (rule in_place_typed [OF entry_state(4) [OF assms]])
  show "z \<in> set (dropped_groups m) \<Longrightarrow> typed z"
    using assms by (intro gone_typed [of "manager_daemon m"]) (simp add: groups_ok_def family_ok_def)
qed

lemma off_remove_obsolete:
  "all_fine (the_blocks w) \<Longrightarrow> \<forall>(k, g) \<in> set gs. typed g \<Longrightarrow>
   remove_obsolete_groups names w gs = Inr (w', gs', dropped) \<Longrightarrow> off_world w w'"
proof (induction gs arbitrary: w gs' dropped)
  case (Cons kg gs)
  obtain k g where kg: "kg = (k, g)" by (cases kg)
  show ?case
  proof (cases "k \<in> names")
    case True
    then obtain gs2 where "remove_obsolete_groups names w gs = Inr (w', gs2, dropped)"
      using Cons.prems(3) by (auto simp: kg ebind_Inr)
    from Cons.IH [OF Cons.prems(1) _ this] Cons.prems(2) show ?thesis by simp
  next
    case False
    then obtain w1 g1 dr where d: "storage_volume_group_dispose w g = Inr (w1, g1)"
      and r: "remove_obsolete_groups names w1 gs = Inr (w', gs', dr)"
      using Cons.prems(3) by (auto simp: kg ebind_Inr)
    have off: "off_world w w1" using Cons.prems(2) by (intro off_dispose [OF Cons.prems(1) _ d]) (simp add: kg)
    with Cons.IH [OF _ _ r] Cons.prems(2) show ?thesis by (auto intro: off_jobs_trans)
  qed
qed simp

lemma off_add_group: "add_group name m = (m', g) \<Longrightarrow> off_jobs (manager_daemon m) (manager_daemon m')"
  by (auto simp: add_group_def Let_def new_thing_def off_jobs_same split: option.splits)

lemma off_listed_group:
  assumes m: "groups_ok S m" and name: "name \<in> S" "name \<noteq> []" and js: "distinct (map fst (jobs (manager_daemon m)))"
    and u: "update_listed_group env now spawn u ignore_locks name m = Inr m'"
  shows "off_jobs (manager_daemon m) (manager_daemon m')"
proof -
  obtain m1 g where a: "add_group name m = (m1, g)" by fastforce
  note add = add_group_ok [OF m name a] and off = off_add_group [OF a]
  let ?m = "m1\<lparr>update_datas := count_pending u 1 (update_datas m1)\<rparr>"
  show ?thesis
  proof (cases "storage_daemon_spawn_for_variant (env_lib env) (env_data env) (the_daemon (mgr_world ?m)) spawn
      (storage_volume_group_update g ignore_locks)")
    case (Inr r)
    with u a off show ?thesis by (auto simp: update_listed_group_def Let_def)
  next
    case (Inl failure)
    with u a obtain w g' called where v: "update_with_variant (env_os env) now (answer_of env failure) (mgr_world m1) g =
        Inr (w, g', called)"
      and m': "(if called then lvm_vg_update_done u (?m\<lparr>mgr_world := w,
          name_to_volume_group := ht_insert (name_to_volume_group m1) name g'\<rparr>)
        else Inr (?m\<lparr>mgr_world := w, name_to_volume_group := ht_insert (name_to_volume_group m1) name g'\<rparr>)) = Inr m'"
      by (auto simp: update_listed_group_def Let_def ebind_Inr)
    have "distinct (map fst (jobs (manager_daemon m1)))" using off_jobs_keys [OF off] js by simp
    then have "off_world (mgr_world m1) w"
      using add groups_fine [of S m1] groups_typed(1) [of S m1 name g] by (intro off_update [OF _ _ _ v]) simp_all
    moreover have "mgr_world m' = w" using m' by (auto dest: vg_done_world split: if_splits)
    ultimately show ?thesis using off by (auto intro: off_jobs_trans)
  qed
qed

lemma off_listed_groups:
  "groups_ok S m \<Longrightarrow> inj_on escape S \<Longrightarrow> set names \<subseteq> S \<Longrightarrow> [] \<notin> S \<Longrightarrow> distinct (map fst (jobs (manager_daemon m))) \<Longrightarrow>
   update_listed_groups env now spawn u ignore_locks names m = Inr m' \<Longrightarrow> off_jobs (manager_daemon m) (manager_daemon m')"
proof (induction names arbitrary: m)
  case (Cons name names)
  then obtain m1 where 1: "update_listed_group env now spawn u ignore_locks name m = Inr m1"
    and rest: "update_listed_groups env now spawn u ignore_locks names m1 = Inr m'"
    by (auto simp: ebind_Inr)
  have name: "name \<in> S" "name \<noteq> []" using Cons.prems(3,4) by auto
  have off: "off_jobs (manager_daemon m) (manager_daemon m1)" by (rule off_listed_group [OF Cons.prems(1) name Cons.prems(5) 1])
  have "groups_ok S m1" using update_listed_group_family [OF Cons.prems(1,2) name 1] .
  from Cons.IH [OF this Cons.prems(2) _ Cons.prems(4) _ rest] off off_jobs_keys [OF off] Cons.prems(3,5)
  show ?case by (auto intro: off_jobs_trans)
qed simp

lemma done_world [simp]: "mgr_world (lvm_update_done u d m) = mgr_world m"
  by (simp add: lvm_update_done_def trigger_delayed_lvm_update_def Let_def)

lemma off_list_answer:
  assumes m: "groups_ok S m" and inj: "inj_on escape S" and S: "[] \<notin> S" and names: "good_names S answer"
    and js: "distinct (map fst (jobs (manager_daemon m)))"
    and u: "lvm_update_from_variant env now spawn u answer m = Inr m'"
  shows "off_jobs (manager_daemon m) (manager_daemon m')"
proof (cases answer)
  case (Inl e)
  with u show ?thesis by (simp add: lvm_update_from_variant_def)
next
  case (Inr ns)
  let ?t = "name_to_volume_group m"
  obtain data where d: "map_of (update_datas m) u = Some data"
    using u by (auto simp: lvm_update_from_variant_def Inr split: option.splits)
  obtain w gs dropped m1 where 1: "remove_obsolete_groups (set ns) (mgr_world m) ?t = Inr (w, gs, dropped)"
    and 2: "update_listed_groups env now spawn u (upd_ignore_locks data) ns
      (m\<lparr>mgr_world := w, name_to_volume_group := gs, dropped_groups := dropped_groups m @ dropped\<rparr>) = Inr m1"
    and m': "(case map_of (update_datas m1) u of
        None \<Rightarrow> Inl (UseAfterFree ''data->pending_vg_updates'')
      | Some data \<Rightarrow> Inr (if pending_vg_updates data = 0 then lvm_update_done u data m1 else m1)) = Inr m'"
    using u by (auto simp: lvm_update_from_variant_def Inr d ebind_Inr)
  have off: "off_world (mgr_world m) w"
    using groups_typed(1) [OF m] by (intro off_remove_obsolete [OF groups_fine [OF m] _ 1]) blast
  have t: "distinct (map fst ?t)" "\<forall>(k, g) \<in> set ?t. vgo_name g = k"
      "family_ok S (mgr_world m) ({} \<union> snd ` set ?t) (set (dropped_groups m))"
    using m by (simp_all add: groups_ok_def ht_wf_def)
  note r = remove_obsolete_groups_ok [OF t(3) inj t(1,2) _ 1]
  have ok: "groups_ok S (m\<lparr>mgr_world := w, name_to_volume_group := gs, dropped_groups := dropped_groups m @ dropped\<rparr>)"
    using r t(1,2) by (auto simp: groups_ok_def ht_wf_def distinct_map_filter)
  have "map fst (jobs (the_daemon w)) = map fst (jobs (manager_daemon m))" using off by (intro off_jobs_keys) simp
  then have "off_jobs (the_daemon w) (manager_daemon m1)"
    using off_listed_groups [OF ok inj _ S _ 2] names js by (simp add: Inr good_names_def)
  moreover have "mgr_world m' = mgr_world m1" using m' by (auto split: option.splits if_splits)
  ultimately show ?thesis using off by (auto intro: off_jobs_trans)
qed

lemma off_lvm_update:
  assumes "groups_ok S m" and "inj_on escape S" and "[] \<notin> S" and js: "distinct (map fst (jobs (manager_daemon m)))"
    and "lvm_update env now spawn ignore_locks task m = Inr m'"
  shows "off_jobs (manager_daemon m) (manager_daemon m')"
proof -
  let ?m = "m\<lparr>next_update := next_update m + 1, update_datas := update_datas m @
      [(next_update m, \<lparr>upd_ignore_locks = ignore_locks, upd_task = task, pending_vg_updates = 0\<rparr>)]\<rparr>"
  have ok: "groups_ok S ?m" using assms(1) by simp
  show ?thesis
  proof (cases "storage_daemon_spawn_for_variant (env_lib env) (env_data env) (the_daemon (mgr_world ?m)) spawn lvm_list_argv")
    case (Inr r)
    with assms(1,5) show ?thesis by (auto simp: lvm_update_def Let_def)
  next
    case (Inl failure)
    then have "lvm_update_from_variant env now spawn (next_update m) (names_of env failure) ?m = Inr m'"
      using assms(5) by (simp add: lvm_update_def Let_def)
    moreover have "good_names S (names_of env failure)"
      using spawn_fails [OF Inl, of S env] by (auto simp: good_names_def split: sum.splits)
    ultimately have "off_jobs (manager_daemon ?m) (manager_daemon m')"
      using js by (intro off_list_answer [OF ok assms(2,3)]) simp_all
    then show ?thesis by simp
  qed
qed

lemma off_group_answer:
  assumes m: "groups_ok S m" and js: "distinct (map fst (jobs (manager_daemon m)))"
    and u: "on_group_answer env now ut answer m = Inr m'"
  shows "off_jobs (manager_daemon m) (manager_daemon m')"
proof -
  obtain g w g' called where g: "typed g"
    and v: "update_with_variant (env_os env) now answer (mgr_world m) g = Inr (w, g', called)"
    and m': "mgr_world m' = w"
  proof (cases "find_group (snd ut) (name_to_volume_group m)")
    case (Some kg)
    obtain k g where kg: "kg = (k, g)" by (cases kg)
    have "typed g" using find_groupD [OF Some [unfolded kg]] groups_typed(1) [OF m] by blast
    moreover obtain w g' called where "update_with_variant (env_os env) now answer (mgr_world m) g = Inr (w, g', called)"
      and m': "(if called then lvm_vg_update_done (fst ut)
          (m\<lparr>mgr_world := w, name_to_volume_group := ht_insert (name_to_volume_group m) k g'\<rparr>)
        else Inr (m\<lparr>mgr_world := w, name_to_volume_group := ht_insert (name_to_volume_group m) k g'\<rparr>)) = Inr m'"
      using u by (auto simp: on_group_answer_def Some kg Let_def ebind_Inr)
    moreover have "mgr_world m' = w" using m' vg_done_world by (cases called) fastforce+
    ultimately show thesis by (intro that)
  next
    case None
    obtain z where f: "find (\<lambda>g. vgo_thing g = snd ut) (dropped_groups m) = Some z"
      using u by (auto simp: on_group_answer_def None Let_def split: option.splits)
    have "typed z" using find_SomeD [OF f] groups_typed(2) [OF m] by blast
    moreover obtain w z' called where "update_with_variant (env_os env) now answer (mgr_world m) z = Inr (w, z', called)"
      and m': "(if called then lvm_vg_update_done (fst ut)
          (m\<lparr>mgr_world := w, dropped_groups := map (\<lambda>h. if vgo_thing h = vgo_thing z' then z' else h) (dropped_groups m)\<rparr>)
        else Inr (m\<lparr>mgr_world := w, dropped_groups :=
            map (\<lambda>h. if vgo_thing h = vgo_thing z' then z' else h) (dropped_groups m)\<rparr>)) = Inr m'"
      using u by (auto simp: on_group_answer_def None f Let_def ebind_Inr)
    moreover have "mgr_world m' = w" using m' vg_done_world by (cases called) fastforce+
    ultimately show thesis by (intro that)
  qed
  from off_update [OF js groups_fine [OF m] g v] m' show ?thesis by simp
qed

lemma off_update_from_groups:
  "fine b \<Longrightarrow> update_block_from_all_volume_groups gs d b = Inr (d', b') \<Longrightarrow> off_jobs d d'"
proof (induction gs d b rule: update_block_from_all_volume_groups.induct)
  case (2 k g gs d b)
  then obtain d1 b1 where 1: "storage_volume_group_update_block g d b = Inr (d1, b1)"
    and rest: "update_block_from_all_volume_groups gs d1 b1 = Inr (d', b')"
    by (auto simp: ebind_Inr)
  from off_update_block [OF 2(2) 1] 2(1) rest show ?case by (auto intro: off_jobs_trans)
qed simp

lemma block_at_fine: "all_fine bs \<Longrightarrow> ht_lookup bs p = Some b \<Longrightarrow> fine b"
  by (auto simp: ht_lookup_def dest: map_of_SomeD)

lemma off_interface_added:
  assumes m: "groups_ok S m" and b: "\<And>b. i = Some b \<Longrightarrow> block_path (blk_path b)"
    and u: "on_udisks_interface_added i m = Inr m'"
  shows "off_jobs (manager_daemon m) (manager_daemon m')"
proof (cases i)
  case None
  with u show ?thesis by (simp add: on_udisks_interface_added_def)
next
  case (Some b)
  let ?w = "mgr_world m" and ?b = "b\<lparr>iface_physical_volume := None, iface_logical_volume := None\<rparr>"
  let ?d = "case ht_lookup (the_blocks ?w) (blk_path b) of
      Some old \<Rightarrow> fst (storage_block_dispose (the_daemon ?w) old) | None \<Rightarrow> the_daemon ?w"
  obtain d' b' where r: "update_block_from_all_volume_groups (name_to_volume_group m) ?d ?b = Inr (d', b')"
    and m': "manager_daemon m' = d'"
    using u by (auto simp: on_udisks_interface_added_def Some Let_def ebind_Inr)
  have "off_jobs (the_daemon ?w) ?d"
    using block_at_fine [OF groups_fine [OF m]] by (auto intro: off_dispose_block split: option.split)
  moreover have "fine ?b" using b Some by (simp add: fine_def block_types_ok_def)
  note off_update_from_groups [OF this r]
  ultimately show ?thesis unfolding m' by (rule off_jobs_trans)
qed

lemma off_object_added:
  "groups_ok S m \<Longrightarrow> (\<And>b. Some b \<in> set is \<Longrightarrow> block_path (blk_path b)) \<Longrightarrow> on_udisks_object_added is m = Inr m' \<Longrightarrow>
   off_jobs (manager_daemon m) (manager_daemon m')"
proof (induction "is" arbitrary: m)
  case (Cons i "is")
  then obtain m1 where 1: "on_udisks_interface_added i m = Inr m1" and rest: "on_udisks_object_added is m1 = Inr m'"
    by (auto simp: ebind_Inr)
  have b: "block_path (blk_path b)" if "i = Some b" for b using Cons.prems(2) that by simp
  have "groups_ok S m1" by (rule interface_added_ok [OF Cons.prems(1) b 1])
  from Cons.IH [OF this _ rest] Cons.prems(2) off_interface_added [OF Cons.prems(1) b 1]
  show ?case by (auto intro: off_jobs_trans)
qed simp

lemma off_object_removed:
  assumes "groups_ok S m"
  shows "off_jobs (manager_daemon m) (manager_daemon (on_udisks_object_removed is m))"
  unfolding on_udisks_object_removed_def
  using groups_fine [OF assms]
proof (induction "is" arbitrary: m)
  case (Cons i "is")
  let ?m = "on_udisks_interface_removed i m"
  have "off_world (mgr_world m) (mgr_world ?m)"
    using Cons.prems block_at_fine [OF Cons.prems]
    by (auto simp: on_udisks_interface_removed_def Let_def ht_remove_def intro: off_dispose_block split: option.split)
  with Cons.IH [of ?m] show ?case by (auto intro: off_jobs_trans)
qed simp

lemma manager_step_off:
  assumes env: "inj_on escape S" "[] \<notin> S" "names_from S env" and m: "groups_ok S m"
    and e: "udisks_paths e" and js: "distinct (map fst (jobs (manager_daemon m)))" and u: "manager_step env m e = Inr m'"
  shows "off_jobs (manager_daemon m) (manager_daemon m')"
proof (cases e)
  case (InitAsync now spawn)
  with u show ?thesis
    using off_lvm_update [OF m env(1,2) js] by (auto simp: storage_manager_init_async_def)
next
  case (ListDone now spawn u' r)
  let ?m = "m\<lparr>list_helpers := filter (\<lambda>v. v \<noteq> u') (list_helpers m)\<rparr>"
  have "groups_ok S ?m" "distinct (map fst (jobs (manager_daemon ?m)))" using m js by simp_all
  from off_list_answer [OF this(1) env(1,2) names_from_answers(1) [OF env(3)] this(2)] u ListDone show ?thesis
    by (fastforce split: if_splits)
next
  case (GroupDone now i r)
  let ?m = "m\<lparr>group_helpers := drop_nth i (group_helpers m)\<rparr>"
  have "groups_ok S ?m" "distinct (map fst (jobs (manager_daemon ?m)))" using m js by simp_all
  from off_group_answer [OF this] u GroupDone show ?thesis by (fastforce split: if_splits)
next
  case (DelayedTimer now spawn)
  with u show ?thesis
    using off_lvm_update [OF m env(1,2) js] by (fastforce simp: delayed_lvm_update_def ebind_Inr split: if_splits)
next
  case (Uevent device real_block)
  with u show ?thesis
    by (auto simp: handle_block_uevent_for_lvm_def trigger_delayed_lvm_update_def)
next
  case (ObjectAdded "is")
  with u e show ?thesis using off_object_added [OF m] by auto
next
  case (ObjectRemoved "is")
  with u show ?thesis using off_object_removed [OF m] by auto
qed

section \<open>The invariant of the jobs\<close>

text \<open>The instances of jobs are of the types of jobs.\<close>

definition jobs_typed :: "daemon \<Rightarrow> bool" where
  "jobs_typed d \<longleftrightarrow> (\<forall>t \<in> fst ` set (jobs d). thing_type t = StorageSpawnedJob \<or> thing_type t = StorageThreadedJob)"

lemma jobs_typed_off: "off_jobs d d' \<Longrightarrow> jobs_typed d \<Longrightarrow> jobs_typed d'"
proof -
  assume off: "off_jobs d d'" and ty: "jobs_typed d"
  have "fst ` set (jobs d') = fst ` set (jobs d)" using off_jobs_keys [OF off] by (metis list.set_map)
  then show "jobs_typed d'" using ty by (simp add: jobs_typed_def)
qed

lemma like_jobs_same: "like_jobs js js' \<Longrightarrow> open_jobs js' = open_jobs js \<and> length js' = length js"
proof (induction js js' rule: list_all2_induct)
  case (Cons x xs y ys)
  then show ?case by (auto simp: open_jobs_def like_job_def job_open_def)
qed simp

lemma like_jobs_mem:
  assumes "like_jobs js js'" and "tj' \<in> set js'"
  obtains tj where "tj \<in> set js" and "like_job tj tj'"
  using assms by (metis list_all2_iff in_set_conv_nth list_all2_nthD2 nth_mem)

lemma job_path_apart [simp]:
  "\<not> block_path (job_path k)" "job_path k \<noteq> group_path n" "job_path k \<noteq> volume_path n v"
proof -
  show "\<not> block_path (job_path k)" by (simp add: block_path_def job_path_def)
  show "job_path k \<noteq> group_path n"
  proof
    assume "job_path k = group_path n"
    then have "take 26 (job_path k) = take 26 (group_path n)" by simp
    then show False by (simp add: job_path_def group_path_def)
  qed
  then have "take 26 (job_path k) \<noteq> take 26 (volume_path n v)" by (simp add: job_path_def volume_path_def group_path_def)
  then show "job_path k \<noteq> volume_path n v" by auto
qed

lemma no_lvm_at_job:
  assumes "groups_ok S m" and "t \<in> interfaces_at (manager_daemon m) (job_path k)"
  shows "\<not> lvm_type (thing_type t)"
  using groups_ok_shown [OF assms(1), of t "job_path k"] assms(2) by (auto simp: shown_def)

lemma others_places: "\<not> bus_type (thing_type t) \<Longrightarrow> p \<in> places (objects d) t \<longleftrightarrow> t \<in> set (others_at d p)"
  by (cases "ht_lookup (objects d) p") (simp_all add: others_at_def places_def)

lemma alone_after:
  assumes m': "groups_ok S m'" and off: "off_jobs d (manager_daemon m')" and t: "\<not> bus_type (thing_type t)"
    and alone: "ht_lookup (objects d) (job_path k) = Some [t]"
  shows "ht_lookup (objects (manager_daemon m')) (job_path k) = Some [t]"
proof -
  let ?d' = "manager_daemon m'"
  have others: "others_at ?d' (job_path k) = [t]" using off alone t by (simp add: off_jobs_def others_at_def)
  then obtain ifs where ifs: "ht_lookup (objects ?d') (job_path k) = Some ifs"
    by (auto simp: others_at_def split: option.splits)
  have "\<not> bus_type (thing_type u)" if u: "u \<in> set ifs" for u
  proof
    assume ty: "bus_type (thing_type u)"
    have at: "u \<in> interfaces_at ?d' (job_path k)" using u by (simp add: interfaces_at_def ifs)
    with ty no_lvm_at_job [OF m'] have "block_type (thing_type u)" by (auto simp: bus_type_def)
    with off at have "u \<in> interfaces_at d (job_path k)" unfolding off_jobs_def using job_path_apart(1) by blast
    with alone ty t show False by (auto simp: interfaces_at_def)
  qed
  then have "filter (\<lambda>u. \<not> bus_type (thing_type u)) ifs = ifs" by (simp add: filter_id_conv)
  with others ifs show ?thesis by (simp add: others_at_def)
qed

lemma placed_off:
  assumes m': "groups_ok S m'" and off: "off_jobs d (manager_daemon m')" and t: "\<not> bus_type (thing_type t)"
    and pl: "placed (objects d) n (t, j)" and same: "job_open j' = job_open j"
  shows "placed (objects (manager_daemon m')) n (t, j')"
proof -
  have eq: "places (objects (manager_daemon m')) t = places (objects d) t"
    using off others_places [OF t] by (auto simp: off_jobs_def)
  have "ht_lookup (objects (manager_daemon m')) p = Some [t]" if p: "p \<in> places (objects d) t" for p
  proof -
    obtain k where "p = job_path k" and "ht_lookup (objects d) p = Some [t]"
      using pl p by (auto simp: placed_def split: if_splits)
    with alone_after [OF m' off t] show ?thesis by simp
  qed
  with pl same show ?thesis by (simp add: placed_def eq split: if_splits)
qed

lemma manager_step_daemon:
  assumes env: "inj_on escape S" "[] \<notin> S" "names_from S env" and m: "groups_ok S m"
    and e: "udisks_paths e" and d: "daemon_ok c (manager_daemon m)" "jobs_typed (manager_daemon m)"
    and u: "manager_step env m e = Inr m'"
  shows "daemon_ok c (manager_daemon m') \<and> jobs_typed (manager_daemon m') \<and>
    num_clients (manager_daemon m') = num_clients (manager_daemon m) \<and> job_id (manager_daemon m') = job_id (manager_daemon m)"
proof -
  let ?d = "manager_daemon m" and ?d' = "manager_daemon m'"
  have m': "groups_ok S m'" by (rule manager_step_groups [OF env m e u])
  have bus: "bus_ok ?d'" using m' by (simp add: groups_ok_def family_ok_def world_ok_def)
  have off: "off_jobs ?d ?d'" by (rule manager_step_off [OF env m e daemon_ok_wf(2) [OF d(1)] u])
  then have same: "like_jobs (jobs ?d) (jobs ?d')" and f: "job_id ?d' = job_id ?d" "num_jobs ?d' = num_jobs ?d"
      "num_clients ?d' = num_clients ?d" "next_thing ?d \<le> next_thing ?d'"
    by (simp_all add: off_jobs_def)
  have "job_good c (snd tj') \<and> placed (objects ?d') (job_id ?d') tj'" if tj': "tj' \<in> set (jobs ?d')" for tj'
  proof -
    obtain tj where tj: "tj \<in> set (jobs ?d)" "like_job tj tj'" using like_jobs_mem [OF same tj'] .
    obtain t j j' where eq: "tj = (t, j)" "tj' = (t, j')" using tj(2) by (cases tj; cases tj') (auto simp: like_job_def)
    have "\<not> bus_type (thing_type t)"
      using d(2) tj(1) by (force simp: eq jobs_typed_def bus_type_def lvm_type_def block_type_def)
    moreover have "placed (objects ?d) (job_id ?d) (t, j)" using daemon_ok_jobs(2) [OF d(1) tj(1)] by (simp add: eq)
    moreover have "job_open j' = job_open j" using tj(2) by (simp add: eq like_job_def job_open_def)
    ultimately have "placed (objects ?d') (job_id ?d) (t, j')" by (rule placed_off [OF m' off])
    moreover have "job_good c j'" using daemon_ok_jobs(1) [OF d(1) tj(1)] tj(2) by (simp add: eq like_job_def)
    ultimately show ?thesis by (simp add: eq f)
  qed
  moreover have "distinct (map fst (jobs ?d'))" using off_jobs_keys [OF off] daemon_ok_wf(2) [OF d(1)] by simp
  ultimately have "jobs_ok c (objects ?d') (job_id ?d') (jobs ?d')" using bus by (simp add: jobs_ok_def bus_ok_def)
  moreover have "fresh_from (next_thing ?d') (objects ?d') (jobs ?d')"
  proof -
    have "fst ` set (jobs ?d') = fst ` set (jobs ?d)" using off_jobs_keys [OF off] by (metis list.set_map)
    moreover have "fresh_from (next_thing ?d) (objects ?d) (jobs ?d)" using d(1) by (simp add: daemon_ok_def)
    ultimately show ?thesis using fresh_place [OF bus] f(4) by (auto simp: fresh_from_def)
  qed
  ultimately show ?thesis
    using d(1) like_jobs_same [OF same] f jobs_typed_off [OF off d(2)] by (simp add: daemon_ok_def)
qed

end
