(* ===== verification/System_Run.thy ===== *)
theory System_Run
  imports Jobs_Apart
begin

text \<open>
  The whole service in one run: the events of the manager, the daemon's clients, name and jobs, and
  any number of method calls from the bus, in any order, on one daemon and one bus. Both invariants
  hold together, and every caller is accounted for.
\<close>

section \<open>The machine\<close>

text \<open>
  A call that was made: answered at once, or connected to the job that was launched for it, with what
  it was told so far, or waiting for an object while its job runs.
\<close>

datatype open_call =
    Told reply
  | OnTheJob thing "bool \<Rightarrow> string \<Rightarrow> reply" "reply list"
  | OnTheObject thing waiting_call

fun replies_to :: "open_call \<Rightarrow> reply list" where
  "replies_to (Told r) = [r]"
| "replies_to (OnTheJob _ _ rs) = rs"
| "replies_to (OnTheObject _ call) = replies (wait_closure call)"

record system =
  sys_manager :: manager
  sys_calls :: "open_call list"

abbreviation sys_daemon :: "system \<Rightarrow> daemon" where
  "sys_daemon s \<equiv> manager_daemon (sys_manager s)"

definition system_new :: "bool \<Rightarrow> string option \<Rightarrow> system" where
  "system_new persist_prop dir =
     \<lparr>sys_manager = storage_manager_new (storage_daemon_init persist_prop dir), sys_calls = []\<rparr>"

text \<open>
  A method call, of the interface of a group or of a volume at an object path, or of the manager's own;
  GLib passes it to the instance that is exported there.
\<close>

datatype bus_call =
    GroupCall string vg_request
  | VolumeCall string lv_request
  | CreateGroupCall string "string list"

definition find_volume :: "manager \<Rightarrow> thing \<Rightarrow> logical_volume option" where
  "find_volume m t = map_option snd (find (\<lambda>(_, v). lvo_thing v = t) (concat (map logical_volumes (all_groups m))))"

definition instance_name :: "manager \<Rightarrow> thing \<Rightarrow> string" where
  "instance_name m t = (case find_volume m t of Some v \<Rightarrow> lvo_name v | None \<Rightarrow> [])"

fun method_of :: "manager \<Rightarrow> bus_call \<Rightarrow> method_call option" where
  "method_of m (GroupCall path request) =
     (case find_thing (manager_daemon m) path (Some StorageVolumeGroup) of
        FoundThing t \<Rightarrow>
          map_option (\<lambda>g. GroupMethod g request) (find (\<lambda>g. vgo_thing g = t) (all_groups m))
      | _ \<Rightarrow> None)"
| "method_of m (VolumeCall path request) =
     (case find_thing (manager_daemon m) path (Some StorageLogicalVolume) of
        FoundThing t \<Rightarrow>
          (case find_volume m t of
             None \<Rightarrow> None
           | Some v \<Rightarrow>
               map_option (\<lambda>g. VolumeMethod (vgo_name g) v request)
                 (find (\<lambda>g. Some (vgo_thing g) = lvo_group v) (all_groups m)))
      | _ \<Rightarrow> None)"
| "method_of m (CreateGroupCall name blocks) = None"

fun opened_call :: "connected \<Rightarrow> handled \<Rightarrow> open_call" where
  "opened_call c (Answered r) = Told r"
| "opened_call (OnJob f) (AnswersOnJob t _) = OnTheJob t f []"
| "opened_call (OnJob f) (AnswersOnObject t _) = OnTheJob t f []"
| "opened_call (OnObject call) (AnswersOnJob t _) = OnTheObject t call"
| "opened_call (OnObject call) (AnswersOnObject t _) = OnTheObject t call"

text \<open>A call for which there is no instance is refused by GLib.\<close>

fun call_arrives ::
  "os \<Rightarrow> systrace \<Rightarrow> (string list \<Rightarrow> gerror + nat) \<Rightarrow> u32 \<Rightarrow> bus_call \<Rightarrow> system \<Rightarrow> system" where
  "call_arrives os tr spawn uid (CreateGroupCall name blocks) s =
     (let (m, h) = handle_volume_group_create os tr uid (sys_manager s) name blocks
      in s\<lparr>sys_manager := m,
           sys_calls := sys_calls s @ [opened_call (OnObject (waiting_new GroupCreated None (Some name))) h]\<rparr>)"
| "call_arrives os tr spawn uid c s =
     (let m = sys_manager s in
      case method_of m c of
        None \<Rightarrow> s
      | Some called \<Rightarrow>
          let (w, h) = handle_method os tr (instance_name m) spawn uid (mgr_world m) called
          in s\<lparr>sys_manager := m\<lparr>mgr_world := w\<rparr>, sys_calls := sys_calls s @ [opened_call (connects called) h]\<rparr>)"

text \<open>
  The job \<open>t\<close> emits \<open>completed\<close>: the handlers of the calls connected to it run.
\<close>

fun call_job_ends :: "thing \<Rightarrow> bool \<Rightarrow> string \<Rightarrow> open_call \<Rightarrow> abort + open_call" where
  "call_job_ends t success message (Told r) = Inr (Told r)"
| "call_job_ends t success message (OnTheJob u f rs) =
     Inr (OnTheJob u f (if u = t then rs @ [f success message] else rs))"
| "call_job_ends t success message (OnTheObject u call) =
     (if u = t then ebind (on_job_of_call call success message) (\<lambda>call. Inr (OnTheObject u call))
      else Inr (OnTheObject u call))"

fun calls_job_ends :: "thing \<Rightarrow> bool \<Rightarrow> string \<Rightarrow> open_call list \<Rightarrow> abort + open_call list" where
  "calls_job_ends t success message [] = Inr []"
| "calls_job_ends t success message (c # cs) =
     ebind (call_job_ends t success message c) (\<lambda>c.
     ebind (calls_job_ends t success message cs) (\<lambda>cs. Inr (c # cs)))"

fun deliver :: "thing \<Rightarrow> (bool \<times> string) list \<Rightarrow> open_call list \<Rightarrow> abort + open_call list" where
  "deliver t [] cs = Inr cs"
| "deliver t ((success, message) # ends) cs = ebind (calls_job_ends t success message cs) (deliver t ends)"

definition completions_of :: "daemon \<Rightarrow> thing \<Rightarrow> (bool \<times> string) list" where
  "completions_of d t = (case find_job d t of None \<Rightarrow> [] | Some j \<Rightarrow> job_completions j)"

fun call_hears :: "manager \<Rightarrow> daemon_signal list \<Rightarrow> open_call \<Rightarrow> open_call" where
  "call_hears m sigs (OnTheObject t call) = OnTheObject t (hear_manager m sigs call)"
| "call_hears m sigs c = c"

text \<open>
  What happens: to the manager, to the daemon, or a call of a user, with the trace of system calls when
  its job runs and the kernel's answer to a spawn.
\<close>

datatype system_event =
    ManagerEvent manager_event
  | DaemonEvent daemon_event
  | CallArrives systrace "string list \<Rightarrow> gerror + nat" u32 bus_call

fun system_step :: "env \<Rightarrow> system \<Rightarrow> system_event \<Rightarrow> abort + system" where
  "system_step env s (ManagerEvent e) =
     ebind (manager_step env (sys_manager s) e) (\<lambda>m.
     Inr \<lparr>sys_manager = m,
          sys_calls = map (call_hears m (announced (sys_daemon s) (manager_daemon m))) (sys_calls s)\<rparr>)"
| "system_step env s (DaemonEvent e) =
     ebind (daemon_step (path_of (sys_daemon s)) (sys_daemon s) e) (\<lambda>d.
     ebind (case e of
              JobEvent t _ \<Rightarrow>
                deliver t (drop (length (completions_of (sys_daemon s) t)) (completions_of d t)) (sys_calls s)
            | _ \<Rightarrow> Inr (sys_calls s))
       (\<lambda>cs. Inr \<lparr>sys_manager = (sys_manager s)\<lparr>mgr_world := (mgr_world (sys_manager s))\<lparr>the_daemon := d\<rparr>\<rparr>,
                  sys_calls = cs\<rparr>))"
| "system_step env s (CallArrives tr spawn uid c) = Inr (call_arrives (env_os env) tr spawn uid c s)"

text \<open>
  What is asked of the outside. Jobs come from method calls only, and are not cancelled.
\<close>

fun event_ok :: "system_event \<Rightarrow> bool" where
  "event_ok (ManagerEvent e) = udisks_paths e"
| "event_ok (DaemonEvent e) = (\<not> launch e \<and> \<not> cancels e)"
| "event_ok (CallArrives _ _ _ _) = True"

fun arrival :: "system_event \<Rightarrow> bool" where
  "arrival (CallArrives _ _ _ _) = True"
| "arrival _ = False"

fun daemon_events :: "system_event list \<Rightarrow> daemon_event list" where
  "daemon_events [] = []"
| "daemon_events (DaemonEvent e # es) = e # daemon_events es"
| "daemon_events (_ # es) = daemon_events es"

section \<open>What the daemon does leaves the groups in place\<close>

definition with_daemon :: "manager \<Rightarrow> daemon \<Rightarrow> manager" where
  "with_daemon m d = m\<lparr>mgr_world := (mgr_world m)\<lparr>the_daemon := d\<rparr>\<rparr>"

lemma with_daemon_simps [simp]:
  "manager_daemon (with_daemon m d) = d"
  "name_to_volume_group (with_daemon m d) = name_to_volume_group m"
  by (simp_all add: with_daemon_def)

text \<open>Where the daemon itself publishes: the paths of jobs and that of the manager.\<close>

definition daemon_path :: "string \<Rightarrow> bool" where
  "daemon_path p \<longleftrightarrow> p = ''/org/freedesktop/UDisks2/Manager'' \<or> (\<exists>k. p = job_path k)"

lemma manager_path_apart:
  "''/org/freedesktop/UDisks2/Manager'' \<noteq> group_path n" "''/org/freedesktop/UDisks2/Manager'' \<noteq> volume_path n v"
proof -
  have "take 26 ''/org/freedesktop/UDisks2/Manager'' \<noteq> take 26 (group_path n)" by (simp add: group_path_def)
  then show "''/org/freedesktop/UDisks2/Manager'' \<noteq> group_path n" by metis
  have "take 26 ''/org/freedesktop/UDisks2/Manager'' \<noteq> take 26 (volume_path n v)" by (simp add: volume_path_def group_path_def)
  then show "''/org/freedesktop/UDisks2/Manager'' \<noteq> volume_path n v" by metis
qed

lemma daemon_path_apart:
  assumes "daemon_path p"
  shows "\<not> block_path p" and "p \<noteq> group_path n" and "p \<noteq> volume_path n v"
proof -
  consider "p = ''/org/freedesktop/UDisks2/Manager''" | k where "p = job_path k" using assms by (auto simp: daemon_path_def)
  note cases = this
  show "\<not> block_path p" by (cases rule: cases) (simp_all add: block_path_def job_path_def)
  show "p \<noteq> group_path n" "p \<noteq> volume_path n v"
    by (cases rule: cases; use manager_path_apart in simp)+
qed

lemma no_lvm_at_daemon:
  "groups_ok S m \<Longrightarrow> daemon_path p \<Longrightarrow> t \<in> interfaces_at (manager_daemon m) p \<Longrightarrow> \<not> lvm_type (thing_type t)"
  using groups_ok_shown [of S m t p] daemon_path_apart by (auto simp: shown_def)

definition daemon_moves :: "daemon \<Rightarrow> daemon \<Rightarrow> bool" where
  "daemon_moves d d' \<longleftrightarrow>
     next_thing d \<le> next_thing d' \<and>
     (\<exists>p. daemon_path p \<and> only_at p d d' \<and>
        (\<forall>t \<in> interfaces_at d' p. t \<in> interfaces_at d p \<or> \<not> lvm_type (thing_type t)))"

lemma groups_daemon:
  assumes m: "groups_ok S m" and d: "daemon_moves (manager_daemon m) d" "bus_ok d"
  shows "groups_ok S (with_daemon m d)"
proof -
  obtain p where p: "daemon_path p" "only_at p (manager_daemon m) d"
      "\<forall>t \<in> interfaces_at d p. t \<in> interfaces_at (manager_daemon m) p \<or> \<not> lvm_type (thing_type t)"
    and nx: "next_thing (manager_daemon m) \<le> next_thing d"
    using d(1) by (auto simp: daemon_moves_def)
  have none: "t \<notin> interfaces_at (manager_daemon m) p \<and> t \<notin> interfaces_at d p" if "lvm_type (thing_type t)" for t
    using no_lvm_at_daemon [OF m p(1)] p(3) that by blast
  have "off_blocks (manager_daemon m) d"
    using p(2) d(2) daemon_path_apart(1) [OF p(1)] by (auto simp: off_blocks_def only_at_def)
  then have "world_ok ((mgr_world m)\<lparr>the_daemon := d\<rparr>)"
    using m by (intro world_ok_off_blocks) (simp_all add: groups_ok_def family_ok_def)
  moreover have "still (manager_daemon m) d" by (rule only_at_still [OF p(2) nx]) (use none in blast)
  ultimately show ?thesis using groups_world [OF m] by (simp add: with_daemon_def)
qed

text \<open>Every event of the daemon is such a change.\<close>

lemma moves_same: "objects d' = objects d \<Longrightarrow> next_thing d \<le> next_thing d' \<Longrightarrow> daemon_moves d d'"
  by (auto simp: daemon_moves_def daemon_path_def only_at_def interfaces_at_def)

lemma moves_export:
  assumes "\<not> lvm_type (thing_type t)"
  shows "daemon_moves d (export_job d t j)"
proof -
  have "daemon_path (job_path (job_id d))" by (auto simp: daemon_path_def)
  then show ?thesis
    unfolding daemon_moves_def
    by (intro conjI exI [of _ "job_path (job_id d)"])
      (use assms in \<open>auto simp: export_job_def only_at_def interfaces_at_def ht.lookup_ins split: if_splits\<close>)
qed

lemma moves_remove:
  assumes "daemon_path p" and "objects d' = ht_remove (objects d) p" and "next_thing d \<le> next_thing d'"
  shows "daemon_moves d d'"
  unfolding daemon_moves_def
  by (intro conjI exI [of _ p]) (use assms in \<open>auto simp: only_at_def interfaces_at_def ht.lookup_rem\<close>)

lemma maybe_finished_bus [simp]:
  "objects (maybe_finished d) = objects d" "next_thing (maybe_finished d) = next_thing d"
  by (simp_all add: maybe_finished_def)

lemma moves_completed:
  assumes ok: "daemon_ok c d" and t: "t \<in> fst ` set (jobs d)"
    and u: "on_job_completed (d\<lparr>jobs := js\<rparr>) t = Inr d'"
  shows "daemon_moves d d'"
proof -
  obtain p where p: "path_of (d\<lparr>jobs := js\<rparr>) t = Some p" and d': "objects d' = ht_remove (objects d) p" "next_thing d' = next_thing d"
    using u by (auto simp: on_job_completed_def Let_def split: option.splits if_splits)
  obtain ifs where "(p, ifs) \<in> set (objects d)" "t \<in> set ifs" using p by (auto simp: path_of_def dest!: find_SomeD)
  then have "p \<in> places (objects d) t"
    using daemon_ok_wf(1) [OF ok] by (auto simp: places_def ht_lookup_def ht_wf_def)
  moreover obtain j where "(t, j) \<in> set (jobs d)" using t by auto
  note daemon_ok_jobs(2) [OF ok this]
  ultimately have "daemon_path p" by (auto simp: placed_def daemon_path_def split: if_splits)
  with d' show ?thesis by (intro moves_remove) simp_all
qed

lemma daemon_step_moves:
  assumes ok: "daemon_ok c d" and u: "daemon_step gp d e = Inr d'"
  shows "daemon_moves d d'"
proof (cases e)
  case (JobEvent t ev)
  show ?thesis
  proof (cases "find_job d t")
    case None
    with u JobEvent show ?thesis by (simp add: on_job_event_def moves_same)
  next
    case (Some j)
    then have t: "t \<in> fst ` set (jobs d)" by (force simp: find_job_def dest: map_of_SomeD)
    obtain j' where "(if job_completions j' = job_completions j then Inr (d\<lparr>jobs := set_job t j' (jobs d)\<rparr>)
        else on_job_completed (d\<lparr>jobs := set_job t j' (jobs d)\<rparr>) t) = Inr d'"
      using u JobEvent Some by (auto simp: on_job_event_def Let_def ebind_Inr)
    then show ?thesis using moves_completed [OF ok t] by (auto intro: moves_same split: if_splits)
  qed
next
  case ManagerReady
  have t: "is_dbus_interface (Thing n StorageManager)" for n by (simp add: is_dbus_interface_def)
  have "daemon_path ''/org/freedesktop/UDisks2/Manager''" by (simp add: daemon_path_def)
  then show ?thesis
    unfolding daemon_moves_def
    by (intro conjI exI [of _ "''/org/freedesktop/UDisks2/Manager''"])
      (use u ManagerReady in \<open>auto simp: on_manager_ready_def only_at_def interfaces_at_def lvm_type_def
        interfaces_at_publish [OF t, unfolded interfaces_at_def] split: if_splits\<close>)
qed (use u in \<open>auto simp: on_name_lost_def on_name_acquired_def on_client_appeared_def on_client_disappeared_def Let_def
    storage_daemon_launch_spawned_jobv_def storage_daemon_launch_threaded_job_def lvm_type_def
    intro!: moves_same moves_export split: if_splits\<close>)

lemma daemon_ok_bus: "daemon_ok c d \<Longrightarrow> bus_ok d"
  using places_iff by (fastforce simp: daemon_ok_def jobs_ok_def fresh_from_def bus_ok_def simp flip: not_le)

lemma launched_moves: "launched_by d d' t \<Longrightarrow> daemon_moves d d'"
  by (auto simp: launched_by_def storage_daemon_launch_spawned_jobv_def storage_daemon_launch_threaded_job_def Let_def
      lvm_type_def intro!: moves_export)

section \<open>The callers\<close>

text \<open>What a caller was told agrees with what its job has emitted.\<close>

fun call_ok :: "daemon \<Rightarrow> open_call \<Rightarrow> bool" where
  "call_ok d (Told r) = True"
| "call_ok d (OnTheJob t f rs) \<longleftrightarrow>
     t \<in> fst ` set (jobs d) \<and> rs = map (\<lambda>(success, message). f success message) (completions_of d t)"
| "call_ok d (OnTheObject t call) \<longleftrightarrow>
     t \<in> fst ` set (jobs d) \<and> closure_ok (wait_closure call) \<and>
     (job_done (wait_closure call) \<longleftrightarrow> completions_of d t \<noteq> [])"

definition same_ends :: "daemon \<Rightarrow> daemon \<Rightarrow> bool" where
  "same_ends d d' \<longleftrightarrow>
     (\<forall>t \<in> fst ` set (jobs d). t \<in> fst ` set (jobs d') \<and> completions_of d' t = completions_of d t)"

lemma call_ok_same: "same_ends d d' \<Longrightarrow> call_ok d c \<Longrightarrow> call_ok d' c"
  by (cases c) (auto simp: same_ends_def)

lemma same_ends_jobs: "jobs d' = jobs d \<Longrightarrow> same_ends d d'"
  by (simp add: same_ends_def completions_of_def find_job_def)

lemma same_ends_new: "jobs d' = jobs d @ [(t, j)] \<Longrightarrow> same_ends d d'"
  by (force simp: same_ends_def completions_of_def find_job_def map_add_def split: option.split dest: weak_map_of_SomeI)

lemma same_ends_off:
  assumes "off_jobs d d'"
  shows "same_ends d d'"
proof -
  have "like_jobs js js' \<Longrightarrow> map_option job_completions (map_of js' t) = map_option job_completions (map_of js t)" for js js' t
    by (induction js js' rule: list_all2_induct) (auto simp: like_job_def)
  then have "map_option job_completions (find_job d' t) = map_option job_completions (find_job d t)" for t
    using assms by (simp add: off_jobs_def find_job_def)
  then have "completions_of d' t = completions_of d t" for t
    by (cases "find_job d t"; cases "find_job d' t") (simp_all add: completions_of_def, (metis option.distinct(1) option.inject option.simps(8,9))+)
  moreover have "fst ` set (jobs d') = fst ` set (jobs d)" using off_jobs_keys [OF assms] by (metis list.set_map)
  ultimately show ?thesis by (simp add: same_ends_def)
qed

subsection \<open>Signals\<close>

lemma published_closure:
  assumes "closure_ok (wait_closure call)"
  shows "closure_ok (wait_closure (on_published d x call)) \<and>
    job_done (wait_closure (on_published d x call)) = job_done (wait_closure call)"
  using assms
  by (auto simp: on_published_eq closure_ok_def answer_path_def on_closure_published_def split: option.split)

lemma hears_closure:
  "closure_ok (wait_closure call) \<Longrightarrow>
   closure_ok (wait_closure (hear_manager m sigs call)) \<and>
   job_done (wait_closure (hear_manager m sigs call)) = job_done (wait_closure call)"
proof -
  have "closure_ok (wait_closure call) \<Longrightarrow>
      closure_ok (wait_closure (fold (on_published d) xs call)) \<and>
      job_done (wait_closure (fold (on_published d) xs call)) = job_done (wait_closure call)" for d xs
    by (induction xs arbitrary: call) (simp_all add: published_closure)
  then show "closure_ok (wait_closure call) \<Longrightarrow>
      closure_ok (wait_closure (hear_manager m sigs call)) \<and>
      job_done (wait_closure (hear_manager m sigs call)) = job_done (wait_closure call)"
    by (simp add: hear_manager_def)
qed

lemma call_ok_hears: "call_ok d c \<Longrightarrow> call_ok d (call_hears m sigs c)"
  using hears_closure by (cases c) auto

subsection \<open>The end of a job\<close>

lemma job_of_call_closure:
  assumes "closure_ok (wait_closure call)" and "on_job_of_call call success message = Inr call'"
  shows "closure_ok (wait_closure call') \<and> job_done (wait_closure call')"
  using assms
  by (auto simp: on_job_of_call_eq fail_call_def on_closure_complete_def closure_ok_def Let_def split: if_splits)

lemma job_of_call_aborts:
  "on_job_of_call call success message = Inl a \<Longrightarrow> a = UseAfterFree ''complete->invocation''"
  by (auto simp: on_job_of_call_eq fail_call_def on_closure_complete_def Let_def split: if_splits)

lemma call_end:
  assumes ok: "call_ok d c" and ends: "completions_of d t = []" "completions_of d' t = [(success, message)]"
    and others: "\<And>u. u \<noteq> t \<Longrightarrow> completions_of d' u = completions_of d u"
    and keys: "fst ` set (jobs d') = fst ` set (jobs d)" and u: "call_job_ends t success message c = Inr c'"
  shows "call_ok d' c'"
proof (cases c)
  case (Told r)
  with u show ?thesis by auto
next
  case (OnTheJob v f rs)
  with u have "c' = OnTheJob v f (if v = t then rs @ [f success message] else rs)" by simp
  then show ?thesis using OnTheJob ok ends others [of v] keys by (cases "v = t") simp_all
next
  case (OnTheObject v call)
  show ?thesis
  proof (cases "v = t")
    case False
    with u OnTheObject have "c' = OnTheObject v call" by simp
    then show ?thesis using OnTheObject ok others [OF False] keys by simp
  next
    case True
    then obtain call' where "on_job_of_call call success message = Inr call'" "c' = OnTheObject t call'"
      using u OnTheObject by (auto simp: ebind_Inr)
    with job_of_call_closure [of call success message call'] ok ends keys True OnTheObject show ?thesis by simp
  qed
qed

lemma calls_end:
  "calls_job_ends t success message cs = Inr cs' \<Longrightarrow> c' \<in> set cs' \<Longrightarrow>
   \<exists>c \<in> set cs. call_job_ends t success message c = Inr c'"
  by (induction cs arbitrary: cs') (auto simp: ebind_Inr)

lemma ebind_Inl: "ebind r f = Inl a \<longleftrightarrow> r = Inl a \<or> (\<exists>x. r = Inr x \<and> f x = Inl a)"
  by (cases r) (simp_all add: ebind_def)

lemma calls_end_aborts:
  "calls_job_ends t success message cs = Inl a \<Longrightarrow> a = UseAfterFree ''complete->invocation''"
proof (induction cs)
  case (Cons c cs)
  have "call_job_ends t success message c = Inl a \<Longrightarrow> a = UseAfterFree ''complete->invocation''"
    by (cases c) (auto simp: ebind_Inl dest: job_of_call_aborts split: if_splits)
  with Cons show ?case by (auto simp: ebind_Inl)
qed simp

text \<open>An event of a job: its outcome is there at most once.\<close>

lemma completions_after:
  assumes ok: "daemon_ok c d" and u: "on_job_event d t ev = Inr d'" and can: "cancels_job ev \<longrightarrow> c"
  shows "fst ` set (jobs d') = fst ` set (jobs d)" and "v \<noteq> t \<Longrightarrow> completions_of d' v = completions_of d v"
    and "completions_of d' t = completions_of d t \<or> completions_of d t = [] \<and> (\<exists>x. completions_of d' t = [x])"
proof -
  have "fst ` set (jobs d') = fst ` set (jobs d) \<and> (v \<noteq> t \<longrightarrow> completions_of d' v = completions_of d v) \<and>
    (completions_of d' t = completions_of d t \<or> completions_of d t = [] \<and> (\<exists>x. completions_of d' t = [x]))"
  proof (cases "find_job d t")
    case None
    with u show ?thesis by (simp add: on_job_event_def)
  next
    case (Some j)
    obtain j' where j': "any_job_step j ev = Inr j'"
      and d': "(if job_completions j' = job_completions j then Inr (d\<lparr>jobs := set_job t j' (jobs d)\<rparr>)
        else on_job_completed (d\<lparr>jobs := set_job t j' (jobs d)\<rparr>) t) = Inr d'"
      using u Some by (auto simp: on_job_event_def Let_def ebind_Inr)
    have js: "jobs d' = set_job t j' (jobs d)"
      using d' by (auto simp: on_job_completed_def maybe_finished_def Let_def split: if_splits option.splits)
    have "(t, j) \<in> set (jobs d)" using Some by (simp add: find_job_def map_of_SomeD)
    from daemon_ok_jobs(1) [OF ok this] have good: "job_good c j" by simp
    note step = any_job_step_good [OF good j' can]
    have "map_of (set_job t j' l) v = (if v = t then map_option (\<lambda>_. j') (map_of l t) else map_of l v)" for l v
      by (induction l) (auto simp: set_job_def)
    then have look: "find_job d' v = (if v = t then Some j' else find_job d v)" for v
      using Some by (simp add: find_job_def js)
    have "job_completions j' = job_completions j \<or> job_completions j = [] \<and> (\<exists>x. job_completions j' = [x])"
      using step(2) good_completions [OF step(1)] by (cases "job_completions j'") (auto simp: job_open_def)
    moreover have "fst ` set (jobs d') = fst ` set (jobs d)" by (metis js set_job_keys list.set_map)
    ultimately show ?thesis using Some look by (simp add: completions_of_def)
  qed
  then show "fst ` set (jobs d') = fst ` set (jobs d)" and "v \<noteq> t \<Longrightarrow> completions_of d' v = completions_of d v"
    and "completions_of d' t = completions_of d t \<or> completions_of d t = [] \<and> (\<exists>x. completions_of d' t = [x])"
    by blast+
qed

subsection \<open>A call that arrives\<close>

lemma launched_new:
  assumes "launched_by d d' t"
  obtains j where "jobs d' = jobs d @ [(t, j)]" and "job_completions j = []"
    and "thing_type t = StorageSpawnedJob \<or> thing_type t = StorageThreadedJob" and "thing_id t = next_thing d"
proof -
  have sp: "\<exists>j. (fst r, snd r) = (export_job d t j, t) \<and> job_completions j = [] \<and> t = Thing (next_thing d) StorageSpawnedJob"
    if "r = storage_daemon_launch_spawned_jobv gp spawn d obj op uid False 0 0 input argv" and "snd r = t"
    for r gp spawn obj op uid input argv
  proof -
    let ?new = "storage_spawned_job_new spawn argv input 0 0 False"
    obtain x where x: "storage_job_add_thing gp ?new obj = ?new\<lparr>job_objects := x\<rparr>" using add_thing_eq by blast
    have "sj_completions ?new = []" using new_job_phase [of False spawn argv input 0 0]
      by (auto simp: open_job_def split: if_splits)
    with that show ?thesis by (auto simp: storage_daemon_launch_spawned_jobv_def Let_def x)
  qed
  have th: "\<exists>j. (fst r, snd r) = (export_job d t j, t) \<and> job_completions j = [] \<and> t = Thing (next_thing d) StorageThreadedJob"
    if "r = storage_daemon_launch_threaded_job gp d obj op uid f False" and "snd r = t" for r gp obj op uid f
  proof -
    obtain x where x: "storage_job_add_thing gp (storage_threaded_job_new f False) obj =
        (storage_threaded_job_new f False)\<lparr>job_objects := x\<rparr>" using add_thing_eq by blast
    have "completions (storage_threaded_job_new f False) = []" by (simp add: storage_threaded_job_new_def job.defs)
    with that show ?thesis by (auto simp: storage_daemon_launch_threaded_job_def Let_def x)
  qed
  obtain j where "d' = export_job d t j" "job_completions j = []"
    "t = Thing (next_thing d) StorageSpawnedJob \<or> t = Thing (next_thing d) StorageThreadedJob"
    using assms sp th unfolding launched_by_def by (metis fst_conv snd_conv prod.inject)
  then show thesis by (intro that [of j]) (auto simp: export_job_def)
qed

lemma completions_new:
  assumes "daemon_ok c d" and "launched_by d d' t"
  shows "completions_of d' t = []"
proof -
  obtain j where j: "jobs d' = jobs d @ [(t, j)]" "job_completions j = []" "thing_id t = next_thing d"
    by (rule launched_new [OF assms(2)]) (rule that)
  have "t \<notin> fst ` set (jobs d)" using assms(1) j(3) by (auto simp: daemon_ok_def fresh_from_def)
  then have "map_of (jobs d) t = None" by (simp add: map_of_eq_None_iff)
  then show ?thesis using j(1,2) by (simp add: completions_of_def find_job_def map_add_def)
qed

text \<open>What a method leaves of the world: at most a job is launched.\<close>

definition method_effect :: "world \<Rightarrow> world \<Rightarrow> handled \<Rightarrow> bool" where
  "method_effect w w' h \<longleftrightarrow> the_blocks w' = the_blocks w \<and>
     (case job_of h of None \<Rightarrow> the_daemon w' = the_daemon w | Some t \<Rightarrow> launched_by (the_daemon w) (the_daemon w') t)"

lemma method_effects:
  assumes "handle_method os tr name_of spawn uid w call = (w', h)"
  shows "method_effect w w' h"
proof -
  have "the_blocks w' = the_blocks w \<and> (job_of h = None \<longrightarrow> the_daemon w' = the_daemon w)"
  proof (cases call)
    case (GroupMethod g request)
    with assms show ?thesis
      by (cases request)
        (auto simp: vg_handlers launch_for_def failed_def Let_def split: option.splits prod.splits found.splits)
  next
    case (VolumeMethod vg v request)
    with assms show ?thesis by (cases request) (auto simp: lv_handlers split: prod.splits)
  qed
  with method_launches [OF assms] show ?thesis by (auto simp: method_effect_def split: option.split)
qed

lemma create_effects:
  assumes "handle_volume_group_create os tr uid m name blocks = (m', h)"
  shows "m' = m\<lparr>mgr_world := mgr_world m'\<rparr> \<and> method_effect (mgr_world m) (mgr_world m') h"
  using assms
  by (auto simp: handle_volume_group_create_def method_effect_def Let_def split: prod.splits sum.splits
      intro!: launched_by_job [OF create_job.job_function_axioms])

section \<open>The invariant of the service\<close>

definition system_ok :: "string set \<Rightarrow> nat \<Rightarrow> system \<Rightarrow> bool" where
  "system_ok S n s \<longleftrightarrow>
     groups_ok S (sys_manager s) \<and> daemon_ok False (sys_daemon s) \<and> jobs_typed (sys_daemon s) \<and>
     num_clients (sys_daemon s) = of_nat n \<and> n < 2 ^ 32 \<and> (\<forall>c \<in> set (sys_calls s). call_ok (sys_daemon s) c)"

lemma groups_calls:
  assumes "groups_ok S m" and "the_daemon w = manager_daemon m" and "the_blocks w = the_blocks (mgr_world m)"
  shows "groups_ok S (m\<lparr>mgr_world := w\<rparr>)"
  using assms by (simp add: groups_ok_def family_ok_def world_ok_def)

lemma groups_launch:
  assumes "groups_ok S m" and "daemon_moves (manager_daemon m) (the_daemon w)" and "bus_ok (the_daemon w)"
    and "the_blocks w = the_blocks (mgr_world m)"
  shows "groups_ok S (m\<lparr>mgr_world := w\<rparr>)"
proof -
  have "groups_ok S (with_daemon m (the_daemon w))" by (rule groups_daemon [OF assms(1-3)])
  from groups_calls [OF this, of w] assms(4) show ?thesis by (simp add: with_daemon_def)
qed

lemma call_ok_opened:
  assumes "daemon_ok c d" and "\<And>t. job_of h = Some t \<Longrightarrow> launched_by d d' t"
    and "\<And>call. con = OnObject call \<Longrightarrow> \<exists>kind x n. call = waiting_new kind x n"
  shows "call_ok d' (opened_call con h)"
proof -
  have new: "t \<in> fst ` set (jobs d') \<and> completions_of d' t = []" if l: "launched_by d d' t" for t
    using launched_new [OF l] completions_new [OF assms(1) l] by (metis Un_iff fst_conv image_iff list.set_intros(1) set_append)
  have fresh: "closure_ok (wait_closure call) \<and> \<not> job_done (wait_closure call)" if "con = OnObject call" for call
    using assms(3) [OF that] by (auto simp: waiting_new_def closure_new_def closure_ok_def)
  show ?thesis
    using assms(2) new fresh by (cases "(con, h)" rule: opened_call.cases) auto
qed

lemma connects_new: "connects call = OnObject w \<Longrightarrow> \<exists>kind x n. w = waiting_new kind x n"
proof (cases call)
  case (GroupMethod g request)
  then show "connects call = OnObject w \<Longrightarrow> \<exists>kind x n. w = waiting_new kind x n" by (cases request) auto
next
  case (VolumeMethod vg v request)
  then show "connects call = OnObject w \<Longrightarrow> \<exists>kind x n. w = waiting_new kind x n" by (cases request) auto
qed

lemma effect_ok:
  assumes s: "system_ok S n s" and e: "method_effect (mgr_world (sys_manager s)) w h"
    and small: "unat (job_id (sys_daemon s)) < 2 ^ 31"
    and s': "s' = s\<lparr>sys_manager := (sys_manager s)\<lparr>mgr_world := w\<rparr>, sys_calls := sys_calls s @ [opened_call con h]\<rparr>"
    and con: "\<And>call. con = OnObject call \<Longrightarrow> \<exists>kind x n. call = waiting_new kind x n"
  shows "system_ok S n s' \<and> unat (job_id (sys_daemon s')) \<le> unat (job_id (sys_daemon s)) + 1"
proof (cases "job_of h")
  case None
  then have w: "the_daemon w = sys_daemon s" "the_blocks w = the_blocks (mgr_world (sys_manager s))"
    using e by (simp_all add: method_effect_def)
  have "call_ok (sys_daemon s) (opened_call con h)" using None by (cases h) auto
  with s w groups_calls [of S "sys_manager s" w] show ?thesis by (auto simp: s' system_ok_def)
next
  case (Some t)
  then have l: "launched_by (sys_daemon s) (the_daemon w) t" and bl: "the_blocks w = the_blocks (mgr_world (sys_manager s))"
    using e by (simp_all add: method_effect_def)
  have d: "daemon_ok False (sys_daemon s)" using s by (simp add: system_ok_def)
  note ok = launched_by_ok [OF l d small]
  obtain j where j: "jobs (the_daemon w) = jobs (sys_daemon s) @ [(t, j)]"
      "thing_type t = StorageSpawnedJob \<or> thing_type t = StorageThreadedJob"
    by (rule launched_new [OF l]) (rule that)
  have "groups_ok S ((sys_manager s)\<lparr>mgr_world := w\<rparr>)"
    using s by (intro groups_launch launched_moves [OF l] daemon_ok_bus [OF ok(1)] bl) (simp add: system_ok_def)
  moreover have "jobs_typed (the_daemon w)" using s j by (auto simp: system_ok_def jobs_typed_def)
  moreover have "call_ok (the_daemon w) c" if "c \<in> set (sys_calls s)" for c
    using s that by (intro call_ok_same [OF same_ends_new [OF j(1)]]) (simp add: system_ok_def)
  moreover have "call_ok (the_daemon w) (opened_call con h)" by (rule call_ok_opened [OF d _ con]) (use l Some in auto)
  ultimately show ?thesis using s ok by (auto simp: s' system_ok_def)
qed

lemma arrival_ok:
  assumes s: "system_ok S n s" and small: "unat (job_id (sys_daemon s)) < 2 ^ 31"
  shows "system_ok S n (call_arrives os tr spawn uid c s) \<and>
    unat (job_id (sys_daemon (call_arrives os tr spawn uid c s))) \<le> unat (job_id (sys_daemon s)) + 1"
proof -
  let ?m = "sys_manager s"
  have other: ?thesis if c: "\<nexists>name blocks. c = CreateGroupCall name blocks"
  proof (cases "method_of ?m c")
    case None
    with c s show ?thesis by (cases c) simp_all
  next
    case (Some called)
    obtain w h where h: "handle_method os tr (instance_name ?m) spawn uid (mgr_world ?m) called = (w, h)" by fastforce
    have "call_arrives os tr spawn uid c s =
        s\<lparr>sys_manager := ?m\<lparr>mgr_world := w\<rparr>, sys_calls := sys_calls s @ [opened_call (connects called) h]\<rparr>"
      using c Some h by (cases c) (simp_all add: Let_def)
    then show ?thesis by (rule effect_ok [OF s method_effects [OF h] small]) (rule connects_new)
  qed
  show ?thesis
  proof (cases c)
    case (CreateGroupCall name blocks)
    let ?con = "OnObject (waiting_new GroupCreated None (Some name))"
    obtain m' h where h: "handle_volume_group_create os tr uid ?m name blocks = (m', h)" by fastforce
    note eff = create_effects [OF h]
    have "call_arrives os tr spawn uid c s = s\<lparr>sys_manager := m', sys_calls := sys_calls s @ [opened_call ?con h]\<rparr>"
      using h by (simp add: CreateGroupCall)
    also have "\<dots> = s\<lparr>sys_manager := ?m\<lparr>mgr_world := mgr_world m'\<rparr>, sys_calls := sys_calls s @ [opened_call ?con h]\<rparr>"
      using eff by (metis (no_types))
    finally show ?thesis by (rule effect_ok [OF s conjunct2 [OF eff] small]) blast
  qed (use other in auto)
qed

text \<open>
  A step fails only where the manager does, or when the job of a call fails after the call was answered.
\<close>

fun system_fails :: "env \<Rightarrow> system \<Rightarrow> system_event \<Rightarrow> abort \<Rightarrow> bool" where
  "system_fails env s (ManagerEvent e) a \<longleftrightarrow> manager_step env (sys_manager s) e = Inl a"
| "system_fails env s (DaemonEvent (JobEvent t ev)) a \<longleftrightarrow>
     a = UseAfterFree ''complete->invocation'' \<and>
     (\<exists>call \<in> set (sys_calls s). case call of OnTheObject u w \<Rightarrow> u = t \<and> replies (wait_closure w) \<noteq> [] | _ \<Rightarrow> False)"
| "system_fails env s e a = False"

lemma job_of_call_late:
  assumes "closure_ok (wait_closure call)" and "on_job_of_call call success message = Inl a"
  shows "a = UseAfterFree ''complete->invocation'' \<and> replies (wait_closure call) \<noteq> []"
  using assms
  by (auto simp: on_job_of_call_eq fail_call_def on_closure_complete_def closure_ok_def Let_def split: if_splits)

lemma calls_end_late:
  assumes "\<forall>c \<in> set cs. call_ok d c" and "calls_job_ends t success message cs = Inl a"
  shows "a = UseAfterFree ''complete->invocation'' \<and>
    (\<exists>c \<in> set cs. case c of OnTheObject u w \<Rightarrow> u = t \<and> replies (wait_closure w) \<noteq> [] | _ \<Rightarrow> False)"
  using assms
proof (induction cs)
  case (Cons c cs)
  then consider (here) "call_job_ends t success message c = Inl a" | (later) "calls_job_ends t success message cs = Inl a"
    by (auto simp: ebind_Inl)
  then show ?case
  proof cases
    case here
    with Cons.prems(1) job_of_call_late show ?thesis by (cases c) (auto simp: ebind_Inl split: if_splits)
  next
    case later
    with Cons show ?thesis by auto
  qed
qed simp

fun clients_then :: "nat \<Rightarrow> system_event \<Rightarrow> nat" where
  "clients_then n (DaemonEvent e) = clients_after n e"
| "clients_then n _ = n"

lemma job_event_ok:
  assumes s: "system_ok S n s" and can: "\<not> cancels_job ev"
  shows "case system_step env s (DaemonEvent (JobEvent t ev)) of
      Inl a \<Rightarrow> system_fails env s (DaemonEvent (JobEvent t ev)) a
    | Inr s' \<Rightarrow> system_ok S n s' \<and> job_id (sys_daemon s') = job_id (sys_daemon s)"
proof -
  let ?d = "sys_daemon s" and ?m = "sys_manager s"
  have d: "daemon_ok False ?d" and m: "groups_ok S ?m" and calls: "\<forall>c \<in> set (sys_calls s). call_ok ?d c"
    using s by (simp_all add: system_ok_def)
  obtain d' where d': "on_job_event ?d t ev = Inr d'" "daemon_ok False d'"
    using daemon_ok_job_event [OF d, of ev t] can by (auto split: sum.splits)
  note f = job_event_frame [OF d'(1)] and ends = completions_after [OF d d'(1)]
  have moves: "daemon_moves ?d d'" using d'(1) by (intro daemon_step_moves [OF d, of "path_of ?d" "JobEvent t ev"]) simp
  have groups: "groups_ok S (with_daemon ?m d')" by (rule groups_daemon [OF m moves daemon_ok_bus [OF d'(2)]])
  have typed: "jobs_typed d'"
  proof -
    have "fst ` set (jobs d') = fst ` set (jobs ?d)" using ends(1) can by simp
    then show ?thesis using s by (simp add: system_ok_def jobs_typed_def)
  qed
  have keep: "system_ok S n \<lparr>sys_manager = with_daemon ?m d', sys_calls = cs\<rparr>" if "\<forall>c \<in> set cs. call_ok d' c" for cs
    using s d'(2) f groups typed that by (simp add: system_ok_def)
  have same: "same_ends ?d d'" if "completions_of d' t = completions_of ?d t"
    unfolding same_ends_def using ends(1,2) can that by metis
  show ?thesis
  proof (cases "completions_of d' t = completions_of ?d t")
    case True
    then have "system_step env s (DaemonEvent (JobEvent t ev)) = Inr \<lparr>sys_manager = with_daemon ?m d', sys_calls = sys_calls s\<rparr>"
      using d'(1) by (simp add: with_daemon_def)
    moreover have "\<forall>c \<in> set (sys_calls s). call_ok d' c" using calls call_ok_same [OF same [OF True]] by blast
    ultimately show ?thesis using keep f by simp
  next
    case False
    then obtain success msg where x: "completions_of ?d t = []" "completions_of d' t = [(success, msg)]"
      using ends(3) can by auto
    have step: "system_step env s (DaemonEvent (JobEvent t ev)) =
        ebind (calls_job_ends t success msg (sys_calls s)) (\<lambda>cs. Inr \<lparr>sys_manager = with_daemon ?m d', sys_calls = cs\<rparr>)"
      using d'(1) x by (cases "calls_job_ends t success msg (sys_calls s)") (simp_all add: with_daemon_def)
    show ?thesis
    proof (cases "calls_job_ends t success msg (sys_calls s)")
      case (Inl a)
      with step calls_end_late [OF calls Inl] show ?thesis by simp
    next
      case (Inr cs)
      have "call_ok d' c'" if c': "c' \<in> set cs" for c'
      proof -
        obtain c where "c \<in> set (sys_calls s)" "call_job_ends t success msg c = Inr c'"
          using calls_end [OF Inr c'] by blast
        with calls show ?thesis by (intro call_end [OF _ x ends(2) ends(1)]) (use can in simp_all)
      qed
      with keep f Inr step show ?thesis by simp
    qed
  qed
qed

lemma daemon_event_ok:
  assumes s: "system_ok S n s" and ok: "event_ok (DaemonEvent e)" and gone: "e = ClientDisappeared \<longrightarrow> 0 < n"
    and n: "clients_after n e < 2 ^ 32"
  shows "case system_step env s (DaemonEvent e) of
      Inl a \<Rightarrow> system_fails env s (DaemonEvent e) a
    | Inr s' \<Rightarrow> system_ok S (clients_after n e) s' \<and> job_id (sys_daemon s') = job_id (sys_daemon s)"
proof (cases "\<exists>t ev. e = JobEvent t ev")
  case True
  then obtain t ev where "e = JobEvent t ev" by blast
  moreover have "clients_after n (JobEvent t ev) = n" by (simp add: clients_after_def)
  ultimately show ?thesis using job_event_ok [OF s, of ev env t] ok by (simp only: event_ok.simps cancels.simps simp_thms)
next
  case False
  let ?d = "sys_daemon s" and ?m = "sys_manager s"
  have d: "daemon_ok False ?d" and m: "groups_ok S ?m" and cl: "num_clients ?d = of_nat n" "n < 2 ^ 32"
    using s by (simp_all add: system_ok_def)
  have e: "\<not> launch e" "\<not> cancels e" "contract_kept e" using ok by (auto elim: contract_kept.elims) (cases e; simp)
  have "case daemon_step (path_of ?d) ?d e of
      Inl x \<Rightarrow> False
    | Inr d' \<Rightarrow> daemon_ok False d' \<and> num_clients d' = of_nat (clients_after n e) \<and> unat (job_id d') = unat (job_id ?d)"
    using daemon_step_ok [OF d cl _ e(3) gone, of "path_of ?d"] e(1,2) by (auto split: sum.splits)
  then obtain d' where d': "daemon_step (path_of ?d) ?d e = Inr d'" "daemon_ok False d'"
      "num_clients d' = of_nat (clients_after n e)" "job_id d' = job_id ?d"
    by (auto simp: word_unat_eq_iff split: sum.splits)
  have groups: "groups_ok S (with_daemon ?m d')"
    by (rule groups_daemon [OF m daemon_step_moves [OF d d'(1)] daemon_ok_bus [OF d'(2)]])
  have jobs: "jobs d' = jobs ?d"
    using d'(1) e(1) False
    by (cases e) (auto simp: on_name_acquired_def on_name_lost_def maybe_finished_def on_client_appeared_def
        on_client_disappeared_def on_manager_ready_def Let_def split: if_splits)
  have step: "system_step env s (DaemonEvent e) = Inr \<lparr>sys_manager = with_daemon ?m d', sys_calls = sys_calls s\<rparr>"
    using d'(1) False by (cases e) (simp_all add: with_daemon_def)
  have "system_ok S (clients_after n e) \<lparr>sys_manager = with_daemon ?m d', sys_calls = sys_calls s\<rparr>"
    using s d'(2,3) groups jobs n call_ok_same [OF same_ends_jobs [OF jobs]] by (simp add: system_ok_def jobs_typed_def)
  with step d'(4) show ?thesis by simp
qed

lemma manager_event_ok:
  assumes env: "inj_on escape S" "[] \<notin> S" "names_from S env" and s: "system_ok S n s" and ok: "udisks_paths e"
  shows "case system_step env s (ManagerEvent e) of
      Inl a \<Rightarrow> system_fails env s (ManagerEvent e) a
    | Inr s' \<Rightarrow> system_ok S n s' \<and> job_id (sys_daemon s') = job_id (sys_daemon s)"
proof (cases "manager_step env (sys_manager s) e")
  case (Inl a)
  then show ?thesis by simp
next
  case (Inr m)
  have m0: "groups_ok S (sys_manager s)" and d: "daemon_ok False (sys_daemon s)" "jobs_typed (sys_daemon s)"
    using s by (simp_all add: system_ok_def)
  note step = manager_step_daemon [OF env m0 ok d Inr]
  have "off_jobs (sys_daemon s) (manager_daemon m)"
    by (rule manager_step_off [OF env m0 ok daemon_ok_wf(2) [OF d(1)] Inr])
  from call_ok_same [OF same_ends_off [OF this]]
  have calls: "call_ok (manager_daemon m) c" if "c \<in> set (sys_calls s)" for c
    using s that by (simp add: system_ok_def)
  let ?s = "\<lparr>sys_manager = m,
      sys_calls = map (call_hears m (announced (sys_daemon s) (manager_daemon m))) (sys_calls s)\<rparr>"
  have "\<forall>c \<in> set (sys_calls ?s). call_ok (manager_daemon m) c" using calls call_ok_hears by fastforce
  then have "system_ok S n ?s"
    using s step manager_step_groups [OF env m0 ok Inr] unfolding system_ok_def by simp
  moreover have "system_step env s (ManagerEvent e) = Inr ?s" using Inr by simp
  ultimately show ?thesis using step by simp
qed

lemma system_step_ok:
  assumes env: "inj_on escape S" "[] \<notin> S" "names_from S env" and s: "system_ok S n s" and ok: "event_ok e"
    and "e = DaemonEvent ClientDisappeared \<longrightarrow> 0 < n" and "clients_then n e < 2 ^ 32"
    and "arrival e \<longrightarrow> unat (job_id (sys_daemon s)) < 2 ^ 31"
  shows "case system_step env s e of
      Inl a \<Rightarrow> system_fails env s e a
    | Inr s' \<Rightarrow> system_ok S (clients_then n e) s' \<and>
        unat (job_id (sys_daemon s')) \<le> unat (job_id (sys_daemon s)) + (if arrival e then 1 else 0)"
proof (cases e)
  case (ManagerEvent ev)
  with manager_event_ok [OF env s, of ev] ok show ?thesis by (auto split: sum.splits)
next
  case (DaemonEvent ev)
  with daemon_event_ok [OF s, of ev env] assms(5-7) show ?thesis by (auto split: sum.splits)
next
  case (CallArrives tr spawn uid c)
  with arrival_ok [OF s, of "env_os env" tr spawn uid c] assms(8) show ?thesis by simp
qed

lemma daemon_part_Cons: "daemon_events (e # es) = (case e of DaemonEvent ev \<Rightarrow> ev # daemon_events es | _ \<Rightarrow> daemon_events es)"
  by (cases e) simp_all

lemma clients_balanced_part:
  assumes "clients_balanced n (daemon_events (e # es))" and "n < 2 ^ 32"
  shows "clients_balanced (clients_then n e) (daemon_events es)" and "e = DaemonEvent ClientDisappeared \<longrightarrow> 0 < n"
    and "clients_then n e < 2 ^ 32"
  using assms clients_balanced_Cons [of n _ "daemon_events es"] by (cases e; fastforce)+

lemma system_run_ok:
  assumes "inj_on escape S" and "[] \<notin> S" and "names_from S env" and "system_ok S n s" and "list_all event_ok es"
    and "clients_balanced n (daemon_events es)"
    and "unat (job_id (sys_daemon s)) + length (filter arrival es) \<le> 2 ^ 31"
  shows "case run_steps (system_step env) s es of
      Inl a \<Rightarrow> \<exists>before e after t. es = before @ e # after \<and> run_steps (system_step env) s before = Inr t \<and> system_fails env t e a
    | Inr s' \<Rightarrow> \<exists>n. system_ok S n s'"
  using assms(4-)
proof (induction es arbitrary: s n)
  case (Cons e es)
  have n: "n < 2 ^ 32" using Cons.prems(1) by (simp add: system_ok_def)
  note bal = clients_balanced_part [OF Cons.prems(3) n]
  have step: "case system_step env s e of
      Inl a \<Rightarrow> system_fails env s e a
    | Inr s' \<Rightarrow> system_ok S (clients_then n e) s' \<and>
        unat (job_id (sys_daemon s')) \<le> unat (job_id (sys_daemon s)) + (if arrival e then 1 else 0)"
    by (rule system_step_ok [OF assms(1-3) Cons.prems(1) _ bal(2,3)]) (use Cons.prems(2,4) in auto)
  show ?case
  proof (cases "system_step env s e")
    case (Inl a)
    then have run: "run_steps (system_step env) s (e # es) = Inl a" and fails: "system_fails env s e a"
      using step by simp_all
    show ?thesis
      unfolding run sum.case
      by (intro exI [of _ "[]"] exI [of _ e] exI [of _ es] exI [of _ s]) (simp add: fails)
  next
    case (Inr s')
    with step have s': "system_ok S (clients_then n e) s'"
      "unat (job_id (sys_daemon s')) \<le> unat (job_id (sys_daemon s)) + (if arrival e then 1 else 0)" by simp_all
    have "case run_steps (system_step env) s' es of
      Inl a \<Rightarrow> \<exists>before e after t. es = before @ e # after \<and> run_steps (system_step env) s' before = Inr t \<and> system_fails env t e a
    | Inr s' \<Rightarrow> \<exists>n. system_ok S n s'"
      by (rule Cons.IH [OF s'(1) _ bal(1)]) (use Cons.prems(2,4) s'(2) in \<open>auto split: if_splits\<close>)
    moreover have run: "run_steps (system_step env) s (e # fs) = run_steps (system_step env) s' fs" for fs using Inr by simp
    moreover have "\<exists>before f after t. e # es = before @ f # after \<and> run_steps (system_step env) s before = Inr t \<and> system_fails env t f a"
      if "es = before @ f # after" "run_steps (system_step env) s' before = Inr t" "system_fails env t f a" for before f after t a
      using that run by (intro exI [of _ "e # before"] exI [of _ f] exI [of _ after] exI [of _ t]) simp
    ultimately show ?thesis unfolding run by (cases "run_steps (system_step env) s' es") (simp, blast, simp)
  qed
qed auto

lemma system_ok_start: "system_ok S 0 (system_new per dir)"
  using groups_ok_start [of S per dir] daemon_ok_init [of False per dir]
  by (auto simp: system_ok_def system_new_def jobs_typed_def storage_manager_new_def storage_daemon_init_def)

lemma system_run_start:
  assumes "inj_on escape S" and "[] \<notin> S" and "names_from S env" and "list_all event_ok es"
    and "clients_balanced 0 (daemon_events es)" and "length (filter arrival es) \<le> 2 ^ 31"
  shows "case run_steps (system_step env) (system_new per dir) es of
      Inl a \<Rightarrow> \<exists>before e after t. es = before @ e # after \<and>
        run_steps (system_step env) (system_new per dir) before = Inr t \<and> system_fails env t e a
    | Inr s' \<Rightarrow> \<exists>n. system_ok S n s'"
proof (rule system_run_ok [OF assms(1-3) system_ok_start assms(4,5)])
  have "job_id (sys_daemon (system_new per dir)) = 0"
    by (simp add: system_new_def storage_manager_new_def storage_daemon_init_def)
  then show "unat (job_id (sys_daemon (system_new per dir))) + length (filter arrival es) \<le> 2 ^ 31"
    using assms(6) by simp
qed

section \<open>A run\<close>

text \<open>
  The service finds the group \<open>vg0\<close>; a client deletes it, the job's thread runs, the main loop completes
  the job, and the caller is told.
\<close>

definition demo_events :: "system_event list" where
  "demo_events =
     map ManagerEvent (start_up @ [GroupDone 0 0 (ReaderData [])]) @
     [CallArrives [] (\<lambda>_. Inr 9) 0 (GroupCall (group_path ''vg0'') (VgDelete False)),
      DaemonEvent (JobEvent (Thing 1 StorageThreadedJob) (ThreadedEvent ThreadRuns)),
      DaemonEvent (JobEvent (Thing 1 StorageThreadedJob) (ThreadedEvent IdleRuns))]"

lemma demo_run:
  "\<exists>s f. run_steps (system_step one_group) (system_new True None) demo_events = Inr s \<and>
     sys_calls s = [OnTheJob (Thing 1 StorageThreadedJob) f [Return []]]"
proof -
  have thread: "fst (volume_group_delete_job_thread agreeing_os ''vg0'' [] []) = (True, None)" by code_simp
  show ?thesis
    by (simp add: demo_events_def system_new_def manager_eval published_group_def volume_group_update_props_def dicts_of_def
        lookup_defs update_all_blocks_def read_physical_volumes_def lvm_vg_update_done_def lvm_update_done_def
        trigger_delayed_lvm_update_def publish_def is_dbus_interface_def add_interface_def find_thing_def all_groups_def
        vg_handle_delete_def storage_daemon_launch_threaded_job_def storage_threaded_job_new_def storage_job_add_thing_def
        path_of_def export_job_def job.defs on_job_event_def find_job_def valid_job_path split_beta completions_of_def
        job_path_apart(2) [symmetric] set_job_def on_job_completed_def job_new_def run_io_scheduler_job_def thread
        job_complete_def threaded_job_completed_default_def on_delete_complete_def
        maybe_finished_def is_finished_def)
qed

lemma demo_ok:
  "inj_on escape {''vg0''}" "[] \<notin> {''vg0''}" "names_from {''vg0''} one_group" "list_all event_ok demo_events"
  "clients_balanced 0 (daemon_events demo_events)" "length (filter arrival demo_events) \<le> 2 ^ 31"
  by (simp_all add: names_from_def one_group_def dicts_of_def lookup_defs demo_events_def cancels_job_def)

section \<open>Properties\<close>

text \<open>Whether a job is exported.\<close>

definition on_bus :: "daemon \<Rightarrow> thing \<Rightarrow> bool" where
  "on_bus d t \<longleftrightarrow> path_of d t \<noteq> None"

lemma job_on_bus:
  assumes ok: "daemon_ok c d" and tj: "(t, j) \<in> set (jobs d)"
  shows "on_bus d t \<longleftrightarrow> job_open j"
proof (cases "job_open j")
  case True
  then obtain k where "places (objects d) t = {job_path k}"
    using daemon_ok_jobs(2) [OF ok tj] by (auto simp: placed_def)
  with True path_of_places [OF daemon_ok_wf(1) [OF ok]] show ?thesis by (simp add: on_bus_def)
next
  case False
  then have "places (objects d) t = {}" using daemon_ok_jobs(2) [OF ok tj] by (simp add: placed_def)
  with False no_place_path [OF daemon_ok_bus [OF ok]] show ?thesis by (simp add: on_bus_def)
qed

text \<open>
  C3: The whole service, from its start, with events of LVM, udev and udisks, calls from any number of
  clients, the steps of their jobs and the comings and goings of clients and the name in any order:
  no assertion of the daemon fails; it is cut short only where a step of the manager is, or when a
  job fails after the object its caller waited for has appeared. At every point the groups and volumes on
  the bus are those of the manager's table, the jobs on the bus are those that have not ended, and
  the daemon's counter is their number.
\<close>

theorem service_consistent:
  assumes "inj_on escape S" and "[] \<notin> S" and "names_from S env" and "list_all event_ok es"
    and "clients_balanced 0 (daemon_events es)" and "length (filter arrival es) \<le> 2 ^ 31"
  shows "case run_steps (system_step env) (system_new per dir) es of
      Inl a \<Rightarrow> \<exists>before e after s. es = before @ e # after \<and>
        run_steps (system_step env) (system_new per dir) before = Inr s \<and> system_fails env s e a
    | Inr s \<Rightarrow>
        (\<forall>t p. lvm_type (thing_type t) \<longrightarrow> (t \<in> interfaces_at (sys_daemon s) p \<longleftrightarrow> shown (sys_manager s) p t)) \<and>
        (\<forall>(t, j) \<in> set (jobs (sys_daemon s)). on_bus (sys_daemon s) t \<longleftrightarrow> job_open j) \<and>
        num_jobs (sys_daemon s) = of_nat (open_jobs (jobs (sys_daemon s)))"
proof -
  note run = system_run_start [OF assms, of per dir]
  show ?thesis
  proof (cases "run_steps (system_step env) (system_new per dir) es")
    case (Inl a)
    with run show ?thesis by simp
  next
    case (Inr s)
    then obtain n where s: "system_ok S n s" using run by auto
    then have d: "daemon_ok False (sys_daemon s)" by (simp add: system_ok_def)
    have "\<forall>t p. lvm_type (thing_type t) \<longrightarrow> (t \<in> interfaces_at (sys_daemon s) p \<longleftrightarrow> shown (sys_manager s) p t)"
      using s groups_ok_shown by (auto simp: system_ok_def)
    moreover have "num_jobs (sys_daemon s) = of_nat (open_jobs (jobs (sys_daemon s)))" using d by (simp add: daemon_ok_def)
    ultimately show ?thesis using Inr job_on_bus [OF d] by auto
  qed
qed

lemma service_consistent_witness:
  "\<exists>s. run_steps (system_step one_group) (system_new True None) demo_events = Inr s \<and>
     (\<forall>t p. lvm_type (thing_type t) \<longrightarrow> (t \<in> interfaces_at (sys_daemon s) p \<longleftrightarrow> shown (sys_manager s) p t)) \<and>
     num_jobs (sys_daemon s) = of_nat (open_jobs (jobs (sys_daemon s)))"
proof -
  obtain s where "run_steps (system_step one_group) (system_new True None) demo_events = Inr s" using demo_run by blast
  with service_consistent [OF demo_ok, of True None] show ?thesis by auto
qed

text \<open>
  C4: Every caller of the service gets at most one answer. One whose method answers when its job ends has
  none exactly while the job is on the bus, and then what the method says of the job's outcome. One
  that waits for an object is listened for exactly until it is told something, and its job is known
  to have ended exactly when it is off the bus.
\<close>

theorem callers_accounted:
  assumes "inj_on escape S" and "[] \<notin> S" and "names_from S env" and "list_all event_ok es"
    and "clients_balanced 0 (daemon_events es)" and "length (filter arrival es) \<le> 2 ^ 31"
    and run: "run_steps (system_step env) (system_new per dir) es = Inr s" and call: "call \<in> set (sys_calls s)"
  shows "length (replies_to call) \<le> 1 \<and>
    (case call of
       Told r \<Rightarrow> True
     | OnTheJob t f rs \<Rightarrow>
         (rs = [] \<longleftrightarrow> on_bus (sys_daemon s) t) \<and>
         rs = map (\<lambda>(success, message). f success message) (completions_of (sys_daemon s) t)
     | OnTheObject t w \<Rightarrow>
         (listening (wait_closure w) \<longleftrightarrow> replies (wait_closure w) = []) \<and>
         (job_done (wait_closure w) \<longleftrightarrow> \<not> on_bus (sys_daemon s) t))"
proof -
  obtain n where s: "system_ok S n s" using system_run_start [OF assms(1-6), of per dir] run by auto
  then have d: "daemon_ok False (sys_daemon s)" and c: "call_ok (sys_daemon s) call" using call by (simp_all add: system_ok_def)
  have job: "length (completions_of (sys_daemon s) t) \<le> 1 \<and> (completions_of (sys_daemon s) t = [] \<longleftrightarrow> on_bus (sys_daemon s) t)"
    if t: "t \<in> fst ` set (jobs (sys_daemon s))" for t
  proof -
    obtain j where j: "(t, j) \<in> set (jobs (sys_daemon s))" using t by auto
    then have "find_job (sys_daemon s) t = Some j" using daemon_ok_wf(2) [OF d] by (simp add: find_job_def)
    with good_completions [OF daemon_ok_jobs(1) [OF d j]] job_on_bus [OF d j]
    show ?thesis by (simp add: completions_of_def job_open_def)
  qed
  show ?thesis
  proof (cases call)
    case (OnTheJob t f rs)
    with c job [of t] show ?thesis by simp
  next
    case (OnTheObject t w)
    with c job [of t] show ?thesis by (auto simp: closure_ok_def split: if_splits)
  qed simp
qed

lemma callers_accounted_witness:
  "\<exists>s f. run_steps (system_step one_group) (system_new True None) demo_events = Inr s \<and>
     sys_calls s = [OnTheJob (Thing 1 StorageThreadedJob) f [Return []]] \<and>
     \<not> on_bus (sys_daemon s) (Thing 1 StorageThreadedJob)"
proof -
  obtain s f where s: "run_steps (system_step one_group) (system_new True None) demo_events = Inr s"
    "sys_calls s = [OnTheJob (Thing 1 StorageThreadedJob) f [Return []]]" using demo_run by blast
  from callers_accounted [OF demo_ok s(1), of "OnTheJob (Thing 1 StorageThreadedJob) f [Return []]"] s
  show ?thesis by auto
qed

end
