(* ===== verification/Main_Program.thy ===== *)
theory Main_Program
  imports Daemon
begin

text \<open>
  The main program, \<open>src/main.c\<close>: the options, where messages of the log go, the start, the
  callbacks that end the main loop, and the exit status. The daemon it makes is the one of
  \<open>Daemon\<close>, whose events the main loop delivers.
\<close>

section \<open>The log\<close>

text \<open>The levels of a message are bits, those of GLib's \<open>GLogLevelFlags\<close>; the priorities are those of \<open>syslog\<close>.\<close>

abbreviation (input) G_LOG_LEVEL_ERROR :: u32 where "G_LOG_LEVEL_ERROR \<equiv> 4"
abbreviation (input) G_LOG_LEVEL_CRITICAL :: u32 where "G_LOG_LEVEL_CRITICAL \<equiv> 8"
abbreviation (input) G_LOG_LEVEL_WARNING :: u32 where "G_LOG_LEVEL_WARNING \<equiv> 16"
abbreviation (input) G_LOG_LEVEL_MESSAGE :: u32 where "G_LOG_LEVEL_MESSAGE \<equiv> 32"
abbreviation (input) G_LOG_LEVEL_INFO :: u32 where "G_LOG_LEVEL_INFO \<equiv> 64"
abbreviation (input) G_LOG_LEVEL_DEBUG :: u32 where "G_LOG_LEVEL_DEBUG \<equiv> 128"
abbreviation (input) G_LOG_LEVEL_MASK :: u32 where "G_LOG_LEVEL_MASK \<equiv> NOT 3"

datatype priority = LOG_CRIT | LOG_ERR | LOG_WARNING | LOG_INFO

text \<open>What the program writes: requests of \<open>write\<close> on descriptor 1, of the system log, and on standard error.\<close>

datatype written =
    Written string
  | OpenLog
  | Syslog priority string
  | PrintErr string
  | GLibDefault u32 string

record log_state =
  have_called_openlog :: bool
  written :: "written list"

definition on_log_debug ::
  "string option \<Rightarrow> nat \<Rightarrow> string option \<Rightarrow> u32 \<Rightarrow> string option \<Rightarrow> log_state \<Rightarrow> log_state" where
  "on_log_debug prgname pid log_domain log_level message l =
     (let masked = log_level AND G_LOG_LEVEL_MASK;
          level = (if masked = G_LOG_LEVEL_DEBUG then ''DEBUG''
                   else if masked = G_LOG_LEVEL_INFO then ''INFO'' else []);
          text = ''('' @ case_option ''process'' id prgname @ '':'' @ dec pid @ ''): '' @
                 case_option [] id log_domain @ (if log_domain = None then [] else ''-'') @
                 level @ '': '' @ case_option ''(NULL) message'' id message @ [CHR 0x0A]
      in l\<lparr>written := written l @ [Written text]\<rparr>)"

text \<open>\<open>domains\<close> is the variable \<open>G_MESSAGES_DEBUG\<close> of the environment.\<close>

definition debug_wanted :: "string option \<Rightarrow> string option \<Rightarrow> bool" where
  "debug_wanted domains log_domain =
     (case domains of
        None \<Rightarrow> False
      | Some ds \<Rightarrow> ds = ''all'' \<or> (case log_domain of None \<Rightarrow> False | Some d \<Rightarrow> strstr ds d))"

definition on_log_handler :: "string option \<Rightarrow> string option \<Rightarrow> u32 \<Rightarrow> string \<Rightarrow> log_state \<Rightarrow> log_state" where
  "on_log_handler domains log_domain log_level message l =
     (let l = (if have_called_openlog l then l
               else l\<lparr>have_called_openlog := True, written := written l @ [OpenLog]\<rparr>);
          masked = log_level AND G_LOG_LEVEL_MASK;
          priority =
            (if masked = G_LOG_LEVEL_ERROR then Some LOG_CRIT
             else if masked = G_LOG_LEVEL_CRITICAL then Some LOG_CRIT
             else if masked = G_LOG_LEVEL_WARNING then Some LOG_ERR
             else if masked = G_LOG_LEVEL_INFO then Some LOG_INFO
             else if masked = G_LOG_LEVEL_DEBUG
             then (if debug_wanted domains log_domain then Some LOG_INFO else None)
             else Some LOG_WARNING)
      in case priority of
           None \<Rightarrow> l
         | Some p \<Rightarrow> l\<lparr>written := written l @ [Syslog p message]\<rparr>)"

section \<open>State of the program\<close>

record options =
  opt_replace :: bool
  opt_debug :: bool
  opt_resources :: "string option"

text \<open>
  What surrounds the program: its name and process id, the result of the first \<open>g_setenv\<close>, GLib's
  parser of the command line, the environment, and what fails when polkit is asked for.
\<close>

record surroundings =
  prgname :: "string option"
  pid :: nat
  setenv_ok :: bool
  option_parser :: "string list \<Rightarrow> string + options"
  environment :: "(string \<times> string) list"
  polkit_failure :: "string option"

text \<open>
  \<open>loop_running\<close> is false once \<open>g_main_loop_quit\<close> was called; \<open>watches_input\<close> is the watch on
  descriptor 0; \<open>name_flags\<close> are those the daemon asks for its name with.
\<close>

record program =
  options_of :: options
  log_of :: log_state
  env_vars :: "(string \<times> string) list"
  loop_running :: bool
  watches_input :: bool
  bus_pending :: bool
  name_flags :: u32
  daemon_of :: "daemon option"

text \<open>GLib sends a message of the daemon's log domain to the handler the program set for it.\<close>

abbreviation (input) log_domain_name :: string where "log_domain_name \<equiv> ''storaged''"

definition log_message :: "surroundings \<Rightarrow> u32 \<Rightarrow> string \<Rightarrow> program \<Rightarrow> abort + program" where
  "log_message sur level message p =
     (let debug = opt_debug (options_of p);
          handled =
            (if debug then
               if level AND (G_LOG_LEVEL_DEBUG OR G_LOG_LEVEL_INFO) \<noteq> 0
               then on_log_debug (prgname sur) (pid sur) (Some log_domain_name) level (Some message) (log_of p)
               else (log_of p)\<lparr>written := written (log_of p) @ [GLibDefault level message]\<rparr>
             else on_log_handler (map_of (env_vars p) ''G_MESSAGES_DEBUG'') (Some log_domain_name) level message
                    (log_of p));
          fatal = (if debug then G_LOG_LEVEL_ERROR OR G_LOG_LEVEL_CRITICAL OR G_LOG_LEVEL_WARNING
                   else G_LOG_LEVEL_ERROR)
      in if level AND fatal \<noteq> 0 then Inl (FatalMessage message) else Inr (p\<lparr>log_of := handled\<rparr>))"

section \<open>Callbacks of the main loop\<close>

definition quit_loop :: "program \<Rightarrow> program" where
  "quit_loop p = p\<lparr>loop_running := False\<rparr>"

text \<open>
  The construction of the daemon: its properties are set one by one, and then it connects to polkit,
  whose failure is only a warning. The flags are those of \<open>GBusNameOwnerFlags\<close>; of the connection
  only whether it is there is kept. The property for the object manager cannot be set: GLib warns.
\<close>

abbreviation (input) ALLOW_REPLACEMENT :: u32 where "ALLOW_REPLACEMENT \<equiv> 1"
abbreviation (input) REPLACE :: u32 where "REPLACE \<equiv> 2"

record new_daemon =
  nd_daemon :: daemon
  nd_connection :: bool
  nd_name_flags :: u32

datatype daemon_property =
    PropConnection bool
  | PropResourceDir "string option"
  | PropReplaceName bool
  | PropPersist bool
  | PropObjectManager bool

fun storage_daemon_set_property :: "new_daemon \<Rightarrow> daemon_property \<Rightarrow> abort + new_daemon" where
  "storage_daemon_set_property self (PropConnection conn) =
     (if nd_connection self then Inl (AssertFailed ''self->connection == NULL'')
      else Inr (self\<lparr>nd_connection := conn\<rparr>))"
| "storage_daemon_set_property self (PropResourceDir dir) =
     (if resource_dir (nd_daemon self) \<noteq> None then Inl (AssertFailed ''self->resource_dir == NULL'')
      else Inr (self\<lparr>nd_daemon := (nd_daemon self)\<lparr>resource_dir := dir\<rparr>\<rparr>))"
| "storage_daemon_set_property self (PropReplaceName replace) =
     Inr (self\<lparr>nd_name_flags := nd_name_flags self OR (if replace then REPLACE else 0)\<rparr>)"
| "storage_daemon_set_property self (PropPersist b) =
     Inr (self\<lparr>nd_daemon := (nd_daemon self)\<lparr>persist := b\<rparr>\<rparr>)"
| "storage_daemon_set_property self (PropObjectManager b) = Inr self"

definition storage_daemon_new :: "program \<Rightarrow> abort + new_daemon" where
  "storage_daemon_new p =
     (if daemon_of p \<noteq> None then Inl (AssertFailed ''default_daemon == NULL'')
      else run_steps storage_daemon_set_property
             \<lparr>nd_daemon = storage_daemon_init False None, nd_connection = False, nd_name_flags = ALLOW_REPLACEMENT\<rparr>
             [PropConnection True, PropResourceDir (opt_resources (options_of p)),
              PropReplaceName (opt_replace (options_of p)), PropPersist (opt_debug (options_of p))])"

definition storage_daemon_constructed :: "surroundings \<Rightarrow> program \<Rightarrow> abort + program" where
  "storage_daemon_constructed sur p =
     (case polkit_failure sur of
        None \<Rightarrow> Inr p
      | Some message \<Rightarrow> log_message sur G_LOG_LEVEL_WARNING (''Error initializing polkit authority: '' @ message) p)"

definition on_bus_acquired :: "surroundings \<Rightarrow> string option \<Rightarrow> program \<Rightarrow> abort + program" where
  "on_bus_acquired sur failure p =
     ebind (case failure of
        Some message \<Rightarrow>
          ebind (log_message sur G_LOG_LEVEL_WARNING (''Couldn't connect to system bus: '' @ message) p)
            (\<lambda>p. Inr (quit_loop p))
      | None \<Rightarrow>
          ebind (storage_daemon_new p) (\<lambda>n.
          storage_daemon_constructed sur
            (p\<lparr>daemon_of := Some (nd_daemon n), name_flags := nd_name_flags n\<rparr>)))
     (log_message sur G_LOG_LEVEL_DEBUG ''Connected to the system bus'')"

definition on_sigint :: "surroundings \<Rightarrow> program \<Rightarrow> abort + program" where
  "on_sigint sur p =
     ebind (log_message sur G_LOG_LEVEL_INFO ''Caught signal. Initiating shutdown'' p) (\<lambda>p. Inr (quit_loop p))"

definition on_stdout_close :: "program \<Rightarrow> program" where
  "on_stdout_close p =
     quit_loop (p\<lparr>log_of := (log_of p)\<lparr>written := written (log_of p) @ [Syslog LOG_INFO ''output closed'']\<rparr>,
                  watches_input := False\<rparr>)"

text \<open>
  An event of the daemon; when it emits \<open>finished\<close> its handler quits the loop. The answer about
  the bus comes once, and the input is watched until its handler has run.
\<close>

datatype main_event =
    BusAcquired "string option"
  | Signalled
  | InputClosed
  | DaemonEvent daemon_event

definition finished_since :: "daemon \<Rightarrow> daemon \<Rightarrow> bool" where
  "finished_since d d' \<longleftrightarrow> Finished \<in> set (drop (length (emitted d)) (emitted d'))"

fun main_step :: "surroundings \<Rightarrow> (thing \<Rightarrow> string option) \<Rightarrow> program \<Rightarrow> main_event \<Rightarrow> abort + program" where
  "main_step sur gp p (BusAcquired failure) =
     (if bus_pending p then on_bus_acquired sur failure (p\<lparr>bus_pending := False\<rparr>) else Inr p)"
| "main_step sur gp p Signalled = on_sigint sur p"
| "main_step sur gp p InputClosed = Inr (if watches_input p then on_stdout_close p else p)"
| "main_step sur gp p (DaemonEvent e) =
     (case daemon_of p of
        None \<Rightarrow> Inr p
      | Some d \<Rightarrow>
          ebind (daemon_step gp d e) (\<lambda>d'.
          let p = p\<lparr>daemon_of := Some d'\<rparr> in
          Inr (if finished_since d d' then quit_loop p else p)))"

section \<open>The main function\<close>

text \<open>
  \<open>g_main_loop_run\<close>: an iteration dispatches the events that are ready, then the loop looks
  whether it was quit. \<open>None\<close>: the program still runs after the iterations given.
\<close>

fun main_loop_run ::
  "surroundings \<Rightarrow> (thing \<Rightarrow> string option) \<Rightarrow> main_event list list \<Rightarrow> program \<Rightarrow> abort + program option" where
  "main_loop_run sur gp [] p = Inr (if loop_running p then None else Some p)"
| "main_loop_run sur gp (es # ess) p =
     (if \<not> loop_running p then Inr (Some p)
      else ebind (run_steps (main_step sur gp) p es) (main_loop_run sur gp ess))"

definition no_options :: options where
  "no_options = \<lparr>opt_replace = False, opt_debug = False, opt_resources = None\<rparr>"

definition initial_program :: "(string \<times> string) list \<Rightarrow> program" where
  "initial_program env =
     \<lparr>options_of = no_options, log_of = \<lparr>have_called_openlog = False, written = []\<rparr>, env_vars = env,
      loop_running = False, watches_input = False, bus_pending = False, name_flags = 0, daemon_of = None\<rparr>"

text \<open>Before the loop: an early end of the program is \<open>Inl\<close> of what it printed.\<close>

definition main_setup :: "surroundings \<Rightarrow> string list \<Rightarrow> string + program" where
  "main_setup sur argv =
     (if \<not> setenv_ok sur then Inl ''Error setting GIO_USE_GVFS''
      else case option_parser sur argv of
        Inl message \<Rightarrow> Inl (''Error parsing options: '' @ message)
      | Inr opts \<Rightarrow>
          let env = (''GIO_USE_VFS'', ''local'') # environment sur;
              env = (if map_of env ''PATH'' = None
                     then (''PATH'', ''/usr/bin:/bin:/usr/sbin:/sbin'') # env else env)
          in Inr ((initial_program env)\<lparr>options_of := opts, watches_input := opt_debug opts,
                    loop_running := True, bus_pending := True\<rparr>))"

text \<open>
  The exit status with what was written, or \<open>None\<close> while the loop runs. The messages at the start
  and at the end go through the log; \<open>version\<close> is \<open>PACKAGE_VERSION\<close>. When the start fails no handler
  was set, so the last message goes to GLib's own.
\<close>

definition main ::
  "surroundings \<Rightarrow> (thing \<Rightarrow> string option) \<Rightarrow> string \<Rightarrow> string list \<Rightarrow> main_event list list \<Rightarrow>
   abort + (nat \<times> written list) option" where
  "main sur gp version argv ess =
     (case main_setup sur argv of
        Inl printed \<Rightarrow>
          Inr (Some (1, [PrintErr printed, GLibDefault G_LOG_LEVEL_INFO (''storaged version '' @ version @ '' exiting'')]))
      | Inr p \<Rightarrow>
          ebind (log_message sur G_LOG_LEVEL_INFO (''storaged version '' @ version @ '' starting'') p) (\<lambda>p.
          ebind (log_message sur G_LOG_LEVEL_DEBUG ''Entering main event loop'' p) (\<lambda>p.
          ebind (main_loop_run sur gp ess p) (\<lambda>r.
          case r of
            None \<Rightarrow> Inr None
          | Some p \<Rightarrow>
              ebind (log_message sur G_LOG_LEVEL_INFO (''storaged version '' @ version @ '' exiting'') p) (\<lambda>p.
              Inr (Some (0, written (log_of p))))))))"

section \<open>Where messages go\<close>

definition severity :: "u32 \<Rightarrow> priority" where
  "severity level =
     (if level = G_LOG_LEVEL_ERROR \<or> level = G_LOG_LEVEL_CRITICAL then LOG_CRIT
      else if level = G_LOG_LEVEL_WARNING then LOG_ERR
      else if level = G_LOG_LEVEL_INFO \<or> level = G_LOG_LEVEL_DEBUG then LOG_INFO else LOG_WARNING)"

definition entries :: "string option \<Rightarrow> string option \<times> u32 \<times> string \<Rightarrow> written list" where
  "entries domains m =
     (case m of (log_domain, level, message) \<Rightarrow>
        if level AND G_LOG_LEVEL_MASK = G_LOG_LEVEL_DEBUG \<and> \<not> debug_wanted domains log_domain then []
        else [Syslog (severity (level AND G_LOG_LEVEL_MASK)) message])"

lemma log_handler_entries:
  "on_log_handler domains log_domain level message l =
     \<lparr>have_called_openlog = True,
      written = written l @ (if have_called_openlog l then [] else [OpenLog]) @
        entries domains (log_domain, level, message)\<rparr>"
  by (cases l) (auto simp: on_log_handler_def Let_def entries_def severity_def)

text \<open>
  In normal operation the system log is opened once, before the first message, and then gets
  every message in order with the priority of its level, except debug messages of domains that the
  environment does not ask for; the bits of GLib beside the level make no difference.
\<close>

theorem log_reaches_syslog:
  "written (fold (\<lambda>(log_domain, level, message). on_log_handler domains log_domain (level OR (flags AND 3)) message)
      ms \<lparr>have_called_openlog = False, written = out\<rparr>) =
   out @ (if ms = [] then [] else OpenLog # concat (map (entries domains) ms))"
proof -
  have mask: "(level OR (flags AND 3)) AND G_LOG_LEVEL_MASK = level AND G_LOG_LEVEL_MASK" for level :: u32
    by (rule bit_word_eqI) (auto simp: bit_simps)

  have same: "entries domains (log_domain, level OR (flags AND 3), message) = entries domains (log_domain, level, message)"
    for log_domain level message
    by (simp only: entries_def mask prod.case)
  have opened: "fold (\<lambda>(log_domain, level, message). on_log_handler domains log_domain (level OR (flags AND 3)) message)
      ms \<lparr>have_called_openlog = True, written = o1\<rparr> =
      \<lparr>have_called_openlog = True, written = o1 @ concat (map (entries domains) ms)\<rparr>" for o1 ms
    by (induction ms arbitrary: o1) (auto simp: same log_handler_entries)
  show ?thesis
    by (cases ms) (auto simp: same log_handler_entries opened)
qed

section \<open>What ends the main loop\<close>

text \<open>An event that quits the loop.\<close>

fun ends_loop :: "(thing \<Rightarrow> string option) \<Rightarrow> program \<Rightarrow> main_event \<Rightarrow> bool" where
  "ends_loop gp p (BusAcquired failure) = (bus_pending p \<and> failure \<noteq> None)"
| "ends_loop gp p Signalled = True"
| "ends_loop gp p InputClosed = watches_input p"
| "ends_loop gp p (DaemonEvent e) =
     (case daemon_of p of
        None \<Rightarrow> False
      | Some d \<Rightarrow> (case daemon_step gp d e of Inl _ \<Rightarrow> False | Inr d' \<Rightarrow> is_finished d' \<and> may_end d e d'))"

fun some_event_ends :: "surroundings \<Rightarrow> (thing \<Rightarrow> string option) \<Rightarrow> program \<Rightarrow> main_event list \<Rightarrow> bool" where
  "some_event_ends sur gp p [] = False"
| "some_event_ends sur gp p (e # es) =
     (ends_loop gp p e \<or> (case main_step sur gp p e of Inl _ \<Rightarrow> False | Inr p' \<Rightarrow> some_event_ends sur gp p' es))"

text \<open>The daemon that is made has the properties of the options.\<close>

lemma storage_daemon_new_eq:
  "daemon_of p = None \<Longrightarrow> storage_daemon_new p =
     Inr \<lparr>nd_daemon = storage_daemon_init (opt_debug (options_of p)) (opt_resources (options_of p)),
          nd_connection = True,
          nd_name_flags = ALLOW_REPLACEMENT OR (if opt_replace (options_of p) then REPLACE else 0)\<rparr>"
  by (simp add: storage_daemon_new_def storage_daemon_init_def)

lemma storage_daemon_new_Inr:
  "storage_daemon_new p = Inr n \<Longrightarrow>
   nd_daemon n = storage_daemon_init (opt_debug (options_of p)) (opt_resources (options_of p))"
  by (cases "daemon_of p") (auto simp: storage_daemon_new_eq, simp add: storage_daemon_new_def)

lemma log_message_frame:
  "log_message sur level m p = Inr p' \<Longrightarrow> p' = p\<lparr>log_of := log_of p'\<rparr>"
  by (cases p) (auto simp: log_message_def Let_def split: if_splits)

lemma finished_since_iff:
  assumes "daemon_step gp d e = Inr d'"
  shows "finished_since d d' \<longleftrightarrow> is_finished d' \<and> may_end d e d'"
  using announcements [OF assms] end_announced [OF assms]
  by (auto simp: finished_since_def announces_end_def)

lemma main_step_running:
  assumes "main_step sur gp p e = Inr p'"
  shows "loop_running p' \<longleftrightarrow> loop_running p \<and> \<not> ends_loop gp p e"
proof -
  have frame: "loop_running q' = loop_running q" if "log_message sur level m q = Inr q'" for level m q q'
    using log_message_frame [OF that] by (metis program.ext_inject program.surjective program.update_convs(2))
  show ?thesis
  proof (cases e)
    case (DaemonEvent de)
    show ?thesis
    proof (cases "daemon_of p")
      case (Some d)
      with assms DaemonEvent obtain d' where d': "daemon_step gp d de = Inr d'"
        and p': "p' = (if finished_since d d' then quit_loop (p\<lparr>daemon_of := Some d'\<rparr>) else p\<lparr>daemon_of := Some d'\<rparr>)"
        by (auto simp: ebind_Inr Let_def)
      from DaemonEvent Some finished_since_iff [OF d'] show ?thesis
        by (simp add: p' d' quit_loop_def)
    qed (use assms DaemonEvent in simp)
  qed (use assms in \<open>auto simp: on_bus_acquired_def on_sigint_def on_stdout_close_def quit_loop_def ebind_Inr
        storage_daemon_constructed_def dest!: frame split: if_splits option.splits\<close>)
qed

lemma run_running:
  "run_steps (main_step sur gp) p es = Inr p' \<Longrightarrow>
   loop_running p' \<longleftrightarrow> loop_running p \<and> \<not> some_event_ends sur gp p es"
  by (induction es arbitrary: p) (auto split: sum.splits dest: main_step_running)

lemma some_event_ends_append:
  "run_steps (main_step sur gp) p es = Inr p' \<Longrightarrow>
   some_event_ends sur gp p (es @ fs) \<longleftrightarrow> some_event_ends sur gp p es \<or> some_event_ends sur gp p' fs"
  by (induction es arbitrary: p) (auto split: sum.splits)

lemma loop_returns:
  "main_loop_run sur gp ess p = Inr r \<Longrightarrow> loop_running p \<Longrightarrow>
   r = None \<longleftrightarrow> \<not> some_event_ends sur gp p (concat ess)"
proof (induction ess arbitrary: p)
  case (Cons es ess)
  then obtain q where q: "run_steps (main_step sur gp) p es = Inr q" "main_loop_run sur gp ess q = Inr r"
    by (auto simp: ebind_Inr)
  show ?case
  proof (cases "loop_running q")
    case True
    with Cons q show ?thesis by (simp add: some_event_ends_append run_running)
  next
    case False
    with q have "r = Some q" by (cases ess) auto
    with False Cons.prems q show ?thesis by (simp add: some_event_ends_append run_running)
  qed
qed auto

text \<open>
  C38: The main loop returns exactly when the bus could not be reached, a signal came, the input
  that is watched in debug mode was closed, or the daemon became idle by losing its name, a client
  or its last job.
\<close>

theorem main_loop_returns:
  assumes "main_loop_run sur gp ess p = Inr r" and "loop_running p"
  shows "r \<noteq> None \<longleftrightarrow> some_event_ends sur gp p (concat ess)"
  using loop_returns [OF assms] by blast

section \<open>The end of the program\<close>

definition main_ok :: "options \<Rightarrow> program \<Rightarrow> bool" where
  "main_ok opts p \<longleftrightarrow> options_of p = opts \<and> (watches_input p \<longrightarrow> opt_debug opts) \<and>
     (bus_pending p \<longrightarrow> daemon_of p = None) \<and> (\<forall>d. daemon_of p = Some d \<longrightarrow> persist d = opt_debug opts)"

lemma main_ok_log [simp]: "main_ok opts (p\<lparr>log_of := l\<rparr>) = main_ok opts p"
  by (simp add: main_ok_def)

lemma main_ok_message: "log_message sur level m p = Inr p' \<Longrightarrow> main_ok opts p' = main_ok opts p"
  by (metis log_message_frame main_ok_log)

lemma main_ok_step:
  assumes "main_ok opts p" and "main_step sur gp p e = Inr p'"
  shows "main_ok opts p'"
proof -
  have quit: "main_ok opts (quit_loop q) = main_ok opts q" for q by (simp add: main_ok_def quit_loop_def)
  have pend: "main_ok opts (p\<lparr>bus_pending := False\<rparr>)" using assms(1) by (simp add: main_ok_def)
  have fresh: "main_ok opts (p\<lparr>bus_pending := False, daemon_of := Some (nd_daemon n), name_flags := fl\<rparr>)"
    if "storage_daemon_new (p\<lparr>bus_pending := False\<rparr>) = Inr n" for n fl
    using assms(1) storage_daemon_new_Inr [OF that] by (simp add: main_ok_def storage_daemon_init_def)
  show ?thesis
  proof (cases e)
    case (DaemonEvent de)
    with assms show ?thesis
      by (auto simp: ebind_Inr Let_def quit split: option.splits if_splits)
        (auto simp: main_ok_def dest: daemon_keeps_persist)
  next
    case (BusAcquired failure)
    with assms pend fresh show ?thesis
      by (auto simp: on_bus_acquired_def storage_daemon_constructed_def ebind_Inr quit main_ok_message
          split: option.splits if_splits)
  next
    case InputClosed
    with assms show ?thesis
      by (auto simp: on_stdout_close_def quit) (simp add: main_ok_def)
  next
    case Signalled
    with assms show ?thesis by (auto simp: on_sigint_def ebind_Inr quit main_ok_message)
  qed
qed

interpretation ml: guarded_machine "main_step sur gp" "main_ok opts" for sur gp opts
  by unfold_locales (rule main_ok_step)

text \<open>Which events can end a program with these options.\<close>

fun may_quit :: "options \<Rightarrow> main_event \<Rightarrow> bool" where
  "may_quit opts (BusAcquired failure) = (failure \<noteq> None \<and> \<not> opt_debug opts)"
| "may_quit opts Signalled = True"
| "may_quit opts InputClosed = opt_debug opts"
| "may_quit opts (DaemonEvent _) = (\<not> opt_debug opts)"

lemma ends_loop_may_quit:
  assumes "main_ok opts p" and "main_step sur gp p e = Inr p'" and "ends_loop gp p e"
  shows "may_quit opts e"
proof (cases e)
  case (DaemonEvent de)
  with assms obtain d d' where d: "daemon_of p = Some d" "daemon_step gp d de = Inr d'" "is_finished d'"
    by (auto split: option.splits sum.splits)
  with assms(1) daemon_keeps_persist [OF d(2)] DaemonEvent show ?thesis
    by (auto simp: main_ok_def is_finished_def)
next
  case (BusAcquired failure)
  with assms show ?thesis
    by (auto simp: main_ok_def on_bus_acquired_def log_message_def Let_def ebind_Inr split: option.splits if_splits)
qed (use assms in \<open>auto simp: main_ok_def\<close>)

lemma ended_by:
  "run_steps (main_step sur gp) p es = Inr p' \<Longrightarrow> main_ok opts p \<Longrightarrow> some_event_ends sur gp p es \<Longrightarrow>
   \<exists>e\<in>set es. may_quit opts e"
proof (induction es arbitrary: p)
  case (Cons e es)
  then obtain q where q: "main_step sur gp p e = Inr q" "run_steps (main_step sur gp) q es = Inr p'"
    by (auto split: sum.splits)
  show ?case
  proof (cases "ends_loop gp p e")
    case True
    with q Cons.prems(2) ends_loop_may_quit show ?thesis by fastforce
  next
    case False
    with Cons q main_ok_step show ?thesis by fastforce
  qed
qed simp

lemma loop_ended_by:
  "main_loop_run sur gp ess p = Inr (Some r) \<Longrightarrow> main_ok opts p \<Longrightarrow> loop_running p \<Longrightarrow>
   main_ok opts r \<and> (\<exists>e\<in>set (concat ess). may_quit opts e)"
proof (induction ess arbitrary: p)
  case (Cons es ess)
  then obtain q where q: "run_steps (main_step sur gp) p es = Inr q" "main_loop_run sur gp ess q = Inr (Some r)"
    by (auto simp: ebind_Inr)
  have ok: "main_ok opts q" using Cons.prems q(1) by (blast intro: ml.run_inv)
  show ?case
  proof (cases "loop_running q")
    case True
    with Cons.IH [OF q(2) ok] show ?thesis by auto
  next
    case False
    with q have "r = q" by (cases ess) auto
    moreover have "some_event_ends sur gp p es" using run_running [OF q(1)] False Cons.prems by simp
    ultimately show ?thesis using ended_by [OF q(1) Cons.prems(2)] ok by auto
  qed
qed auto


text \<open>
  C39: The exit status is 1 when the environment or the options are bad, and otherwise 0 once the
  loop has returned: in debug mode only because of a signal or because the input was closed, else
  also because the bus could not be reached or the daemon finished.
\<close>

theorem main_exit_status:
  assumes "main sur gp version argv ess = Inr (Some (status, out))"
  shows "if setenv_ok sur \<and> \<not> isl (option_parser sur argv)
    then status = 0 \<and> (\<exists>e\<in>set (concat ess). may_quit (projr (option_parser sur argv)) e)
    else status = 1 \<and> (\<forall>p s. Syslog p s \<notin> set out)"
proof (cases "main_setup sur argv")
  case (Inl printed)
  with assms show ?thesis
    by (auto simp: main_def main_setup_def Let_def split: if_splits sum.splits)
next
  case (Inr p)
  then obtain opts where opts: "setenv_ok sur" "option_parser sur argv = Inr opts" and p: "main_ok opts p" "loop_running p"
    by (auto simp: main_setup_def main_ok_def initial_program_def Let_def split: if_splits sum.splits)
  from assms Inr obtain q q' r where run: "log_message sur 64 (''storaged version '' @ version @ '' starting'') p = Inr q"
    "log_message sur 128 ''Entering main event loop'' q = Inr q'" "main_loop_run sur gp ess q' = Inr (Some r)"
    and "status = 0"
    by (auto simp: main_def ebind_Inr split: option.splits)
  have "main_ok opts q'" using p run(1,2) by (simp add: main_ok_message)
  moreover have "loop_running q'" using p(2) log_message_frame [OF run(1)] log_message_frame [OF run(2)]
    by (metis program.ext_inject program.surjective program.update_convs(2))
  ultimately show ?thesis
    using loop_ended_by [OF run(3)] opts \<open>status = 0\<close> by simp
qed

text \<open>
  A program that could not reach the bus says so in the system log, and then that it is
  connected when debug messages are wanted, and its exit status is that of success.
\<close>

theorem lost_bus_exits_zero:
  assumes "setenv_ok sur" and "option_parser sur argv = Inr opts" and "\<not> opt_debug opts"
  shows "\<exists>out. main sur gp version argv ([BusAcquired (Some m)] # ess) = Inr (Some (0, out)) \<and>
    Syslog LOG_ERR (''Couldn't connect to system bus: '' @ m) \<in> set out \<and>
    (debug_wanted (map_of (environment sur) ''G_MESSAGES_DEBUG'') (Some log_domain_name) \<longleftrightarrow>
     Syslog LOG_INFO ''Connected to the system bus'' \<in> set out)"
  using assms
  by (cases ess)
    (auto simp: main_def main_setup_def initial_program_def log_message_def Let_def log_handler_entries entries_def
      severity_def on_bus_acquired_def quit_loop_def)

section \<open>What can stop the program\<close>












section \<open>Example runs\<close>

definition demo_surroundings :: "bool \<Rightarrow> surroundings" where
  "demo_surroundings debug =
     \<lparr>prgname = Some ''storaged'', pid = 7, setenv_ok = True,
      option_parser = (\<lambda>argv. if argv = [] then Inl ''no name''
        else Inr \<lparr>opt_replace = False, opt_debug = debug, opt_resources = None\<rparr>),
      environment = [(''PATH'', ''/bin''), (''G_MESSAGES_DEBUG'', ''all'')], polkit_failure = None\<rparr>"

text \<open>The bus is acquired, the manager is ready, and the name belongs to another daemon.\<close>

definition name_taken :: "main_event list list" where
  "name_taken = [[BusAcquired None], [DaemonEvent ManagerReady], [DaemonEvent NameLost], [Signalled]]"

lemmas main_eval = main_def main_setup_def initial_program_def demo_surroundings_def log_message_def
  log_handler_entries entries_def severity_def debug_wanted_def on_bus_acquired_def on_sigint_def on_stdout_close_def
  quit_loop_def storage_daemon_init_def on_manager_ready_def on_name_lost_def maybe_finished_def is_finished_def
  finished_since_def publish_def is_dbus_interface_def storage_daemon_new_def storage_daemon_constructed_def
  may_end_def name_taken_def

lemma main_loop_returns_witness:
  "some_event_ends (demo_surroundings False) (\<lambda>_. None)
     (projr (main_setup (demo_surroundings False) [''storaged''])) (concat name_taken)"
proof -
  have "\<exists>r. main_loop_run (demo_surroundings False) (\<lambda>_. None) name_taken
      (projr (main_setup (demo_surroundings False) [''storaged''])) = Inr r \<and> r \<noteq> None"
    by (simp add: main_eval Let_def)
  then obtain r where r: "main_loop_run (demo_surroundings False) (\<lambda>_. None) name_taken
      (projr (main_setup (demo_surroundings False) [''storaged''])) = Inr r" "r \<noteq> None" by blast
  have "loop_running (projr (main_setup (demo_surroundings False) [''storaged'']))" by (simp add: main_eval Let_def)
  from main_loop_returns [OF r(1) this] r(2) show ?thesis by simp
qed

lemma main_exit_status_witness:
  "(\<exists>e\<in>set (concat name_taken). may_quit \<lparr>opt_replace = False, opt_debug = False, opt_resources = None\<rparr> e) \<and>
   (\<exists>out. main (demo_surroundings False) (\<lambda>_. None) ''2'' [] [] = Inr (Some (1, out)) \<and>
     (\<forall>m. Syslog LOG_INFO m \<notin> set out))"
proof -
  have "\<exists>out. main (demo_surroundings False) (\<lambda>_. None) ''2'' [''storaged''] name_taken = Inr (Some (0, out))"
    by (simp add: main_eval Let_def)
  then obtain out where run: "main (demo_surroundings False) (\<lambda>_. None) ''2'' [''storaged''] name_taken = Inr (Some (0, out))"
    by blast
  have "\<exists>out. main (demo_surroundings False) (\<lambda>_. None) ''2'' [] [] = Inr (Some (1, out))"
    by (simp add: main_eval)
  then obtain out' where fails: "main (demo_surroundings False) (\<lambda>_. None) ''2'' [] [] = Inr (Some (1, out'))" by blast
  from main_exit_status [OF run] main_exit_status [OF fails] fails show ?thesis
    by (auto simp: demo_surroundings_def)
qed

lemma lost_bus_exits_zero_witness:
  "\<exists>out. main (demo_surroundings False) (\<lambda>_. None) ''2'' [''storaged''] [[BusAcquired (Some ''no bus'')]] =
     Inr (Some (0, out)) \<and> Syslog LOG_INFO ''Connected to the system bus'' \<in> set out"
  using lost_bus_exits_zero [of "demo_surroundings False" "[''storaged'']"
      "\<lparr>opt_replace = False, opt_debug = False, opt_resources = None\<rparr>" "\<lambda>_. None" "''2''" "''no bus''" "[]"]
  by (auto simp: demo_surroundings_def debug_wanted_def)


end
