(* ===== verification/Object_Classes.thy ===== *)
theory Object_Classes
  imports Main_Program Volume_Group "HOL-Library.Multiset"
begin

text \<open>
  The classes the daemon registers with GObject: the properties and signals its \<open>class_init\<close>
  functions install, how \<open>set_property\<close> and \<open>get_property\<close> act on the fields of an object under
  construction, and what \<open>constructed\<close> makes of them. The other theories start from the objects that
  come out; here the construction itself is shown to give these, in whatever order GObject sets the
  properties.
\<close>

section \<open>Classes\<close>

text \<open>
  A class: the functions of \<open>GObjectClass\<close> it replaces, its properties and its signals. A property
  has a name, flags, and a default, which is a value of the type of settings of the class. A signal
  has its details, whether a handler that answers \<open>TRUE\<close> ends the emission, whether the class has a
  handler of its own, and the types of its arguments.
\<close>

datatype vfunc = Dispose | Finalize | Constructed | SetProperty | GetProperty

datatype param_flag = Readable | Writable | ConstructOnly

record 'p param_spec =
  spec_name :: string
  spec_flags :: "param_flag list"
  spec_default :: 'p

record signal_spec =
  sig_name :: string
  sig_detailed :: bool
  sig_true_handled :: bool
  sig_class_handler :: bool
  sig_args :: "string list"

record 'p gclass =
  overrides :: "vfunc list"
  properties :: "'p param_spec list"
  class_signals :: "signal_spec list"

definition has_flag :: "param_flag \<Rightarrow> 'p param_spec \<Rightarrow> bool" where
  "has_flag fl s \<longleftrightarrow> fl \<in> set (spec_flags s)"

definition lift_spec :: "('p \<Rightarrow> 'q) \<Rightarrow> 'p param_spec \<Rightarrow> 'q param_spec" where
  "lift_spec f s = \<lparr>spec_name = spec_name s, spec_flags = spec_flags s, spec_default = f (spec_default s)\<rparr>"

text \<open>
  What GObject documents of \<open>g_object_new\<close>: each construct-only property is set exactly once, to the
  value given or else to its default, and then \<open>constructed\<close> is called; the other properties given
  are set after that. Here \<open>key\<close> is the name of the property a setting is for. The order of the
  settings is left open.
\<close>

definition given_value :: "('p \<Rightarrow> string) \<Rightarrow> 'p list \<Rightarrow> 'p param_spec \<Rightarrow> 'p" where
  "given_value key given s =
     (case find (\<lambda>p. key p = spec_name s) given of Some p \<Rightarrow> p | None \<Rightarrow> spec_default s)"

definition construct_settings :: "('p \<Rightarrow> string) \<Rightarrow> 'p gclass \<Rightarrow> 'p list \<Rightarrow> 'p list" where
  "construct_settings key c given =
     map (given_value key given) (filter (has_flag ConstructOnly) (properties c))"

definition later_settings :: "('p \<Rightarrow> string) \<Rightarrow> 'p gclass \<Rightarrow> 'p list \<Rightarrow> 'p list" where
  "later_settings key c given =
     filter (\<lambda>p. key p \<notin> spec_name ` set (filter (has_flag ConstructOnly) (properties c))) given"

section \<open>Setting properties in any order\<close>

text \<open>
  The contract of a \<open>set_property\<close> function: a field nobody has set takes a fitting value, and the
  settings of two such fields commute. \<open>pristine\<close> are the names of the properties not set yet.
\<close>

definition settable :: "('p \<Rightarrow> string) \<Rightarrow> ('p \<Rightarrow> bool) \<Rightarrow> string set \<Rightarrow> 'p list \<Rightarrow> bool" where
  "settable key fits names ps \<longleftrightarrow> distinct (map key ps) \<and> (\<forall>p\<in>set ps. key p \<in> names \<and> fits p)"

lemma settable_Cons:
  "settable key fits names (p # ps) \<longleftrightarrow>
   key p \<in> names \<and> fits p \<and> settable key fits (names - {key p}) ps"
  by (auto simp: settable_def image_iff)

lemma settable_mono: "settable key fits names ps \<Longrightarrow> names \<subseteq> names' \<Longrightarrow> settable key fits names' ps"
  by (auto simp: settable_def)

lemma settable_mset:
  assumes "settable key fits names ps" and "mset ps = mset qs"
  shows "settable key fits names qs"
proof -
  have "mset (map key ps) = mset (map key qs)" using assms(2) by simp
  then have "distinct (map key qs)" using assms(1) by (metis settable_def mset_eq_imp_distinct_iff)
  then show ?thesis using assms(1) mset_eq_setD [OF assms(2)] by (simp add: settable_def)
qed

lemma run_two:
  "run_steps step s (p # q # ps) = ebind (ebind (step s p) (\<lambda>s. step s q)) (\<lambda>s. run_steps step s ps)"
  by (cases "step s p") (auto simp: ebind_def)

locale construct_properties =
  fixes key :: "'p \<Rightarrow> string"
    and set_property :: "'o \<Rightarrow> 'p \<Rightarrow> abort + 'o"
    and pristine :: "'o \<Rightarrow> string set"
    and fits :: "'p \<Rightarrow> bool"
  assumes set_once: "key p \<in> pristine s \<Longrightarrow> fits p \<Longrightarrow>
      \<exists>s'. set_property s p = Inr s' \<and> pristine s - {key p} \<subseteq> pristine s'"
    and set_commutes: "key p \<noteq> key q \<Longrightarrow> key p \<in> pristine s \<Longrightarrow> key q \<in> pristine s \<Longrightarrow> fits p \<Longrightarrow> fits q \<Longrightarrow>
      ebind (set_property s p) (\<lambda>s. set_property s q) = ebind (set_property s q) (\<lambda>s. set_property s p)"
begin

lemma set_next:
  assumes "settable key fits (pristine s) (p # ps)"
  obtains s' where "set_property s p = Inr s'" and "settable key fits (pristine s') ps"
  using assms set_once [of p s] by (auto simp: settable_Cons intro: settable_mono)

lemma never_fails: "settable key fits (pristine s) ps \<Longrightarrow> \<exists>s'. run_steps set_property s ps = Inr s'"
proof (induction ps arbitrary: s)
  case (Cons p ps)
  obtain s' where "set_property s p = Inr s'" "settable key fits (pristine s') ps"
    using set_next [OF Cons.prems] .
  with Cons.IH show ?case by simp
qed simp

lemma swap_first:
  assumes "settable key fits (pristine s) (p # q # ps)"
  shows "run_steps set_property s (p # q # ps) = run_steps set_property s (q # p # ps)"
proof -
  have "ebind (set_property s p) (\<lambda>s. set_property s q) = ebind (set_property s q) (\<lambda>s. set_property s p)"
    using assms by (intro set_commutes) (auto simp: settable_Cons)
  then show ?thesis by (simp add: run_two del: run_steps.simps)
qed

lemma to_front:
  "settable key fits (pristine s) (ps @ p # qs) \<Longrightarrow>
   run_steps set_property s (ps @ p # qs) = run_steps set_property s (p # ps @ qs)"
proof (induction ps arbitrary: s)
  case (Cons a ps)
  then have set: "settable key fits (pristine s) (a # ps @ p # qs)" by simp
  then obtain t where t: "set_property s a = Inr t" "settable key fits (pristine t) (ps @ p # qs)"
    by (rule set_next)
  have "settable key fits (pristine s) (a # p # ps @ qs)"
    by (rule settable_mset [OF set]) simp
  from swap_first [OF this] Cons.IH [OF t(2)] t(1) show ?case by simp
qed simp

lemma any_order:
  "settable key fits (pristine s) ps \<Longrightarrow> mset ps = mset qs \<Longrightarrow>
   run_steps set_property s ps = run_steps set_property s qs"
proof (induction ps arbitrary: s qs)
  case (Cons p ps)
  have "p \<in> set qs" using mset_eq_setD [OF Cons.prems(2)] by auto
  then obtain xs ys where qs: "qs = xs @ p # ys" by (meson split_list)
  then have rest: "mset ps = mset (xs @ ys)" using Cons.prems(2) by simp
  obtain t where t: "set_property s p = Inr t" "settable key fits (pristine t) ps"
    using set_next [OF Cons.prems(1)] .
  have "run_steps set_property s (xs @ p # ys) = run_steps set_property s (p # xs @ ys)"
    using settable_mset [OF Cons.prems] unfolding qs by (rule to_front)
  with Cons.IH [OF t(2) rest] t(1) qs show ?case by simp
qed simp

end

text \<open>The names of the properties that are set are those of the construct-only ones, once each.\<close>

lemma find_key: "find (\<lambda>p. key p = n) given = Some p \<Longrightarrow> key p = n"
  by (auto dest: find_SomeD)

lemma settable_construct:
  assumes "mset before = mset (construct_settings key c given)"
    and "distinct (map spec_name (filter (has_flag ConstructOnly) (properties c)))"
    and keys: "\<And>s. s \<in> set (properties c) \<Longrightarrow> has_flag ConstructOnly s \<Longrightarrow>
      key (spec_default s) = spec_name s \<and> spec_name s \<in> names"
    and fits: "\<And>p. p \<in> set (construct_settings key c given) \<Longrightarrow> fits p"
  shows "settable key fits names before"
proof -
  have key: "key (given_value key given s) = spec_name s" if "s \<in> set (properties c)" "has_flag ConstructOnly s" for s
    using keys [OF that] by (auto simp: given_value_def dest: find_key split: option.split)
  then have "map key (construct_settings key c given) = map spec_name (filter (has_flag ConstructOnly) (properties c))"
    by (simp add: construct_settings_def)
  moreover have "key p \<in> names" if "p \<in> set (construct_settings key c given)" for p
    using that key keys by (auto simp: construct_settings_def)
  ultimately have "settable key fits names (construct_settings key c given)"
    using assms(2) fits by (simp add: settable_def)
  then show ?thesis by (rule settable_mset) (simp add: assms(1))
qed

section \<open>Jobs\<close>

text \<open>
  The base class. The cancellable of a job under construction may be \<open>NULL\<close>; otherwise only whether
  it is cancelled is kept.
\<close>

record job_object =
  jo_job :: job
  jo_cancellable :: "bool option"

datatype job_property = PropCancellable "bool option" | PropAutoEstimate bool

fun job_key :: "job_property \<Rightarrow> string" where
  "job_key (PropCancellable c) = ''cancellable''"
| "job_key (PropAutoEstimate b) = ''auto-estimate''"

definition storage_job_class_init :: "job_property gclass" where
  "storage_job_class_init =
     \<lparr>overrides = [Finalize, Constructed, SetProperty, GetProperty],
      properties =
        [\<lparr>spec_name = ''cancellable'', spec_flags = [Readable, Writable, ConstructOnly],
          spec_default = PropCancellable None\<rparr>,
         \<lparr>spec_name = ''auto-estimate'', spec_flags = [Readable, Writable],
          spec_default = PropAutoEstimate False\<rparr>],
      class_signals = []\<rparr>"

fun storage_job_set_property ::
  "'a job_object_scheme \<Rightarrow> job_property \<Rightarrow> abort + 'a job_object_scheme" where
  "storage_job_set_property self (PropCancellable c) =
     (if jo_cancellable self \<noteq> None then Inl (AssertFailed ''self->priv->cancellable == NULL'')
      else Inr (self\<lparr>jo_cancellable := c\<rparr>))"
| "storage_job_set_property self (PropAutoEstimate b) =
     map_sum id (\<lambda>j. self\<lparr>jo_job := j\<rparr>) (storage_job_set_auto_estimate (jo_job self) b)"

text \<open>What \<open>get_property\<close> answers for a name; \<open>None\<close> is the warning about an invalid property.\<close>

definition storage_job_get_property :: "'a job_object_scheme \<Rightarrow> string \<Rightarrow> job_property option" where
  "storage_job_get_property self name =
     (if name = ''cancellable'' then Some (PropCancellable (jo_cancellable self))
      else if name = ''auto-estimate'' then Some (PropAutoEstimate (auto_estimate (jo_job self)))
      else None)"

definition storage_job_constructed :: "'a job_object_scheme \<Rightarrow> 'a job_object_scheme" where
  "storage_job_constructed self =
     (if jo_cancellable self = None then self\<lparr>jo_cancellable := Some False\<rparr> else self)"

text \<open>The job inside the object, with the state of its cancellable.\<close>

definition job_of_object :: "'a job_object_scheme \<Rightarrow> job" where
  "job_of_object self = (jo_job self)\<lparr>cancelled := (jo_cancellable self = Some True)\<rparr>"

subsection \<open>Spawned jobs\<close>

record spawned_object = job_object +
  so_argv :: "string list option"
  so_input_string :: "string option"
  so_run_as_uid :: u32
  so_run_as_euid :: u32

datatype spawned_property =
    SpawnedJobProp job_property
  | PropArgv "string list option"
  | PropInputString "string option"
  | PropRunAsUid u32
  | PropRunAsEuid u32

fun spawned_key :: "spawned_property \<Rightarrow> string" where
  "spawned_key (SpawnedJobProp p) = job_key p"
| "spawned_key (PropArgv a) = ''argv''"
| "spawned_key (PropInputString s) = ''input-string''"
| "spawned_key (PropRunAsUid u) = ''run-as-uid''"
| "spawned_key (PropRunAsEuid u) = ''run-as-euid''"

text \<open>The properties of a class follow those it inherits.\<close>

definition storage_spawned_job_class_init :: "spawned_property gclass" where
  "storage_spawned_job_class_init =
     \<lparr>overrides = [Finalize, Constructed, SetProperty, GetProperty],
      properties = map (lift_spec SpawnedJobProp) (properties storage_job_class_init) @
        [\<lparr>spec_name = ''argv'', spec_flags = [Readable, Writable, ConstructOnly], spec_default = PropArgv None\<rparr>,
         \<lparr>spec_name = ''input-string'', spec_flags = [Writable, ConstructOnly], spec_default = PropInputString None\<rparr>,
         \<lparr>spec_name = ''run-as-uid'', spec_flags = [Writable, ConstructOnly], spec_default = PropRunAsUid 0\<rparr>,
         \<lparr>spec_name = ''run-as-euid'', spec_flags = [Writable, ConstructOnly], spec_default = PropRunAsEuid 0\<rparr>],
      class_signals =
        [\<lparr>sig_name = ''spawned-job-completed'', sig_detailed = False, sig_true_handled = True,
          sig_class_handler = True, sig_args = [''GError'', ''gint'', ''GString'', ''GString'']\<rparr>]\<rparr>"

fun storage_spawned_job_set_property :: "spawned_object \<Rightarrow> spawned_property \<Rightarrow> abort + spawned_object" where
  "storage_spawned_job_set_property self (SpawnedJobProp p) = storage_job_set_property self p"
| "storage_spawned_job_set_property self (PropArgv a) =
     (if so_argv self \<noteq> None then Inl (AssertFailed ''self->argv == NULL'')
      else Inr (self\<lparr>so_argv := a\<rparr>))"
| "storage_spawned_job_set_property self (PropInputString s) =
     (if so_input_string self \<noteq> None then Inl (AssertFailed ''self->input_string == NULL'')
      else Inr (self\<lparr>so_input_string := s\<rparr>))"
| "storage_spawned_job_set_property self (PropRunAsUid u) = Inr (self\<lparr>so_run_as_uid := u\<rparr>)"
| "storage_spawned_job_set_property self (PropRunAsEuid u) = Inr (self\<lparr>so_run_as_euid := u\<rparr>)"

definition storage_spawned_job_get_property :: "spawned_object \<Rightarrow> string \<Rightarrow> spawned_property option" where
  "storage_spawned_job_get_property self name =
     (if name = ''argv'' then Some (PropArgv (so_argv self))
      else map_option SpawnedJobProp (storage_job_get_property self name))"

text \<open>Memory of a new object is zero; the run-time part of a job is added by \<open>storage_spawned_job_init\<close>.\<close>

definition new_spawned_object :: spawned_object where
  "new_spawned_object =
     \<lparr>jo_job = job_new, jo_cancellable = None, so_argv = None, so_input_string = None,
      so_run_as_uid = 0, so_run_as_euid = 0\<rparr>"

definition spawned_of_object :: "spawned_object \<Rightarrow> spawned_job" where
  "spawned_of_object self =
     (storage_spawned_job_init (case_option [] id (so_argv self)) (so_input_string self)
        (so_run_as_uid self) (so_run_as_euid self) (jo_cancellable self = Some True))
       \<lparr>auto_estimate := auto_estimate (jo_job self), handler_connected := handler_connected (jo_job self),
        samples := samples (jo_job self)\<rparr>"

text \<open>
  \<open>constructed\<close> of the class calls the one of its parent first. Without arguments GLib refuses to
  spawn and sets no error, so nothing is left to report.
\<close>

definition spawned_object_constructed ::
  "(string list \<Rightarrow> gerror + nat) \<Rightarrow> spawned_object \<Rightarrow> spawned_job" where
  "spawned_object_constructed spawn self =
     (let self = storage_job_constructed self; job = spawned_of_object self in
      if so_argv self \<noteq> None then storage_spawned_job_constructed spawn job
      else if cancelled job then emit_completed_with_error_in_idle job cancelled_error
      else job\<lparr>cancel_connected := True\<rparr>)"

text \<open>
  \<open>storage_spawned_job_new\<close>: the settings it gives to \<open>g_object_new\<close>, unless it returns \<open>NULL\<close> for
  missing arguments.
\<close>

definition spawned_job_settings ::
  "string list option \<Rightarrow> string option \<Rightarrow> u32 \<Rightarrow> u32 \<Rightarrow> bool option \<Rightarrow> spawned_property list option" where
  "spawned_job_settings argv input uid euid cancellable =
     (if argv = None then None
      else Some [PropArgv argv, PropInputString input, PropRunAsUid uid, PropRunAsEuid euid,
                 SpawnedJobProp (PropCancellable cancellable)])"

definition pristine_spawned :: "spawned_object \<Rightarrow> string set" where
  "pristine_spawned s =
     {n. n = ''cancellable'' \<and> jo_cancellable s = None \<or> n = ''argv'' \<and> so_argv s = None \<or>
         n = ''input-string'' \<and> so_input_string s = None \<or> n = ''run-as-uid'' \<or> n = ''run-as-euid''}"

lemma spawned_property_cases:
  obtains (cancellable) c where "p = SpawnedJobProp (PropCancellable c)"
  | (auto_estimate) b where "p = SpawnedJobProp (PropAutoEstimate b)"
  | (argv) a where "p = PropArgv a"
  | (input_string) s where "p = PropInputString s"
  | (run_as_uid) u where "p = PropRunAsUid u"
  | (run_as_euid) u where "p = PropRunAsEuid u"
proof (cases p)
  case (SpawnedJobProp q)
  then show ?thesis using that by (cases q) auto
qed (use that in auto)

interpretation spawned_class: construct_properties spawned_key storage_spawned_job_set_property pristine_spawned "\<lambda>_. True"
proof
  fix p q s
  show "\<exists>s'. storage_spawned_job_set_property s p = Inr s' \<and> pristine_spawned s - {spawned_key p} \<subseteq> pristine_spawned s'"
    if "spawned_key p \<in> pristine_spawned s"
    using that by (cases p rule: spawned_property_cases) (auto simp: pristine_spawned_def)
  show "ebind (storage_spawned_job_set_property s p) (\<lambda>s. storage_spawned_job_set_property s q) =
      ebind (storage_spawned_job_set_property s q) (\<lambda>s. storage_spawned_job_set_property s p)"
    if "spawned_key p \<noteq> spawned_key q" "spawned_key p \<in> pristine_spawned s" "spawned_key q \<in> pristine_spawned s"
    using that
    by (cases p rule: spawned_property_cases; cases q rule: spawned_property_cases) (auto simp: pristine_spawned_def)
qed

subsection \<open>Threaded jobs\<close>

text \<open>
  \<open>'d\<close> is what the user data points to; \<open>NULL\<close> is \<open>None\<close>. The function that frees the data is
  known by its address.
\<close>

record 'd threaded_object = job_object +
  to_job_func :: "('d option \<Rightarrow> job_func) option"
  to_user_data :: "'d option"
  to_free_func :: "nat option"

datatype 'd threaded_property =
    ThreadedJobProp job_property
  | PropJobFunc "('d option \<Rightarrow> job_func) option"
  | PropUserData "'d option"
  | PropUserDataFreeFunc "nat option"

fun threaded_key :: "'d threaded_property \<Rightarrow> string" where
  "threaded_key (ThreadedJobProp p) = job_key p"
| "threaded_key (PropJobFunc f) = ''job-func''"
| "threaded_key (PropUserData d) = ''user-data''"
| "threaded_key (PropUserDataFreeFunc f) = ''user-data-free-func''"

definition storage_threaded_job_class_init :: "'d threaded_property gclass" where
  "storage_threaded_job_class_init =
     \<lparr>overrides = [Finalize, Constructed, SetProperty, GetProperty],
      properties = map (lift_spec ThreadedJobProp) (properties storage_job_class_init) @
        [\<lparr>spec_name = ''job-func'', spec_flags = [Readable, Writable, ConstructOnly], spec_default = PropJobFunc None\<rparr>,
         \<lparr>spec_name = ''user-data'', spec_flags = [Readable, Writable, ConstructOnly], spec_default = PropUserData None\<rparr>,
         \<lparr>spec_name = ''user-data-free-func'', spec_flags = [Readable, Writable, ConstructOnly],
          spec_default = PropUserDataFreeFunc None\<rparr>],
      class_signals =
        [\<lparr>sig_name = ''threaded-job-completed'', sig_detailed = False, sig_true_handled = True,
          sig_class_handler = True, sig_args = [''gboolean'', ''GError'']\<rparr>]\<rparr>"

fun storage_threaded_job_set_property ::
  "'d threaded_object \<Rightarrow> 'd threaded_property \<Rightarrow> abort + 'd threaded_object" where
  "storage_threaded_job_set_property self (ThreadedJobProp p) = storage_job_set_property self p"
| "storage_threaded_job_set_property self (PropJobFunc f) =
     (if to_job_func self \<noteq> None then Inl (AssertFailed ''job->job_func == NULL'')
      else Inr (self\<lparr>to_job_func := f\<rparr>))"
| "storage_threaded_job_set_property self (PropUserData d) =
     (if to_user_data self \<noteq> None then Inl (AssertFailed ''job->user_data == NULL'')
      else Inr (self\<lparr>to_user_data := d\<rparr>))"
| "storage_threaded_job_set_property self (PropUserDataFreeFunc f) =
     (if to_free_func self \<noteq> None then Inl (AssertFailed ''job->user_data_free_func == NULL'')
      else Inr (self\<lparr>to_free_func := f\<rparr>))"

definition storage_threaded_job_get_property :: "'d threaded_object \<Rightarrow> string \<Rightarrow> 'd threaded_property option" where
  "storage_threaded_job_get_property self name =
     (if name = ''job-func'' then Some (PropJobFunc (to_job_func self))
      else if name = ''user-data'' then Some (PropUserData (to_user_data self))
      else if name = ''user-data-free-func'' then Some (PropUserDataFreeFunc (to_free_func self))
      else map_option ThreadedJobProp (storage_job_get_property self name))"

definition new_threaded_object :: "'d threaded_object" where
  "new_threaded_object =
     \<lparr>jo_job = job_new, jo_cancellable = None, to_job_func = None, to_user_data = None, to_free_func = None\<rparr>"

text \<open>
  \<open>storage_threaded_job_new\<close>: the settings it gives to \<open>g_object_new\<close>. \<open>constructed\<close> hands the job to
  the scheduler, which calls the function with the user data; \<open>None\<close> when there is no function.
\<close>

definition threaded_job_settings ::
  "('d option \<Rightarrow> job_func) option \<Rightarrow> 'd option \<Rightarrow> nat option \<Rightarrow> bool option \<Rightarrow> 'd threaded_property list" where
  "threaded_job_settings f d free cancellable =
     [PropJobFunc f, PropUserData d, PropUserDataFreeFunc free, ThreadedJobProp (PropCancellable cancellable)]"

definition threaded_object_constructed :: "'d threaded_object \<Rightarrow> threaded_job option" where
  "threaded_object_constructed self =
     (let self = storage_job_constructed self in
      case to_job_func self of
        None \<Rightarrow> None
      | Some f \<Rightarrow>
          Some (job.extend (job_of_object self)
            \<lparr>job_func = f (to_user_data self), job_result = False, job_error = None, phase = Scheduled,
             completions = []\<rparr>))"

definition pristine_threaded :: "'d threaded_object \<Rightarrow> string set" where
  "pristine_threaded s =
     {n. n = ''cancellable'' \<and> jo_cancellable s = None \<or> n = ''job-func'' \<and> to_job_func s = None \<or>
         n = ''user-data'' \<and> to_user_data s = None \<or> n = ''user-data-free-func'' \<and> to_free_func s = None}"

lemma threaded_property_cases:
  obtains (cancellable) c where "p = ThreadedJobProp (PropCancellable c)"
  | (auto_estimate) b where "p = ThreadedJobProp (PropAutoEstimate b)"
  | (job_func) f where "p = PropJobFunc f"
  | (user_data) d where "p = PropUserData d"
  | (free_func) f where "p = PropUserDataFreeFunc f"
proof (cases p)
  case (ThreadedJobProp q)
  then show ?thesis using that by (cases q) auto
qed (use that in auto)

interpretation threaded_class:
  construct_properties threaded_key storage_threaded_job_set_property pristine_threaded "\<lambda>_. True"
proof
  fix p q :: "'d threaded_property" and s
  show "\<exists>s'. storage_threaded_job_set_property s p = Inr s' \<and> pristine_threaded s - {threaded_key p} \<subseteq> pristine_threaded s'"
    if "threaded_key p \<in> pristine_threaded s"
    using that by (cases p rule: threaded_property_cases) (auto simp: pristine_threaded_def)
  show "ebind (storage_threaded_job_set_property s p) (\<lambda>s. storage_threaded_job_set_property s q) =
      ebind (storage_threaded_job_set_property s q) (\<lambda>s. storage_threaded_job_set_property s p)"
    if "threaded_key p \<noteq> threaded_key q" "threaded_key p \<in> pristine_threaded s" "threaded_key q \<in> pristine_threaded s"
    using that
    by (cases p rule: threaded_property_cases; cases q rule: threaded_property_cases) (auto simp: pristine_threaded_def)
qed

section \<open>Blocks, groups and volumes\<close>

subsection \<open>Blocks\<close>

text \<open>The proxy of the udisks block and the client of udev: only whether they are there is kept.\<close>

record block_object =
  bo_real_block :: bool
  bo_udev_client :: bool

datatype block_property = PropRealBlock bool | PropUdevClient bool

fun block_key :: "block_property \<Rightarrow> string" where
  "block_key (PropRealBlock b) = ''real-block''"
| "block_key (PropUdevClient b) = ''udev-client''"

definition storage_block_class_init :: "block_property gclass" where
  "storage_block_class_init =
     \<lparr>overrides = [Dispose, Finalize, SetProperty],
      properties =
        [\<lparr>spec_name = ''real-block'', spec_flags = [Writable, ConstructOnly], spec_default = PropRealBlock False\<rparr>,
         \<lparr>spec_name = ''udev-client'', spec_flags = [Writable, ConstructOnly], spec_default = PropUdevClient False\<rparr>],
      class_signals = []\<rparr>"

fun storage_block_set_property :: "block_object \<Rightarrow> block_property \<Rightarrow> abort + block_object" where
  "storage_block_set_property self (PropRealBlock b) =
     (if b then Inr (self\<lparr>bo_real_block := b\<rparr>) else Inl (AssertFailed ''self->real_block != NULL''))"
| "storage_block_set_property self (PropUdevClient b) =
     (if b then Inr (self\<lparr>bo_udev_client := b\<rparr>) else Inl (AssertFailed ''self->udev_client != NULL''))"

fun block_fits :: "block_property \<Rightarrow> bool" where
  "block_fits (PropRealBlock b) = b"
| "block_fits (PropUdevClient b) = b"

interpretation block_class:
  construct_properties block_key storage_block_set_property "\<lambda>_. {''real-block'', ''udev-client''}" block_fits
proof
  fix p q s
  show "\<exists>s'. storage_block_set_property s p = Inr s' \<and>
      {''real-block'', ''udev-client''} - {block_key p} \<subseteq> {''real-block'', ''udev-client''}"
    if "block_fits p" using that by (cases p) auto
  show "ebind (storage_block_set_property s p) (\<lambda>s. storage_block_set_property s q) =
      ebind (storage_block_set_property s q) (\<lambda>s. storage_block_set_property s p)"
    if "block_key p \<noteq> block_key q" "block_fits p" "block_fits q"
    using that by (cases p; cases q) auto
qed

subsection \<open>Volume groups\<close>

text \<open>The fields \<open>storage_volume_group_init\<close> and the properties fill, with the manager's instance.\<close>

record group_object =
  go_manager :: "thing option"
  go_name :: "string option"
  go_need_publish :: bool
  go_logical_volumes :: "logical_volume htab"
  go_physical_volumes :: "vardict htab"

datatype group_property = PropGroupName "string option" | PropManager "thing option"

fun group_key :: "group_property \<Rightarrow> string" where
  "group_key (PropGroupName n) = ''name''"
| "group_key (PropManager m) = ''manager''"

definition storage_volume_group_init :: group_object where
  "storage_volume_group_init =
     \<lparr>go_manager = None, go_name = None, go_need_publish = True, go_logical_volumes = [], go_physical_volumes = []\<rparr>"

definition storage_volume_group_class_init :: "group_property gclass" where
  "storage_volume_group_class_init =
     \<lparr>overrides = [Dispose, Finalize, SetProperty, GetProperty],
      properties =
        [\<lparr>spec_name = ''name'', spec_flags = [Readable, Writable], spec_default = PropGroupName None\<rparr>,
         \<lparr>spec_name = ''manager'', spec_flags = [Readable, Writable, ConstructOnly], spec_default = PropManager None\<rparr>],
      class_signals = []\<rparr>"

fun storage_volume_group_set_property :: "group_object \<Rightarrow> group_property \<Rightarrow> abort + group_object" where
  "storage_volume_group_set_property self (PropGroupName n) = Inr (self\<lparr>go_name := n\<rparr>)"
| "storage_volume_group_set_property self (PropManager m) =
     (if go_manager self \<noteq> None then Inl (AssertFailed ''self->manager == NULL'')
      else Inr (self\<lparr>go_manager := m\<rparr>))"

definition storage_volume_group_get_property :: "group_object \<Rightarrow> string \<Rightarrow> group_property option" where
  "storage_volume_group_get_property self name =
     (if name = ''name'' then Some (PropGroupName (go_name self))
      else if name = ''manager'' then Some (PropManager (go_manager self)) else None)"

text \<open>\<open>storage_volume_group_new\<close> gives both; the group of the other theories, with the instance \<open>t\<close>.\<close>

definition group_settings :: "thing option \<Rightarrow> string \<Rightarrow> group_property list" where
  "group_settings manager name = [PropManager manager, PropGroupName (Some name)]"

definition group_of_object :: "thing \<Rightarrow> group_object \<Rightarrow> volume_group option" where
  "group_of_object t self =
     map_option (\<lambda>name. (storage_volume_group_new t name)
       \<lparr>need_publish := go_need_publish self, logical_volumes := go_logical_volumes self,
        physical_volumes := go_physical_volumes self\<rparr>) (go_name self)"

interpretation group_class: construct_properties group_key storage_volume_group_set_property
  "\<lambda>s. if go_manager s = None then {''manager''} else {}" "\<lambda>_. True"
proof
  fix p q s
  show "\<exists>s'. storage_volume_group_set_property s p = Inr s' \<and>
      (if go_manager s = None then {''manager''} else {}) - {group_key p} \<subseteq> (if go_manager s' = None then {''manager''} else {})"
    if "group_key p \<in> (if go_manager s = None then {''manager''} else {})"
    using that by (cases p) (auto split: if_splits)
  show "ebind (storage_volume_group_set_property s p) (\<lambda>s. storage_volume_group_set_property s q) =
      ebind (storage_volume_group_set_property s q) (\<lambda>s. storage_volume_group_set_property s p)"
    if "group_key p \<noteq> group_key q"
    using that by (cases p; cases q) auto
qed

subsection \<open>Logical volumes\<close>

text \<open>
  The fields of a volume the properties fill. \<open>vo_refs\<close> counts for each group the references this
  volume has taken and not released.
\<close>

record volume_object =
  vo_name :: "string option"
  vo_volume_group :: "thing option"
  vo_needs_publish :: bool
  vo_needs_udev_hack :: bool
  vo_refs :: "thing \<Rightarrow> int"

datatype volume_property =
    PropVolumeName "string option"
  | PropGroup "thing option"
  | PropVolumeGroup "string option"

definition new_volume_object :: volume_object where
  "new_volume_object =
     \<lparr>vo_name = None, vo_volume_group = None, vo_needs_publish = True, vo_needs_udev_hack = True, vo_refs = (\<lambda>_. 0)\<rparr>"

definition storage_logical_volume_class_init :: "volume_property gclass" where
  "storage_logical_volume_class_init =
     \<lparr>overrides = [Dispose, Finalize, SetProperty, GetProperty],
      properties =
        [\<lparr>spec_name = ''name'', spec_flags = [Writable, Readable], spec_default = PropVolumeName None\<rparr>,
         \<lparr>spec_name = ''group'', spec_flags = [Readable, Writable], spec_default = PropGroup None\<rparr>,
         \<lparr>spec_name = ''volume-group'', spec_flags = [Readable, Writable], spec_default = PropVolumeGroup (Some ''/'')\<rparr>],
      class_signals = []\<rparr>"

definition storage_logical_volume_set_volume_group :: "volume_object \<Rightarrow> thing option \<Rightarrow> volume_object" where
  "storage_logical_volume_set_volume_group self grp =
     (let self = (case vo_volume_group self of
                    None \<Rightarrow> self
                  | Some g \<Rightarrow> self\<lparr>vo_volume_group := None, vo_refs := (vo_refs self)(g := vo_refs self g - 1)\<rparr>)
      in case grp of
           None \<Rightarrow> self
         | Some g \<Rightarrow> self\<lparr>vo_volume_group := Some g, vo_refs := (vo_refs self)(g := vo_refs self g + 1)\<rparr>)"

fun storage_logical_volume_set_property :: "volume_object \<Rightarrow> volume_property \<Rightarrow> abort + volume_object" where
  "storage_logical_volume_set_property self (PropVolumeName n) = Inr (self\<lparr>vo_name := n\<rparr>)"
| "storage_logical_volume_set_property self (PropGroup g) = Inr (storage_logical_volume_set_volume_group self g)"
| "storage_logical_volume_set_property self (PropVolumeGroup path) =
     Inl (AssertFailed ''code should not be reached'')"

definition storage_logical_volume_get_property ::
  "(thing \<Rightarrow> string option) \<Rightarrow> volume_object \<Rightarrow> string \<Rightarrow> volume_property option" where
  "storage_logical_volume_get_property get_path self name =
     (if name = ''name'' then Some (PropVolumeName (vo_name self))
      else if name = ''group'' then Some (PropGroup (vo_volume_group self))
      else if name = ''volume-group'' then
        Some (PropVolumeGroup (case vo_volume_group self of None \<Rightarrow> Some ''/'' | Some g \<Rightarrow> get_path g))
      else None)"

definition storage_logical_volume_finalize :: "volume_object \<Rightarrow> volume_object" where
  "storage_logical_volume_finalize self = self\<lparr>vo_name := None\<rparr>"

text \<open>\<open>storage_logical_volume_new\<close> gives two of them; the volume of the other theories.\<close>

definition volume_settings :: "thing option \<Rightarrow> string option \<Rightarrow> volume_property list option" where
  "volume_settings grp name =
     (if grp = None \<or> name = None then None else Some [PropGroup grp, PropVolumeName name])"

definition volume_of_object :: "thing \<Rightarrow> volume_object \<Rightarrow> logical_volume option" where
  "volume_of_object t self =
     (case (vo_volume_group self, vo_name self) of
        (Some g, Some name) \<Rightarrow>
          Some ((storage_logical_volume_new t g name)
            \<lparr>needs_publish := vo_needs_publish self, needs_udev_hack := vo_needs_udev_hack self\<rparr>)
      | _ \<Rightarrow> None)"

fun volume_key :: "volume_property \<Rightarrow> string" where
  "volume_key (PropVolumeName n) = ''name''"
| "volume_key (PropGroup g) = ''group''"
| "volume_key (PropVolumeGroup p) = ''volume-group''"

interpretation volume_class: construct_properties volume_key storage_logical_volume_set_property
  "\<lambda>_. {''name'', ''group'', ''volume-group''}" "\<lambda>p. volume_key p \<noteq> ''volume-group''"
proof
  fix p q s
  show "\<exists>s'. storage_logical_volume_set_property s p = Inr s' \<and>
      {''name'', ''group'', ''volume-group''} - {volume_key p} \<subseteq> {''name'', ''group'', ''volume-group''}"
    if "volume_key p \<noteq> ''volume-group''"
    using that by (cases p) auto
  show "ebind (storage_logical_volume_set_property s p) (\<lambda>s. storage_logical_volume_set_property s q) =
      ebind (storage_logical_volume_set_property s q) (\<lambda>s. storage_logical_volume_set_property s p)"
    if "volume_key p \<noteq> volume_key q" "volume_key p \<noteq> ''volume-group''" "volume_key q \<noteq> ''volume-group''"
    using that
    by (cases p; cases q) (auto simp: storage_logical_volume_set_volume_group_def split: option.splits)
qed

section \<open>The daemon\<close>

fun daemon_key :: "daemon_property \<Rightarrow> string" where
  "daemon_key (PropConnection c) = ''connection''"
| "daemon_key (PropObjectManager b) = ''object-manager''"
| "daemon_key (PropResourceDir dir) = ''resource-dir''"
| "daemon_key (PropReplaceName b) = ''replace-name''"
| "daemon_key (PropPersist b) = ''persist''"

definition storage_daemon_class_init :: "daemon_property gclass" where
  "storage_daemon_class_init =
     \<lparr>overrides = [Finalize, Constructed, SetProperty, GetProperty],
      properties =
        [\<lparr>spec_name = ''connection'', spec_flags = [Writable, ConstructOnly], spec_default = PropConnection False\<rparr>,
         \<lparr>spec_name = ''object-manager'', spec_flags = [Readable], spec_default = PropObjectManager False\<rparr>,
         \<lparr>spec_name = ''resource-dir'', spec_flags = [Writable, ConstructOnly], spec_default = PropResourceDir None\<rparr>,
         \<lparr>spec_name = ''replace-name'', spec_flags = [Writable, ConstructOnly], spec_default = PropReplaceName False\<rparr>,
         \<lparr>spec_name = ''persist'', spec_flags = [Writable, ConstructOnly], spec_default = PropPersist False\<rparr>],
      class_signals =
        [\<lparr>sig_name = ''published'', sig_detailed = True, sig_true_handled = False, sig_class_handler = False,
          sig_args = [''GDBusObject'']\<rparr>,
         \<lparr>sig_name = ''finished'', sig_detailed = False, sig_true_handled = False, sig_class_handler = False,
          sig_args = []\<rparr>]\<rparr>"

text \<open>The class of the manager has no properties and a signal that is never emitted.\<close>

definition storage_manager_class_init :: "unit gclass" where
  "storage_manager_class_init =
     \<lparr>overrides = [Constructed, Finalize], properties = [],
      class_signals =
        [\<lparr>sig_name = ''coldplug-completed'', sig_detailed = False, sig_true_handled = False,
          sig_class_handler = False, sig_args = []\<rparr>]\<rparr>"

text \<open>\<open>made\<close>: whether \<open>constructed\<close> has made the object manager.\<close>

definition storage_daemon_get_property :: "bool \<Rightarrow> string \<Rightarrow> daemon_property option" where
  "storage_daemon_get_property made name =
     (if name = ''object-manager'' then Some (PropObjectManager made) else None)"

definition pristine_daemon :: "new_daemon \<Rightarrow> string set" where
  "pristine_daemon s =
     {n. n = ''connection'' \<and> \<not> nd_connection s \<or> n = ''resource-dir'' \<and> resource_dir (nd_daemon s) = None \<or>
         n = ''replace-name'' \<or> n = ''persist''}"

lemma daemon_commutes:
  "daemon_key p \<noteq> daemon_key q \<Longrightarrow> daemon_key p \<in> pristine_daemon s \<Longrightarrow> daemon_key q \<in> pristine_daemon s \<Longrightarrow>
   ebind (storage_daemon_set_property s p) (\<lambda>s. storage_daemon_set_property s q) =
   ebind (storage_daemon_set_property s q) (\<lambda>s. storage_daemon_set_property s p)"
  by (induction p; induction q; simp add: pristine_daemon_def)

interpretation daemon_class: construct_properties daemon_key storage_daemon_set_property pristine_daemon "\<lambda>_. True"
proof
  fix p q s
  show "\<exists>s'. storage_daemon_set_property s p = Inr s' \<and> pristine_daemon s - {daemon_key p} \<subseteq> pristine_daemon s'"
    if "daemon_key p \<in> pristine_daemon s"
    using that by (cases p) (auto simp: pristine_daemon_def)
  show "ebind (storage_daemon_set_property s p) (\<lambda>s. storage_daemon_set_property s q) =
      ebind (storage_daemon_set_property s q) (\<lambda>s. storage_daemon_set_property s p)"
    if "daemon_key p \<noteq> daemon_key q" "daemon_key p \<in> pristine_daemon s" "daemon_key q \<in> pristine_daemon s"
    using that by (rule daemon_commutes)
qed

section \<open>Construction\<close>

lemmas class_inits = storage_job_class_init_def storage_spawned_job_class_init_def
  storage_threaded_job_class_init_def storage_block_class_init_def storage_volume_group_class_init_def
  storage_logical_volume_class_init_def storage_daemon_class_init_def

lemmas settings_eval = class_inits construct_settings_def later_settings_def given_value_def has_flag_def lift_spec_def

text \<open>The settings that the constructors of the files give.\<close>

lemma spawned_construct_settings:
  "construct_settings spawned_key storage_spawned_job_class_init
     (the (spawned_job_settings (Some argv) input uid euid c)) =
   [SpawnedJobProp (PropCancellable c), PropArgv (Some argv), PropInputString input, PropRunAsUid uid, PropRunAsEuid euid]"
  by (simp add: settings_eval spawned_job_settings_def)

lemma threaded_construct_settings:
  "construct_settings threaded_key storage_threaded_job_class_init (threaded_job_settings f d free c) =
   [ThreadedJobProp (PropCancellable c), PropJobFunc f, PropUserData d, PropUserDataFreeFunc free]"
  by (simp add: settings_eval threaded_job_settings_def)

lemma daemon_construct_settings:
  "construct_settings daemon_key storage_daemon_class_init
     [PropConnection c, PropResourceDir dir, PropReplaceName r, PropPersist b] =
   [PropConnection c, PropResourceDir dir, PropReplaceName r, PropPersist b]"
  by (simp add: settings_eval)

lemma group_construct_settings:
  "construct_settings group_key storage_volume_group_class_init (group_settings m name) = [PropManager m]"
  "later_settings group_key storage_volume_group_class_init (group_settings m name) = [PropGroupName (Some name)]"
  by (simp_all add: settings_eval group_settings_def)

lemma spawned_any_order:
  assumes "mset before = mset (construct_settings spawned_key storage_spawned_job_class_init
      (the (spawned_job_settings (Some argv) input uid euid c)))"
  shows "map_sum id (\<lambda>s. (spawned_object_constructed spawn s)\<lparr>cancelable := True\<rparr>)
      (run_steps storage_spawned_job_set_property new_spawned_object before) =
    Inr (storage_spawned_job_new spawn argv input uid euid (c = Some True))"
proof -
  let ?ps = "[SpawnedJobProp (PropCancellable c), PropArgv (Some argv), PropInputString input, PropRunAsUid uid, PropRunAsEuid euid]"
  have "settable spawned_key (\<lambda>_. True) (pristine_spawned new_spawned_object) ?ps"
    by (simp add: settable_def pristine_spawned_def new_spawned_object_def)
  then have "run_steps storage_spawned_job_set_property new_spawned_object ?ps =
      run_steps storage_spawned_job_set_property new_spawned_object before"
    by (rule spawned_class.any_order) (simp add: assms spawned_construct_settings del: mset.simps)
  then have "run_steps storage_spawned_job_set_property new_spawned_object before =
      Inr \<lparr>jo_job = job_new, jo_cancellable = c, so_argv = Some argv, so_input_string = input,
        so_run_as_uid = uid, so_run_as_euid = euid\<rparr>"
    by (simp add: new_spawned_object_def)
  then show ?thesis
    by (simp add: spawned_object_constructed_def storage_spawned_job_new_def storage_job_constructed_def
        spawned_of_object_def Let_def storage_spawned_job_init_def job_new_def job.defs)
qed

lemma threaded_any_order:
  assumes "mset before = mset (construct_settings threaded_key storage_threaded_job_class_init
      (threaded_job_settings (Some f) d free c))"
  shows "map_sum id threaded_object_constructed (run_steps storage_threaded_job_set_property new_threaded_object before) =
    Inr (Some (storage_threaded_job_new (f d) (c = Some True)))"
proof -
  let ?ps = "[ThreadedJobProp (PropCancellable c), PropJobFunc (Some f), PropUserData d, PropUserDataFreeFunc free]"
  have "settable threaded_key (\<lambda>_. True) (pristine_threaded new_threaded_object) ?ps"
    by (simp add: settable_def pristine_threaded_def new_threaded_object_def)
  then have "run_steps storage_threaded_job_set_property new_threaded_object ?ps =
      run_steps storage_threaded_job_set_property new_threaded_object before"
    by (rule threaded_class.any_order) (simp add: assms threaded_construct_settings del: mset.simps)
  then have "run_steps storage_threaded_job_set_property new_threaded_object before =
      Inr \<lparr>jo_job = job_new, jo_cancellable = c, to_job_func = Some f, to_user_data = d, to_free_func = free\<rparr>"
    by (simp add: new_threaded_object_def)
  then show ?thesis
    by (simp add: threaded_object_constructed_def storage_threaded_job_new_def storage_job_constructed_def
        job_of_object_def Let_def job_new_def job.defs)
qed

lemma daemon_any_order:
  assumes "mset before = mset (construct_settings daemon_key storage_daemon_class_init
      [PropConnection True, PropResourceDir (opt_resources (options_of p)), PropReplaceName (opt_replace (options_of p)),
       PropPersist (opt_debug (options_of p))])"
    and "daemon_of p = None"
  shows "run_steps storage_daemon_set_property
      \<lparr>nd_daemon = storage_daemon_init False None, nd_connection = False, nd_name_flags = ALLOW_REPLACEMENT\<rparr> before =
    storage_daemon_new p"
proof -
  let ?ps = "[PropConnection True, PropResourceDir (opt_resources (options_of p)), PropReplaceName (opt_replace (options_of p)),
       PropPersist (opt_debug (options_of p))]"
  let ?s = "\<lparr>nd_daemon = storage_daemon_init False None, nd_connection = False, nd_name_flags = ALLOW_REPLACEMENT\<rparr>"
  have "settable daemon_key (\<lambda>_. True) (pristine_daemon ?s) ?ps"
    by (simp add: settable_def pristine_daemon_def storage_daemon_init_def)
  then have "run_steps storage_daemon_set_property ?s ?ps = run_steps storage_daemon_set_property ?s before"
    by (rule daemon_class.any_order) (simp add: assms(1) daemon_construct_settings del: mset.simps)
  with assms(2) show ?thesis by (simp add: storage_daemon_new_def del: run_steps.simps)
qed

lemma group_any_order:
  assumes "mset before = mset (construct_settings group_key storage_volume_group_class_init (group_settings m name))"
  shows "map_sum id (group_of_object t)
      (ebind (run_steps storage_volume_group_set_property storage_volume_group_init before)
         (\<lambda>s. run_steps storage_volume_group_set_property s
            (later_settings group_key storage_volume_group_class_init (group_settings m name)))) =
    Inr (Some (storage_volume_group_new t name))"
proof -
  have "before = [PropManager m]" using assms by (simp add: group_construct_settings)
  then show ?thesis
    by (simp add: group_construct_settings storage_volume_group_init_def group_of_object_def storage_volume_group_new_def)
qed

lemma volume_any_order:
  assumes "mset after = mset (the (volume_settings (Some g) (Some name)))"
  shows "map_sum id (volume_of_object t) (run_steps storage_logical_volume_set_property new_volume_object after) =
    Inr (Some (storage_logical_volume_new t g name))"
proof -
  let ?ps = "[PropGroup (Some g), PropVolumeName (Some name)]"
  have "settable volume_key (\<lambda>p. volume_key p \<noteq> ''volume-group'') {''name'', ''group'', ''volume-group''} ?ps"
    by (simp add: settable_def)
  then have "run_steps storage_logical_volume_set_property new_volume_object ?ps =
      run_steps storage_logical_volume_set_property new_volume_object after"
    by (rule volume_class.any_order) (simp add: assms volume_settings_def)
  from this [symmetric] show ?thesis
    by (simp add: new_volume_object_def storage_logical_volume_set_volume_group_def volume_of_object_def
        storage_logical_volume_new_def)
qed

text \<open>
  C40: The objects of the other theories are the ones GObject makes: in whatever order it sets the
  construct properties that the constructors of the files give, and those they leave to their
  defaults, every assertion of \<open>set_property\<close> holds, and the spawned and threaded jobs, the daemon,
  the groups and the volumes come out as the model's constructors make them.
\<close>

theorem objects_any_order:
  assumes "mset b1 = mset (construct_settings spawned_key storage_spawned_job_class_init
      (the (spawned_job_settings (Some argv) input uid euid c)))"
    and "mset b2 = mset (construct_settings threaded_key storage_threaded_job_class_init
      (threaded_job_settings (Some f) d free c))"
    and "mset b3 = mset (construct_settings daemon_key storage_daemon_class_init
      [PropConnection True, PropResourceDir (opt_resources (options_of p)), PropReplaceName (opt_replace (options_of p)),
       PropPersist (opt_debug (options_of p))])"
    and "mset b4 = mset (construct_settings group_key storage_volume_group_class_init (group_settings m name))"
    and "mset b5 = mset (the (volume_settings (Some g) (Some lv)))"
    and "daemon_of p = None"
  shows "map_sum id (\<lambda>s. (spawned_object_constructed spawn s)\<lparr>cancelable := True\<rparr>)
      (run_steps storage_spawned_job_set_property new_spawned_object b1) =
      Inr (storage_spawned_job_new spawn argv input uid euid (c = Some True)) \<and>
    map_sum id threaded_object_constructed (run_steps storage_threaded_job_set_property new_threaded_object b2) =
      Inr (Some (storage_threaded_job_new (f d) (c = Some True))) \<and>
    run_steps storage_daemon_set_property
      \<lparr>nd_daemon = storage_daemon_init False None, nd_connection = False, nd_name_flags = ALLOW_REPLACEMENT\<rparr> b3 =
      storage_daemon_new p \<and>
    map_sum id (group_of_object t)
      (ebind (run_steps storage_volume_group_set_property storage_volume_group_init b4)
         (\<lambda>s. run_steps storage_volume_group_set_property s
            (later_settings group_key storage_volume_group_class_init (group_settings m name)))) =
      Inr (Some (storage_volume_group_new t name)) \<and>
    map_sum id (volume_of_object u) (run_steps storage_logical_volume_set_property new_volume_object b5) =
      Inr (Some (storage_logical_volume_new u g lv))"
  using spawned_any_order [OF assms(1)] threaded_any_order [OF assms(2)] daemon_any_order [OF assms(3,6)]
    group_any_order [OF assms(4)] volume_any_order [OF assms(5)] by blast

text \<open>The settings in the reverse of the order of the class, or of the call.\<close>

lemma objects_any_order_witness:
  "map_sum id (\<lambda>s. (spawned_object_constructed (\<lambda>_. Inr 7) s)\<lparr>cancelable := True\<rparr>)
      (run_steps storage_spawned_job_set_property new_spawned_object
        [PropRunAsEuid 0, PropRunAsUid 0, PropInputString None, PropArgv (Some [''lvs'']),
         SpawnedJobProp (PropCancellable None)]) =
     Inr (storage_spawned_job_new (\<lambda>_. Inr 7) [''lvs''] None 0 0 False) \<and>
   map_sum id (volume_of_object (Thing 1 StorageLogicalVolume))
     (run_steps storage_logical_volume_set_property new_volume_object
        [PropVolumeName (Some ''a''), PropGroup (Some (Thing 0 StorageVolumeGroup))]) =
     Inr (Some (storage_logical_volume_new (Thing 1 StorageLogicalVolume) (Thing 0 StorageVolumeGroup) ''a''))"
proof -
  let ?p = "initial_program []"
  have h1: "mset [PropRunAsEuid 0, PropRunAsUid 0, PropInputString None, PropArgv (Some [''lvs'']),
         SpawnedJobProp (PropCancellable None)] = mset (construct_settings spawned_key storage_spawned_job_class_init
      (the (spawned_job_settings (Some [''lvs'']) None 0 0 None)))"
    by (simp only: spawned_construct_settings) simp
  have h2: "mset [PropUserDataFreeFunc None, PropUserData (Some (5::nat)), PropJobFunc (Some (\<lambda>_ _. (True, None))),
      ThreadedJobProp (PropCancellable None)] = mset (construct_settings threaded_key storage_threaded_job_class_init
      (threaded_job_settings (Some (\<lambda>_ _. (True, None))) (Some (5::nat)) None None))"
    by (simp only: threaded_construct_settings) simp
  have h3: "mset [PropPersist False, PropReplaceName False, PropResourceDir None, PropConnection True] =
      mset (construct_settings daemon_key storage_daemon_class_init
      [PropConnection True, PropResourceDir (opt_resources (options_of ?p)), PropReplaceName (opt_replace (options_of ?p)),
       PropPersist (opt_debug (options_of ?p))])"
    by (simp only: daemon_construct_settings) (simp add: initial_program_def no_options_def)
  have h4: "mset [PropManager None] =
      mset (construct_settings group_key storage_volume_group_class_init (group_settings None ''vg0''))"
    by (simp only: group_construct_settings)
  have h5: "mset [PropVolumeName (Some ''a''), PropGroup (Some (Thing 0 StorageVolumeGroup))] =
      mset (the (volume_settings (Some (Thing 0 StorageVolumeGroup)) (Some ''a'')))"
    by (simp add: volume_settings_def)
  have h6: "daemon_of ?p = None" by (simp add: initial_program_def)
  show ?thesis
    using objects_any_order [OF h1 h2 h3 h4 h5 h6, where spawn = "\<lambda>_. Inr 7" and u = "Thing 1 StorageLogicalVolume"]
    by (simp del: run_steps.simps)
qed

section \<open>Properties of a volume\<close>

text \<open>The value a property was set to last, \<open>d\<close> before that.\<close>

fun last_name :: "string option \<Rightarrow> volume_property list \<Rightarrow> string option" where
  "last_name d [] = d"
| "last_name d (PropVolumeName n # ps) = last_name n ps"
| "last_name d (_ # ps) = last_name d ps"

fun last_group :: "thing option \<Rightarrow> volume_property list \<Rightarrow> thing option" where
  "last_group d [] = d"
| "last_group d (PropGroup g # ps) = last_group g ps"
| "last_group d (_ # ps) = last_group d ps"

definition refs_balanced :: "volume_object \<Rightarrow> bool" where
  "refs_balanced s \<longleftrightarrow> (\<forall>g. vo_refs s g = (if vo_volume_group s = Some g then 1 else 0))"

lemma set_volume_group_balanced:
  "refs_balanced s \<Longrightarrow> refs_balanced (storage_logical_volume_set_volume_group s g)"
  by (auto simp: refs_balanced_def storage_logical_volume_set_volume_group_def split: option.splits)

lemma set_volume_group_simps [simp]:
  "vo_name (storage_logical_volume_set_volume_group s g) = vo_name s"
  "vo_volume_group (storage_logical_volume_set_volume_group s g) = g"
  by (auto simp: storage_logical_volume_set_volume_group_def split: option.splits)

lemma volume_run:
  "refs_balanced s \<Longrightarrow>
   case run_steps storage_logical_volume_set_property s ps of
     Inl x \<Rightarrow> x = AssertFailed ''code should not be reached'' \<and> (\<exists>path. PropVolumeGroup path \<in> set ps)
   | Inr s' \<Rightarrow> (\<forall>path. PropVolumeGroup path \<notin> set ps) \<and> refs_balanced s' \<and>
       vo_name s' = last_name (vo_name s) ps \<and> vo_volume_group s' = last_group (vo_volume_group s) ps"
proof (induction ps arbitrary: s)
  case (Cons p ps)
  show ?case
  proof (cases p)
    case (PropVolumeName n)
    with Cons.IH [of "s\<lparr>vo_name := n\<rparr>"] Cons.prems show ?thesis
      by (auto simp: refs_balanced_def split: sum.splits)
  next
    case (PropGroup g)
    with Cons.IH [OF set_volume_group_balanced [OF Cons.prems, of g]] show ?thesis
      by (auto split: sum.splits)
  qed auto
qed simp

text \<open>
  Whatever properties of a new volume are set, by anyone and in any order, \<open>name\<close> and \<open>group\<close> read
  back what they were set to last and \<open>volume-group\<close> the path of that group, or \<open>/\<close>. Setting
  \<open>volume-group\<close>, which the class declares writable, is the one thing that stops the program. When
  the volume is finalized, the reference it holds on its last group is not released.
\<close>

theorem volume_properties_settle:
  "case run_steps storage_logical_volume_set_property new_volume_object ps of
     Inl x \<Rightarrow> x = AssertFailed ''code should not be reached'' \<and> (\<exists>path. PropVolumeGroup path \<in> set ps)
   | Inr s \<Rightarrow> (\<forall>path. PropVolumeGroup path \<notin> set ps) \<and>
       storage_logical_volume_get_property get_path s ''name'' = Some (PropVolumeName (last_name None ps)) \<and>
       storage_logical_volume_get_property get_path s ''group'' = Some (PropGroup (last_group None ps)) \<and>
       storage_logical_volume_get_property get_path s ''volume-group'' =
         Some (PropVolumeGroup (case last_group None ps of None \<Rightarrow> Some ''/'' | Some g \<Rightarrow> get_path g)) \<and>
       vo_refs (storage_logical_volume_finalize s) =
         (\<lambda>g. if last_group None ps = Some g then 1 else 0)"
proof -
  have "refs_balanced new_volume_object" by (simp add: refs_balanced_def new_volume_object_def)
  from volume_run [OF this, of ps] show ?thesis
    by (auto simp: storage_logical_volume_get_property_def storage_logical_volume_finalize_def refs_balanced_def
        new_volume_object_def fun_eq_iff split: sum.splits)
qed

section \<open>Flags\<close>

text \<open>
  What a class declares readable is what its \<open>get_property\<close> answers, with a setting for the same
  property; so a client of a property never gets the warning about an invalid one.
\<close>

definition answers :: "('p \<Rightarrow> string) \<Rightarrow> 'p gclass \<Rightarrow> (string \<Rightarrow> 'p option) \<Rightarrow> bool" where
  "answers key c get \<longleftrightarrow>
     (\<forall>n. (get n \<noteq> None \<longleftrightarrow> n \<in> spec_name ` set (filter (has_flag Readable) (properties c))) \<and>
          (\<forall>p. get n = Some p \<longrightarrow> key p = n))"

theorem readable_properties_answered:
  "answers job_key storage_job_class_init (storage_job_get_property j) \<and>
   answers spawned_key storage_spawned_job_class_init (storage_spawned_job_get_property s) \<and>
   answers threaded_key storage_threaded_job_class_init (storage_threaded_job_get_property t) \<and>
   answers group_key storage_volume_group_class_init (storage_volume_group_get_property g) \<and>
   answers volume_key storage_logical_volume_class_init (storage_logical_volume_get_property get_path v) \<and>
   answers daemon_key storage_daemon_class_init (storage_daemon_get_property made)"
  by (auto simp: answers_def settings_eval storage_job_get_property_def storage_spawned_job_get_property_def
      storage_threaded_job_get_property_def storage_volume_group_get_property_def
      storage_logical_volume_get_property_def storage_daemon_get_property_def)

lemma block_run_aborts: "isl (run_steps storage_block_set_property s ps) \<longleftrightarrow> (\<exists>p\<in>set ps. \<not> block_fits p)"
proof (induction ps arbitrary: s)
  case (Cons p ps)
  then show ?case by (cases p) auto
qed simp

text \<open>
  However the construct properties are given, which may be left out or be given twice, no order in
  which GObject sets them makes an assertion of \<open>set_property\<close> fail, except that a block cannot do
  without the proxy of its udisks block or the client of udev.
\<close>

theorem construction_never_asserts:
  assumes "mset b1 = mset (construct_settings spawned_key storage_spawned_job_class_init given1)"
    and "mset b2 = mset (construct_settings threaded_key storage_threaded_job_class_init given2)"
    and "mset b3 = mset (construct_settings daemon_key storage_daemon_class_init given3)"
    and "mset b4 = mset (construct_settings group_key storage_volume_group_class_init given4)"
    and "mset b5 = mset (construct_settings block_key storage_block_class_init given5)"
  shows "\<not> isl (run_steps storage_spawned_job_set_property new_spawned_object b1) \<and>
    \<not> isl (run_steps storage_threaded_job_set_property new_threaded_object b2) \<and>
    \<not> isl (run_steps storage_daemon_set_property
      \<lparr>nd_daemon = storage_daemon_init False None, nd_connection = False, nd_name_flags = ALLOW_REPLACEMENT\<rparr> b3) \<and>
    \<not> isl (run_steps storage_volume_group_set_property storage_volume_group_init b4) \<and>
    (isl (run_steps storage_block_set_property \<lparr>bo_real_block = False, bo_udev_client = False\<rparr> b5) \<longleftrightarrow>
     (\<exists>p\<in>set (construct_settings block_key storage_block_class_init given5). \<not> block_fits p))"
proof (intro conjI)
  let ?d = "\<lparr>nd_daemon = storage_daemon_init False None, nd_connection = False, nd_name_flags = ALLOW_REPLACEMENT\<rparr>"
  let ?b = "\<lparr>bo_real_block = False, bo_udev_client = False\<rparr>"
  have "settable spawned_key (\<lambda>_. True) (pristine_spawned new_spawned_object) b1"
    by (rule settable_construct [OF assms(1)]) (auto simp: settings_eval pristine_spawned_def new_spawned_object_def)
  then show "\<not> isl (run_steps storage_spawned_job_set_property new_spawned_object b1)"
    using spawned_class.never_fails by force
  have "settable threaded_key (\<lambda>_. True) (pristine_threaded new_threaded_object) b2"
    by (rule settable_construct [OF assms(2)]) (auto simp: settings_eval pristine_threaded_def new_threaded_object_def)
  then show "\<not> isl (run_steps storage_threaded_job_set_property new_threaded_object b2)"
    using threaded_class.never_fails by force
  have "settable daemon_key (\<lambda>_. True) (pristine_daemon ?d) b3"
    by (rule settable_construct [OF assms(3)]) (auto simp: settings_eval pristine_daemon_def storage_daemon_init_def)
  then show "\<not> isl (run_steps storage_daemon_set_property ?d b3)"
    using daemon_class.never_fails by force
  have "settable group_key (\<lambda>_. True) {''manager''} b4"
    by (rule settable_construct [OF assms(4)]) (auto simp: settings_eval)
  then show "\<not> isl (run_steps storage_volume_group_set_property storage_volume_group_init b4)"
    using group_class.never_fails [of storage_volume_group_init b4] by (force simp: storage_volume_group_init_def)
  show "isl (run_steps storage_block_set_property ?b b5) \<longleftrightarrow>
      (\<exists>p\<in>set (construct_settings block_key storage_block_class_init given5). \<not> block_fits p)"
    by (simp only: block_run_aborts mset_eq_setD [OF assms(5)])
qed

lemma construction_never_asserts_witness:
  "\<not> isl (run_steps storage_spawned_job_set_property new_spawned_object
       [SpawnedJobProp (PropCancellable None), PropArgv None, PropInputString None, PropRunAsUid 0, PropRunAsEuid 0]) \<and>
   isl (run_steps storage_block_set_property \<lparr>bo_real_block = False, bo_udev_client = False\<rparr>
       [PropUdevClient False, PropRealBlock True])"
proof -
  have h1: "mset [SpawnedJobProp (PropCancellable None), PropArgv None, PropInputString None, PropRunAsUid 0, PropRunAsEuid 0] =
      mset (construct_settings spawned_key storage_spawned_job_class_init [])"
    by (simp add: settings_eval)
  have h5: "mset [PropUdevClient False, PropRealBlock True] =
      mset (construct_settings block_key storage_block_class_init [PropRealBlock True])"
    by (simp add: settings_eval)
  have missing: "\<exists>p\<in>set (construct_settings block_key storage_block_class_init [PropRealBlock True]). \<not> block_fits p"
    by (simp add: settings_eval)
  note all = construction_never_asserts [OF h1 refl refl refl h5, of "[]" "[]" "[]"]
  show ?thesis using all missing by blast
qed

end
