(* ===== verification/Job_Release.thy ===== *)
theory Job_Release
  imports Object_Classes
begin

text \<open>
  The end of a threaded job, \<open>src/threadedjob.c\<close> and \<open>src/job.c\<close>: the references that the thread's
  idle source and the daemon hold, \<open>finalize\<close>, and the function that frees the user data.
\<close>

section \<open>State\<close>

text \<open>
  A job that was launched: the daemon owns the reference of the launch and drops it when the job has
  completed. The trace has the calls of the job function and of the function that frees its data.
\<close>

datatype 'd life_event = FunctionRan "'d option" | DataFreed nat "'d option"

record 'd threaded_life =
  tl_job :: threaded_job
  tl_refs :: nat
  tl_user_data :: "'d option"
  tl_free_func :: "nat option"
  tl_trace :: "'d life_event list"

definition launched_life ::
  "('d option \<Rightarrow> job_func) \<Rightarrow> 'd option \<Rightarrow> nat option \<Rightarrow> bool \<Rightarrow> 'd threaded_life" where
  "launched_life f d free is_cancelled =
     \<lparr>tl_job = (storage_threaded_job_new (f d) is_cancelled)\<lparr>cancelable := True\<rparr>, tl_refs = 1,
      tl_user_data = d, tl_free_func = free, tl_trace = []\<rparr>"

section \<open>Operations\<close>

definition storage_threaded_job_finalize :: "'d threaded_life \<Rightarrow> 'd threaded_life" where
  "storage_threaded_job_finalize self =
     (let self = self\<lparr>tl_job := (tl_job self)\<lparr>job_error := None\<rparr>\<rparr> in
      case tl_free_func self of
        None \<Rightarrow> self
      | Some f \<Rightarrow> self\<lparr>tl_trace := tl_trace self @ [DataFreed f (tl_user_data self)]\<rparr>)"

definition storage_job_finalize :: "'d threaded_life \<Rightarrow> 'd threaded_life" where
  "storage_job_finalize self = self\<lparr>tl_job := (tl_job self)\<lparr>samples := None\<rparr>\<rparr>"

text \<open>\<open>g_object_unref\<close>; the finalizer of the class calls the one of its parent.\<close>

definition threaded_unref :: "'d threaded_life \<Rightarrow> 'd threaded_life" where
  "threaded_unref self =
     (let self = self\<lparr>tl_refs := tl_refs self - 1\<rparr>
      in if tl_refs self = 0 then storage_job_finalize (storage_threaded_job_finalize self) else self)"

text \<open>
  The idle source holds a reference while it emits; \<open>on_job_completed\<close> of the daemon, which the
  default handler's \<open>completed\<close> runs, drops that of the launch.
\<close>

definition life_complete :: "'d threaded_life \<Rightarrow> abort + 'd threaded_life" where
  "life_complete self =
     (let self = self\<lparr>tl_refs := tl_refs self + 1\<rparr> in
      ebind (job_complete (tl_job self)) (\<lambda>j.
      let self = threaded_unref (self\<lparr>tl_job := j\<rparr>) in
      Inr (threaded_unref self)))"

definition life_run :: "'d threaded_life \<Rightarrow> abort + 'd threaded_life" where
  "life_run self =
     ebind (run_io_scheduler_job (tl_job self)) (\<lambda>j.
     Inr (self\<lparr>tl_job := j,
               tl_trace := (if cancelled (tl_job self) then tl_trace self
                            else tl_trace self @ [FunctionRan (tl_user_data self)])\<rparr>))"

text \<open>A job that is gone from the bus gets no call of \<open>Cancel\<close>.\<close>

fun life_step :: "'d threaded_life \<Rightarrow> thread_event \<Rightarrow> abort + 'd threaded_life" where
  "life_step self ThreadRuns = (if phase (tl_job self) = Scheduled then life_run self else Inr self)"
| "life_step self IdleRuns = (if phase (tl_job self) = IdleQueued then life_complete self else Inr self)"
| "life_step self CancelCalled =
     Inr (if tl_refs self = 0 then self else self\<lparr>tl_job := fst (handle_cancel (tl_job self))\<rparr>)"

section \<open>The life of a job\<close>

lemmas life_defs = life_run_def life_complete_def threaded_unref_def storage_threaded_job_finalize_def
  storage_job_finalize_def

lemma life_gone:
  "phase (tl_job s) = Emitted \<Longrightarrow> tl_refs s = 0 \<Longrightarrow> run_steps life_step s es = Inr s"
proof (induction es)
  case (Cons e es)
  then show ?case by (cases e) auto
qed simp

context job_function begin

lemma life_before:
  "ThreadRuns \<notin> set pre \<Longrightarrow> threaded_ok f (tl_job s) \<Longrightarrow> phase (tl_job s) = Scheduled \<Longrightarrow>
   cancelable (tl_job s) \<Longrightarrow> tl_refs s = 1 \<Longrightarrow>
   \<exists>j. run_steps life_step s pre = Inr (s\<lparr>tl_job := j\<rparr>) \<and> threaded_ok f j \<and> phase j = Scheduled \<and>
     cancelable j \<and> cancelled j = (cancelled (tl_job s) \<or> CancelCalled \<in> set pre)"
proof (induction pre arbitrary: s)
  case Nil
  then show ?case by (intro exI [of _ "tl_job s"]) simp
next
  case (Cons e pre)
  show ?case
  proof (cases e)
    case CancelCalled
    let ?s = "s\<lparr>tl_job := fst (handle_cancel (tl_job s))\<rparr>"
    have "\<exists>j. run_steps life_step ?s pre = Inr (?s\<lparr>tl_job := j\<rparr>) \<and> threaded_ok f j \<and> phase j = Scheduled \<and>
        cancelable j \<and> cancelled j = (cancelled (tl_job ?s) \<or> CancelCalled \<in> set pre)"
      using Cons.prems cancel_frame [of "tl_job s"] by (intro Cons.IH) simp_all
    with CancelCalled Cons.prems show ?thesis by auto
  qed (use Cons in auto)
qed

lemma life_after:
  "IdleRuns \<in> set post \<Longrightarrow> threaded_ok f (tl_job s) \<Longrightarrow> phase (tl_job s) = IdleQueued \<Longrightarrow> tl_refs s = 1 \<Longrightarrow>
   outcome (tl_job s) = v \<Longrightarrow> tl_free_func s = Some free \<Longrightarrow>
   \<exists>t. run_steps life_step s post = Inr t \<and> completions (tl_job t) = v \<and> tl_refs t = 0 \<and>
     tl_trace t = tl_trace s @ [DataFreed free (tl_user_data s)]"
proof (induction post arbitrary: s)
  case (Cons e post)
  show ?case
  proof (cases e)
    case IdleRuns
    obtain j where j: "job_complete (tl_job s) = Inr j" "threaded_ok f j" "phase j = Emitted"
      using complete_ok Cons.prems by blast
    have "outcome j = v"
      using outcome_step(1) [of "tl_job s" IdleRuns j] j Cons.prems by simp
    with j have c: "completions j = v" by (simp add: outcome_def)
    obtain t where t: "life_complete s = Inr t" "completions (tl_job t) = v" "phase (tl_job t) = Emitted" "tl_refs t = 0"
        "tl_trace t = tl_trace s @ [DataFreed free (tl_user_data s)]"
      using j(1,3) c Cons.prems by (auto simp: life_defs Let_def)
    with life_gone [OF t(3,4), of post] IdleRuns Cons.prems show ?thesis by simp
  next
    case CancelCalled
    have "outcome (fst (handle_cancel (tl_job s))) = v"
      using outcome_step(1) [of "tl_job s" CancelCalled] Cons.prems by simp
    with Cons.IH [of "s\<lparr>tl_job := fst (handle_cancel (tl_job s))\<rparr>"] CancelCalled Cons.prems cancel_frame [of "tl_job s"]
    show ?thesis by simp
  next
    case ThreadRuns
    with Cons show ?thesis by simp
  qed
qed simp

lemma life:
  assumes "f = g d" and "ThreadRuns \<notin> set pre" and "IdleRuns \<in> set post"
  shows "\<exists>t. run_steps life_step (launched_life g d (Some free) c) (pre @ ThreadRuns # post) = Inr t \<and>
    completions (tl_job t) = [threaded_verdict f (c \<or> CancelCalled \<in> set pre)] \<and> tl_refs t = 0 \<and>
    tl_trace t = (if c \<or> CancelCalled \<in> set pre then [] else [FunctionRan d]) @ [DataFreed free d]"
proof -
  let ?s = "launched_life g d (Some free) c"
  have s: "tl_job ?s = (storage_threaded_job_new f c)\<lparr>cancelable := True\<rparr>" "tl_refs ?s = 1" "tl_user_data ?s = d"
    "tl_free_func ?s = Some free" "tl_trace ?s = []"
    by (simp_all add: launched_life_def assms(1))
  have ok: "threaded_ok f (tl_job ?s)" by (simp add: s(1) threaded_new_ok)
  have "\<exists>j. run_steps life_step ?s pre = Inr (?s\<lparr>tl_job := j\<rparr>) \<and> threaded_ok f j \<and> phase j = Scheduled \<and>
      cancelable j \<and> cancelled j = (cancelled (tl_job ?s) \<or> CancelCalled \<in> set pre)"
    by (rule life_before [OF assms(2) ok]) (simp_all add: s)
  then obtain j where j: "run_steps life_step ?s pre = Inr (?s\<lparr>tl_job := j\<rparr>)" "threaded_ok f j" "phase j = Scheduled"
      "cancelled j = (c \<or> CancelCalled \<in> set pre)"
    by (auto simp: s)
  obtain k where k: "run_io_scheduler_job j = Inr k" "threaded_ok f k" "phase k = IdleQueued"
    using run_ok [OF j(2,3)] by blast
  let ?t = "?s\<lparr>tl_job := k, tl_trace := (if cancelled j then [] else [FunctionRan d])\<rparr>"
  have run: "life_step (?s\<lparr>tl_job := j\<rparr>) ThreadRuns = Inr ?t"
    using j(3) k(1) s by (simp add: life_run_def)
  have "outcome k = [threaded_verdict f (cancelled j)]" using run_outcome(1) [OF j(2,3) k(1)] .
  then have "\<exists>t. run_steps life_step ?t post = Inr t \<and> completions (tl_job t) = [threaded_verdict f (cancelled j)] \<and>
      tl_refs t = 0 \<and> tl_trace t = tl_trace ?t @ [DataFreed free (tl_user_data ?t)]"
    using k s by (intro life_after [OF assms(3)]) simp_all
  with j run s show ?thesis by (auto simp: run_steps_append)
qed

end

text \<open>
  The default handler looks at the truth value only: a function that returns \<open>TRUE\<close> and sets an error
  is reported as a success, where the documentation of \<open>threaded-job-completed\<close> goes by the error.
\<close>

lemma error_of_success_ignored: "f False = (True, Some e) \<Longrightarrow> threaded_verdict f False = (True, [])"
  by (simp add: threaded_verdict_def)

section \<open>Properties\<close>

text \<open>
  C31: The user data of a threaded job is freed exactly once, after the function has returned: once the
  thread has taken the job up and the idle source has run, the job has reported exactly once, that it
  was cancelled or what its function returned, the function has run once or, if the job was cancelled
  before, never, no reference is left, and the data went to the function that frees it. The function
  sets an error exactly when it fails, as the convention for errors of GLib and the documentation of
  \<open>threaded-job-completed\<close> have it.
\<close>

theorem threaded_data_freed_once:
  assumes "\<forall>c ok err. f d c = (ok, err) \<longrightarrow> (ok \<longleftrightarrow> err = None)"
    and "ThreadRuns \<notin> set pre" and "IdleRuns \<in> set post"
  shows "\<exists>t. run_steps life_step (launched_life f d (Some free) c) (pre @ ThreadRuns # post) = Inr t \<and>
    completions (tl_job t) = [threaded_verdict (f d) (c \<or> CancelCalled \<in> set pre)] \<and> tl_refs t = 0 \<and>
    tl_trace t = (if c \<or> CancelCalled \<in> set pre then [] else [FunctionRan d]) @ [DataFreed free d]"
proof -
  have "job_function (f d)" using assms(1) by (fastforce simp: job_function_def)
  then show ?thesis by (rule job_function.life [OF _ refl assms(2,3)])
qed

lemma threaded_data_freed_once_witness:
  "\<exists>t. run_steps life_step (launched_life (\<lambda>_ _. (True, None)) (Some ()) (Some 9) False)
      ([IdleRuns] @ ThreadRuns # [CancelCalled, IdleRuns, CancelCalled]) = Inr t \<and>
    completions (tl_job t) = [(True, [])] \<and> tl_trace t = [FunctionRan (Some ()), DataFreed 9 (Some ())]"
  using threaded_data_freed_once [of "\<lambda>_ _. (True, None)" "Some ()" "[IdleRuns]" "[CancelCalled, IdleRuns, CancelCalled]" 9 False]
  by (auto simp: threaded_verdict_def)

end
