(* ===== verification/Spec2Isabelle.thy ===== *)
theory Spec2Isabelle
  imports Helper_Program Invocation Group_Polling System_Run Job_Release
begin

text \<open>
  Storaged is the D-Bus service that shows the LVM2 volume groups of a machine on the system bus,
  next to the block devices of udisks, and runs the commands its callers ask for. This library
  models the daemon and its helper program, file by file, and proves what each part promises.
  Names of definitions are those of the C functions under \<open>src/src/\<close>; a name that would
  clash carries the name of the part as a prefix.

  \<^bold>\<open>The parts and their theories.\<close>

  \<open>Prelude\<close> has strings as C uses them, the hash tables (association lists in an order of
  their own, contract \<open>string_table\<close>), computations that may stop the program (\<open>ebind\<close>) and
  state machines driven by the main loop (contracts \<open>contract_machine\<close>, \<open>guarded_machine\<close>,
  \<open>safe_machine\<close>).
  \<open>GLib_Types\<close> has \<open>GVariant\<close> dictionaries and their lookups, \<open>GError\<close>, doubles with infinities
  and NaN, the ways the program stops (\<open>abort\<close>: a failed assertion, a \<open>NULL\<close> that is used, a
  variable or memory that must not be read), and the system calls as a parameter \<open>os\<close> with the
  trace of those made.

  \<open>Util\<close> is \<open>util.c\<close>: object paths from names, verdicts on exit statuses, wiping a device.
  \<open>Helper_Program\<close> is \<open>helper.c\<close>, the program that asks LVM; the LVM library is a parameter.
  \<open>Object_Server\<close> is the part of \<open>daemon.c\<close> that publishes and unpublishes interfaces.
  \<open>Jobs\<close>, \<open>Threaded_Job\<close> and \<open>Spawned_Job\<close> are \<open>job.c\<close>, \<open>threadedjob.c\<close> and
  \<open>spawnedjob.c\<close>: what a job reports, and how it runs a function or a child to its completion.
  \<open>Daemon\<close> is the rest of \<open>daemon.c\<close>: clients, the bus name, the jobs, and the readers of the
  output of helpers. \<open>Invocation\<close> is \<open>invocation.c\<close>: the callers and their authorization.
  \<open>Requests\<close> is how the handlers of all interfaces answer when a job ends or an object appears.
  \<open>Block_Devices\<close> is \<open>block.c\<close> and \<open>physicalvolume.c\<close>, \<open>Logical_Volume\<close> is
  \<open>logicalvolume.c\<close>, and \<open>volumegroup.c\<close> is in four theories: \<open>Volume_Group\<close> (the model of the
  update and the disposal), \<open>Group_Update\<close> (what they achieve), \<open>Group_Polling\<close> and
  \<open>Group_Methods\<close>. \<open>manager.c\<close> is in \<open>Manager\<close> (the model), \<open>Manager_Cycles\<close> (the invariant
  of its cycles of updates), \<open>Manager_Updates\<close> (what the cycles achieve), \<open>Manager_Groups\<close> (the
  invariant of all groups at once) and \<open>Manager_Creation\<close> (the creation of a group).
  \<open>Method_Calls\<close> has the handlers of the signals \<open>completed\<close> and \<open>published\<close> of all three files and
  what an update announces to them, \<open>Method_Answers\<close> what each method connects and what its caller
  is told, and \<open>Service_Run\<close> the manager and a caller who waits for an object, run together.
  \<open>System_Run\<close> is the whole service in one run: the manager, the daemon with its jobs and clients,
  and any number of calls, on one bus; \<open>Jobs_Apart\<close> shows that the manager leaves the jobs in place.
  \<open>Main_Program\<close> is \<open>main.c\<close>: the log, the options, the construction of the daemon, what ends the
  main loop, and the exit status. \<open>Object_Classes\<close> has the GObject classes of all files: the
  properties and signals they install, \<open>set_property\<close>, \<open>get_property\<close> and \<open>constructed\<close> (contract
  \<open>construct_properties\<close>, for settings in any order), and \<open>Job_Release\<close> the end of a threaded job with its
  references and its user data. This theory has the properties that span parts.

  \<^bold>\<open>State and operations.\<close> A C object is a record of the fields the code keeps, an instance of a
  GObject type a \<open>thing\<close> with a number of its own, the object manager a table from object paths
  to the interfaces there. An operation takes the state and returns it; what may stop the program
  returns \<open>abort + state\<close>, a fallible call \<open>gerror + value\<close>. The callbacks of GLib's main loop
  are the events of a step function per component, so that every order of events is a list of them:
  \<open>job_step\<close>, \<open>threaded_step\<close>, \<open>sj_step\<close>, \<open>daemon_step\<close>, \<open>inv_step\<close>, \<open>closure_step\<close>,
  \<open>poll_step\<close>, \<open>manager_step\<close>, \<open>call_step\<close>, \<open>service_step\<close>, \<open>system_step\<close>,
  \<open>life_step\<close> and \<open>main_step\<close>. A call that blocks is a value (\<open>Waits\<close>).

  \<^bold>\<open>What the lemmas show.\<close> Invariants over all runs: the object table stays well
  formed, the jobs are counted, callers are counted, a block exports the interfaces it holds, the data
  of an update cycle lives as long as a helper may use it, the groups and volumes on the bus are those
  of the manager's table, in runs of the manager alone and of the whole service
  (\<open>service_consistent\<close>). Effects: an update makes the bus show the report, volume by
  volume and block by block; a disposal withdraws all of it; the table of groups is the list of LVM;
  objects come out of GObject as the model makes them (\<open>objects_any_order\<close>); commands that
  destroy data run only after the checks and in the order the code promises. Answers: a caller is told
  the verdict of its job, or the path of what an update made for it, at most once
  (\<open>method_answers_verdict\<close>, \<open>update_answers_callers\<close>); over whole runs the
  signals tell a caller what a reader of the manager's table would see
  (\<open>callers_follow_table\<close>), and every call of the service is accounted for by its job
  (\<open>callers_accounted\<close>). Errors: which inputs stop the program, what an error leaves
  undone. Liveness: a request to poll and an event of udev are served at the next firing of their
  timers, a threaded job completes once and its data is freed once, the main loop returns exactly on the
  events that end it. Round trips: object paths decode, the helper's answers read back. The theorem
  \<open>lvm_state_reaches_bus\<close> composes the arguments, the helper, the reader and the update.
  Several theorems show what goes wrong: a group's answer that is an error or unchanged strands its
  cycle, a closure is used after it was freed, a failed lookup of a caller lets the call through, a
  caller that vanishes blocks its call, names of non-ASCII bytes collide.

  \<^bold>\<open>Bounds and fuel.\<close> No definition uses fuel. \<open>write_all\<close> may loop for ever in C and is a
  partial function, shown to return when the kernel takes bytes. Sizes are 64-bit words, user ids
  and the counter of jobs 32-bit words; the counter's wrap-around is in \<open>job_path\<close>, and the
  theorems on jobs say up to which number of jobs they hold.

  \<^bold>\<open>Parameters and hypotheses.\<close> The kernel and the commands it runs (\<open>os\<close>), the LVM library
  (\<open>lvm_library\<close>), polkit, GLib's parser of a helper's bytes (\<open>env_parse\<close>, \<open>env_names\<close>), the times
  of events and the results of spawning are arguments. What the theorems call a call that went well is said by the
  kernel's answers alone (\<open>went_well\<close>, \<open>all_well\<close>), and so is a wipe of devices (\<open>wipes\<close>), what a report
  has for a block by the report alone (\<open>reported_pv\<close>), and who a child runs as by the credentials the
  kernel keeps (\<open>granted\<close>). Where a theorem relies on one of them its
  hypotheses say so, and a witness instantiates it.

  \<^bold>\<open>Not modelled.\<close> The messages that files other than \<open>main.c\<close> log, and GLib's parser of options
  (a parameter); the generated D-Bus skeletons, whose properties are fields; notifications of changed
  properties; reference counts and finalizers where they only free memory, and the daemon's, which
  \<open>main.c\<close> leaves out; the serialization of \<open>GVariant\<close>; the id getters of blocks, which nothing calls.
  Emissions of \<open>published\<close> are a list on the daemon; the handlers they run see the instances at the
  end of the update or event (\<open>hear\<close>, \<open>hear_manager\<close>), whose names, groups and paths are those at the time of the signal.
  A helper that outlives the disposal of its group reports to the group in \<open>dropped_groups\<close>, as
  the reference it holds does in C.
  Polling and the authorization of a call are machines of their own (\<open>poll_step\<close>, \<open>inv_step\<close>), not
  part of \<open>system_step\<close>: a call there is one that was let through, and a call for an object without an
  instance is refused by GLib (\<open>method_of\<close>). The jobs of \<open>system_step\<close> are not cancelled; what a
  cancellation can break is in \<open>Spawned_Job\<close>. The reader of a helper's output ends with its answer;
  that its memory and its sources are then released is not modelled. A second signal that would
  end the main loop finds its source gone in C; in the model it ends the loop again, which changes nothing. The
  result of \<open>write\<close> is not cut to the \<open>int\<close> that \<open>write_all\<close> keeps it in: the kernel takes less than that at once.
\<close>

section \<open>Properties that span the components\<close>

text \<open>An update changes of a group only its volumes before the end.\<close>

lemma update_volume_frame:
  assumes "update_volume os now i (w, g, p, ns) = Inr (w', g', p', ns')"
  shows "\<exists>t. g' = g\<lparr>logical_volumes := t\<rparr>"
proof -
  obtain name where name: "lookup_s i ''name'' = Some name"
    using assms by (auto simp: update_volume_def split: option.splits)
  obtain r where r: "update_operations now name i w p = Inr r"
    using assms name by (auto simp: update_volume_def ebind_Inr)
  obtain w1 q where "r = (w1, q)" by fastforce
  with assms r show ?thesis
    by (cases g) (auto simp: update_volume_def name Let_def split: option.splits if_splits prod.splits)
qed

lemma update_volumes_frame:
  "update_volumes os now is (w, g, p, ns) = Inr (w', g', p', ns') \<Longrightarrow> \<exists>t. g' = g\<lparr>logical_volumes := t\<rparr>"
proof (induction "is" arbitrary: w g p ns)
  case Nil
  then show ?case by (cases g) auto
next
  case (Cons i "is")
  then obtain w1 g1 p1 ns1 where "update_volume os now i (w, g, p, ns) = Inr (w1, g1, p1, ns1)"
    and rest: "update_volumes os now is (w1, g1, p1, ns1) = Inr (w', g', p', ns')"
    by (auto simp: ebind_Inr)
  then obtain t where "g1 = g\<lparr>logical_volumes := t\<rparr>" using update_volume_frame by blast
  with Cons.IH [OF rest] show ?case by auto
qed

lemma update_shows_props:
  assumes "update_with_variant os now (Inr info) w g = Inr (w', g', True)"
  shows "vgo_uuid g' = vgo_uuid (volume_group_update_props g info) \<and>
    vgo_size g' = vgo_size (volume_group_update_props g info) \<and>
    vgo_free_size g' = vgo_free_size (volume_group_update_props g info) \<and>
    vgo_extent_size g' = vgo_extent_size (volume_group_update_props g info)"
proof -
  obtain w1 g1 where 1: "published_group w (volume_group_update_props g info) = (w1, g1)" by fastforce
  have g1: "vgo_uuid g1 = vgo_uuid (volume_group_update_props g info) \<and>
      vgo_size g1 = vgo_size (volume_group_update_props g info) \<and>
      vgo_free_size g1 = vgo_free_size (volume_group_update_props g info) \<and>
      vgo_extent_size g1 = vgo_extent_size (volume_group_update_props g info)"
    using 1 by (auto simp: published_group_def split: if_splits)
  obtain r where r: "update_volumes os now (dicts_of info ''lvs'') (w1, g1\<lparr>last_info := Some info\<rparr>, False, []) = Inr r"
    using assms unfolding update_with_variant_eq 1 by (auto simp: Let_def ebind_Inr split: if_splits)
  obtain w2 g2 p2 ns2 where r2: "r = (w2, g2, p2, ns2)" by (cases r)
  with update_volumes_frame r obtain t where "g2 = g1\<lparr>last_info := Some info\<rparr>\<lparr>logical_volumes := t\<rparr>" by blast
  with assms g1 r r2 show ?thesis
    unfolding update_with_variant_eq 1 by (auto simp: Let_def ebind_Inr split: if_splits prod.splits)
qed

lemma keys_read_physical_volumes:
  "ht_keys (read_physical_volumes pvs) = {n. \<exists>pv\<in>set pvs. lookup_s pv ''device'' = Some n}"
proof -
  have "ht_keys (fold (\<lambda>pv t. case lookup_s pv ''device'' of Some name \<Rightarrow> ht_insert t name pv | None \<Rightarrow> t) pvs t) =
      ht_keys t \<union> {n. \<exists>pv\<in>set pvs. lookup_s pv ''device'' = Some n}" for t
    by (induction pvs arbitrary: t) (auto simp: ht.keys_ins split: option.split)
  then show ?thesis by (simp add: read_physical_volumes_def ht_keys_def)
qed

lemma visible_names_shown:
  "visible_names (map show_logical_volume lvs) = filter lv_is_visible (map lv_name lvs)"
  by (induction lvs) (simp_all add: visible_name_def)

text \<open>What the helper answers to the update of a group.\<close>

lemma helper_answers_update:
  assumes "vg_open lvm ignore_locks (vgo_name g) = Some vg"
  shows "helper_main lvm (tl (storage_volume_group_update g ignore_locks)) =
    HelperAnswer True (VgInfo (the (show_volume_group lvm ignore_locks (vgo_name g))))"
  using assms by (auto simp: storage_volume_group_update_def helper_main_def show_volume_group_def has_prefix.simps)

lemma answer_fields:
  assumes "vg_open lvm ignore_locks name = Some vg" and "show_volume_group lvm ignore_locks name = Some info"
  shows "dicts_of info ''lvs'' = map show_logical_volume (case_option [] id (vg_list_lvs vg))"
    and "dicts_of info ''pvs'' = map show_physical_volume (case_option [] id (vg_list_pvs vg))"
    and "lookup_s info ''uuid'' = Some (vg_uuid vg)" and "lookup_t info ''size'' = Some (vg_size vg)"
    and "lookup_t info ''free-size'' = Some (vg_free_size vg)"
    and "lookup_t info ''extent-size'' = Some (vg_extent_size vg)"
  using assms
  by (auto simp: show_volume_group_def dicts_of_def lookup_defs add_string_def add_uint64_def split: option.splits)

text \<open>
  C1: What LVM says of a group is what the bus shows. The arguments of the update make the helper
  answer about the group; when the helper has exited well and GLib reads its answer back from the
  bytes it wrote, in whatever pieces they arrived, an update that takes effect leaves the group
  with the volumes of LVM that are visible, its sizes, and its physical volumes, exported under
  its name.
\<close>

theorem lvm_state_reaches_bus:
  assumes "world_ok w" and "group_ok (the_daemon w) g \<or> group_new (the_daemon w) g"
    and vg: "vg_open lvm ignore_locks (vgo_name g) = Some vg"
    and inj: "inj_on escape (ht_keys (logical_volumes g) \<union> lv_name ` set (case_option [] id (vg_list_lvs vg)))"
    and spawned: "storage_daemon_spawn_for_variant (env_lib env) (env_data env) (the_daemon w) spawn
      (storage_volume_group_update g ignore_locks) = Inr reader"
    and answer: "helper_main lvm (tl (storage_volume_group_update g ignore_locks)) = HelperAnswer True (VgInfo info)"
    and bytes: "env_parse env (concat chunks @ rest) = info" and "exited_ok status"
    and update: "update_with_variant (env_os env) now
      (answer_of env (variant_reader_watch_child (env_os env) status (Some rest)
        (fold variant_reader_child_output chunks reader))) w g = Inr (w', g', True)"
  shows "ht_keys (logical_volumes g') = {n \<in> lv_name ` set (case_option [] id (vg_list_lvs vg)). lv_is_visible n} \<and>
    ht_keys (physical_volumes g') = pv_name ` set (case_option [] id (vg_list_pvs vg)) \<and>
    vgo_uuid g' = Some (vg_uuid vg) \<and> vgo_size g' = vg_size vg \<and> vgo_free_size g' = vg_free_size vg \<and>
    vgo_extent_size g' = vg_extent_size vg \<and>
    path_of (the_daemon w') (vgo_thing g') = Some (group_path (vgo_name g))"
proof -
  have info: "show_volume_group lvm ignore_locks (vgo_name g) = Some info"
    using answer helper_answers_update [OF vg] vg by (simp add: show_volume_group_def)
  note fields = answer_fields [OF vg info]
  have "variant_reader_watch_child (env_os env) status (Some rest) (fold variant_reader_child_output chunks reader) =
      ReaderData (concat chunks @ rest)"
    using spawned \<open>exited_ok status\<close>
    by (auto simp: storage_daemon_spawn_for_variant_def variant_reader_watch_child_def reader_output check_exit_status_def
        split: sum.splits)
  with update bytes have u: "update_with_variant (env_os env) now (Inr info) w g = Inr (w', g', True)" by simp
  have "inj_on escape (ht_keys (logical_volumes g) \<union> set (visible_names (dicts_of info ''lvs'')))"
    using inj by (rule inj_on_subset) (auto simp: fields(1) visible_names_shown)
  note run = group_update_run [OF assms(1,2) this u]
  have "path_of (the_daemon w') (vgo_thing g') = Some (group_path (vgo_name g'))"
    using run(1,2) by (intro group_places_path(1)) (simp add: group_places_def world_ok_def)
  moreover have "ht_keys (physical_volumes g') = pv_name ` set (case_option [] id (vg_list_pvs vg))"
    by (auto simp: run(6) keys_read_physical_volumes fields(2))
  moreover have "ht_keys (logical_volumes g') = {n \<in> lv_name ` set (case_option [] id (vg_list_lvs vg)). lv_is_visible n}"
    by (auto simp: run(4) fields(1) visible_names_shown)
  ultimately show ?thesis
    using update_shows_props [OF u] run(3) by (simp add: volume_group_update_props_def fields)
qed

definition demo_answer :: vardict where
  "demo_answer = the (show_volume_group demo_lvm False ''vg0'')"

definition lvm_env :: env where
  "lvm_env = \<lparr>env_lib = ''/usr/lib'', env_data = ''/usr/share'', env_os = agreeing_os,
     env_parse = (\<lambda>_. demo_answer), env_names = (\<lambda>_. [''vg0''])\<rparr>"

lemma lvm_state_reaches_bus_witness:
  "\<exists>w' g'. update_with_variant agreeing_os 0 (Inr demo_answer) demo_world demo_group = Inr (w', g', True) \<and>
     ht_keys (logical_volumes g') = {''root''} \<and> ht_keys (physical_volumes g') = {''/dev/sda1''} \<and>
     vgo_size g' = 8388608"
proof -
  have vg: "vg_open demo_lvm False (vgo_name demo_group) = Some demo_vg"
    by (simp add: demo_lvm_def demo_group_def storage_volume_group_new_def)
  have shown: "show_volume_group demo_lvm False ''vg0'' = Some demo_answer"
    by (simp add: demo_answer_def show_volume_group_def demo_lvm_def)
  have lvs: "dicts_of demo_answer ''lvs'' = [show_logical_volume demo_lv]"
    using answer_fields(1) [of demo_lvm False "''vg0''" demo_vg demo_answer] shown
    by (simp add: demo_lvm_def demo_vg_def)
  have "jobs_quiet (the_daemon demo_world)" "last_info demo_group \<noteq> Some demo_answer"
    by (simp_all add: jobs_quiet_def demo_world_def storage_daemon_init_def demo_group_def storage_volume_group_new_def)
  from group_update_verdict [OF this, of agreeing_os 0] obtain w' g' where
    u: "update_with_variant agreeing_os 0 (Inr demo_answer) demo_world demo_group = Inr (w', g', True)"
    by (auto simp: lvs named_def lv_named_def of_group_def udev_property_def demo_world_def demo_block_def
        split: sum.splits)
  have answer: "helper_main demo_lvm (tl (storage_volume_group_update demo_group False)) = HelperAnswer True (VgInfo demo_answer)"
    using helper_answers_update [OF vg] shown by (simp add: demo_group_def storage_volume_group_new_def)
  have spawned: "storage_daemon_spawn_for_variant (env_lib lvm_env) (env_data lvm_env) (the_daemon demo_world)
      (\<lambda>_. Inr 7) (storage_volume_group_update demo_group False) = Inr \<lparr>reader_pid = 7, rd_output = []\<rparr>"
    by (simp add: storage_daemon_spawn_for_variant_def)
  have inj: "inj_on escape (ht_keys (logical_volumes demo_group) \<union> lv_name ` set (case_option [] id (vg_list_lvs demo_vg)))"
    by (simp add: demo_group_def storage_volume_group_new_def ht_keys_def demo_vg_def)
  have exited: "exited_ok 0" by code_simp
  have bytes: "env_parse lvm_env (concat [''ab''] @ ''c'') = demo_answer" by (simp add: lvm_env_def)
  have update: "update_with_variant (env_os lvm_env) 0 (answer_of lvm_env (variant_reader_watch_child (env_os lvm_env) 0
      (Some ''c'') (fold variant_reader_child_output [''ab''] \<lparr>reader_pid = 7, rd_output = []\<rparr>))) demo_world demo_group =
      Inr (w', g', True)"
    using u exited by (simp add: variant_reader_watch_child_def check_exit_status_def lvm_env_def)
  note reached = lvm_state_reaches_bus [OF demo_hyps(1,2) vg inj spawned answer bytes exited update]
  have "lv_is_visible ''root''" by code_simp
  then have "{n \<in> lv_name ` set (case_option [] id (vg_list_lvs demo_vg)). lv_is_visible n} = {''root''}"
    by (auto simp: demo_vg_def demo_lv_def)
  moreover have "pv_name ` set (case_option [] id (vg_list_pvs demo_vg)) = {''/dev/sda1''}" "vg_size demo_vg = 8388608"
    by (simp_all add: demo_vg_def)
  ultimately show ?thesis using reached u by metis
qed

text \<open>
  C19: The table of groups is the list of LVM: the arguments of a cycle make the helper list the
  groups, and when GLib reads the list back from the bytes of a helper that exited well, the
  manager holds exactly those groups.
\<close>

theorem lvm_list_reaches_table:
  assumes spawned: "storage_daemon_spawn_for_variant (env_lib env) (env_data env) d spawn lvm_list_argv = Inr reader"
    and answer: "helper_main lvm (tl lvm_list_argv) = HelperAnswer True (VgNames names)"
    and bytes: "env_names env (concat chunks @ rest) = names" and "exited_ok status"
    and run: "lvm_update_from_variant env now spawn' u
      (names_of env (variant_reader_watch_child (env_os env) status (Some rest)
        (fold variant_reader_child_output chunks reader))) m = Inr m'"
    and "cycles_ok m"
  shows "ht_keys (name_to_volume_group m') = set (list_vg_names lvm False)"
proof -
  have names: "names = list_vg_names lvm False"
    using answer by (simp add: lvm_list_argv_def helper_main_def list_volume_groups_def has_prefix.simps)
  have "variant_reader_watch_child (env_os env) status (Some rest) (fold variant_reader_child_output chunks reader) =
      ReaderData (concat chunks @ rest)"
    using spawned \<open>exited_ok status\<close>
    by (auto simp: storage_daemon_spawn_for_variant_def variant_reader_watch_child_def reader_output check_exit_status_def
        split: sum.splits)
  then have "lvm_update_from_variant env now spawn' u (Inr names) m = Inr m'" using run bytes by simp
  moreover have "ht_wf (name_to_volume_group m)" using \<open>cycles_ok m\<close> by (simp add: cycles_ok_def)
  ultimately have "ht_keys (name_to_volume_group m') = set names" by (rule list_answer_keys)
  then show ?thesis by (simp add: names)
qed

lemma lvm_list_reaches_table_witness:
  "\<exists>m m'. run_steps (manager_step lvm_env) (storage_manager_new (storage_daemon_init True None))
       [InitAsync 0 (\<lambda>_. Inr 7)] = Inr m \<and>
     lvm_update_from_variant lvm_env 0 (\<lambda>_. Inr 8) 0 (Inr [''vg0'']) m = Inr m' \<and>
     ht_keys (name_to_volume_group m') = {''vg0''}"
proof -
  let ?d = "storage_daemon_init True None"
  obtain m where m: "run_steps (manager_step lvm_env) (storage_manager_new ?d) [InitAsync 0 (\<lambda>_. Inr 7)] = Inr m"
    and "\<exists>m'. lvm_update_from_variant lvm_env 0 (\<lambda>_. Inr 8) 0 (Inr [''vg0'']) m = Inr m'"
    by (simp add: manager_eval)
  then obtain m' where run: "lvm_update_from_variant lvm_env 0 (\<lambda>_. Inr 8) 0 (Inr [''vg0'']) m = Inr m'" by blast
  have ok: "cycles_ok m" using storage_manager_new_ok(1) m by (rule cy.run_inv)
  have "storage_daemon_spawn_for_variant (env_lib lvm_env) (env_data lvm_env) ?d (\<lambda>_. Inr 7) lvm_list_argv =
      Inr \<lparr>reader_pid = 7, rd_output = []\<rparr>"
    by (simp add: storage_daemon_spawn_for_variant_def)
  moreover have "helper_main demo_lvm (tl lvm_list_argv) = HelperAnswer True (VgNames [''vg0''])"
    by (simp add: lvm_list_argv_def helper_main_def list_volume_groups_def demo_lvm_def)
  moreover have "env_names lvm_env (concat [''ab''] @ ''c'') = [''vg0'']" by (simp add: lvm_env_def)
  moreover have exited: "exited_ok 0" by code_simp
  moreover have "lvm_update_from_variant lvm_env 0 (\<lambda>_. Inr 8) 0 (names_of lvm_env (variant_reader_watch_child
      (env_os lvm_env) 0 (Some ''c'') (fold variant_reader_child_output [''ab''] \<lparr>reader_pid = 7, rd_output = []\<rparr>))) m = Inr m'"
    using run exited by (simp add: variant_reader_watch_child_def check_exit_status_def lvm_env_def)
  ultimately have "ht_keys (name_to_volume_group m') = set (list_vg_names demo_lvm False)"
    using ok by (rule lvm_list_reaches_table)
  with m run show ?thesis by (auto simp: demo_lvm_def)
qed

text \<open>
  C24: Of the nine methods of a group, \<open>Poll\<close> alone is answered with success at once: it asks for a poll in
  the main loop and changes nothing else. Every other method either is refused with an error, and
  then no job is launched and nothing is exported, or launches exactly one job and is not answered
  before it ends.
\<close>

theorem group_methods_answered:
  "(case handle_poll s of (s', reply) \<Rightarrow>
      reply = Return [] \<and> queued s' = queued s + 1 \<and> polled s' = polled s \<and> poll_world s' = poll_world s \<and>
      poll_log s' = poll_log s) \<and>
   (case vg_handle os tr name_of spawn uid w g request of (w', res) \<Rightarrow>
      case res of
        Answered reply \<Rightarrow> (\<exists>e. reply = ReturnError e) \<and> the_daemon w' = the_daemon w
      | AnswersOnJob t _ \<Rightarrow>
          (\<exists>j. jobs (the_daemon w') = jobs (the_daemon w) @ [(t, j)]) \<and> num_jobs (the_daemon w') = num_jobs (the_daemon w) + 1
      | AnswersOnObject t _ \<Rightarrow>
          (\<exists>j. jobs (the_daemon w') = jobs (the_daemon w) @ [(t, j)]) \<and> num_jobs (the_daemon w') = num_jobs (the_daemon w) + 1)"
  by (intro conjI vg_handle_one_job) (simp add: handle_poll_def storage_volume_group_poll_def)

end
